(* ===== verification/Ult_Prelude.thy ===== *)
theory Ult_Prelude
  imports Main "HOL-Library.Word"
begin

text \<open>
  Shared vocabulary of the development: the types of the model, the outcome of a C call
  (normal return, blocking, failed assertion, undefined behaviour), two's complement
  arithmetic as C defines it, and the generic notions of reachability and invariant that
  the state machines of the later theories instantiate.
\<close>

section \<open>Types\<close>

type_synonym tid = nat
type_synonym addr = nat
type_synonym i32 = "32 word"
type_synonym i64 = "64 word"

text \<open>
  The return codes the sources use. Their numeric values are defined outside the
  repository, so only their being pairwise different is used.
\<close>

datatype rc = SUCCESS | ERROR | ERR_OUT_OF_RESOURCE | ERR_IN_ERRNO | ERR_BAD_PARAM

text \<open>
  What a call does to its caller: it returns a value, it has to wait, an \<open>assert\<close>
  fails, or the C standard gives the call no meaning (signed overflow, a null pointer
  dereferenced, a mutex misused in a way POSIX leaves undefined).
\<close>

datatype 'a outcome = Ret 'a | Block | AssertFail | UB

primrec obind :: "'a outcome \<Rightarrow> ('a \<Rightarrow> 'b outcome) \<Rightarrow> 'b outcome" where
  "obind (Ret x) f = f x"
| "obind Block f = Block"
| "obind AssertFail f = AssertFail"
| "obind UB f = UB"

lemma obind_eq_Ret [simp]: "obind m f = Ret y \<longleftrightarrow> (\<exists>x. m = Ret x \<and> f x = Ret y)"
  by (cases m) auto

lemma obind_eq_Block: "obind m f = Block \<longleftrightarrow> m = Block \<or> (\<exists>x. m = Ret x \<and> f x = Block)"
  by (cases m) auto

lemma obind_eq_UB: "obind m f = UB \<longleftrightarrow> m = UB \<or> (\<exists>x. m = Ret x \<and> f x = UB)"
  by (cases m) auto

lemma obind_eq_AssertFail: "obind m f = AssertFail \<longleftrightarrow> m = AssertFail \<or> (\<exists>x. m = Ret x \<and> f x = AssertFail)"
  by (cases m) auto

lemma obind_assoc: "obind (obind m f) g = obind m (\<lambda>x. obind (f x) g)"
  by (cases m) auto

lemma obind_Ret [simp]: "obind m Ret = m"
  by (cases m) auto

section \<open>Outcomes that agree\<close>

text \<open>
  \<open>matches R ra rc\<close>: a concrete call returns when the abstract one does, with related
  results, and waits when it waits. When the abstract outcome is undefined anything goes.
\<close>

definition matches :: "('a \<Rightarrow> 'b \<Rightarrow> bool) \<Rightarrow> 'b outcome \<Rightarrow> 'a outcome \<Rightarrow> bool" where
  "matches R ra rc \<longleftrightarrow> (case ra of Ret b \<Rightarrow> \<exists>a. rc = Ret a \<and> R a b | Block \<Rightarrow> rc = Block | AssertFail \<Rightarrow> True | UB \<Rightarrow> True)"

lemma matches_simps [simp]:
  "matches R (Ret b) rc \<longleftrightarrow> (\<exists>a. rc = Ret a \<and> R a b)" "matches R Block rc \<longleftrightarrow> rc = Block"
  "matches R AssertFail rc" "matches R UB rc"
  by (simp_all add: matches_def)

lemma matches_bind:
  assumes "matches R ra rc" "\<And>a b. R a b \<Longrightarrow> rc = Ret a \<Longrightarrow> ra = Ret b \<Longrightarrow> matches R' (f b) (g a)"
  shows "matches R' (obind ra f) (obind rc g)"
  using assms by (cases ra) auto

lemma matches_mono: "matches R ra rc \<Longrightarrow> (\<And>a b. R a b \<Longrightarrow> R' a b) \<Longrightarrow> matches R' ra rc"
  by (cases ra) auto

lemma matches_same: "(\<And>x. r = Ret x \<Longrightarrow> matches R (f x) (g x)) \<Longrightarrow> matches R (obind r f) (obind r g)"
  by (cases r) auto

named_theorems ult_defs \<open>definitions of the model's operations, for unfolding\<close>
named_theorems ult_frame \<open>what an operation leaves unchanged\<close>

section \<open>C integer arithmetic\<close>

text \<open>
  \<open>fits\<close> says that a mathematical integer is a value of the signed type of the given
  width. Signed addition and subtraction whose result does not fit are undefined in C;
  unsigned arithmetic wraps around.
\<close>

definition fits :: "'w::len itself \<Rightarrow> int \<Rightarrow> bool" where
  "fits _ x \<longleftrightarrow> - (2 ^ (LENGTH('w) - 1)) \<le> x \<and> x < 2 ^ (LENGTH('w) - 1)"

definition c_sadd :: "'w::len word \<Rightarrow> 'w word \<Rightarrow> 'w word outcome" where
  "c_sadd a b = (if fits TYPE('w) (sint a + sint b) then Ret (a + b) else UB)"

definition c_ssub :: "'w::len word \<Rightarrow> 'w word \<Rightarrow> 'w word outcome" where
  "c_ssub a b = (if fits TYPE('w) (sint a - sint b) then Ret (a - b) else UB)"

lemma fits_sint: "fits TYPE('w) (sint (a :: 'w::len word))"
  using sint_ge [of a] sint_lt [of a] by (simp add: fits_def)

lemma sint_of_fits:
  assumes "fits TYPE('w) x"
  shows "sint (word_of_int x :: 'w::len word) = x"
  using assms by (simp add: fits_def sint_sbintrunc' signed_take_bit_int_eq_self)

lemma sint_add_fits:
  fixes a b :: "'w::len word"
  assumes "fits TYPE('w) (sint a + sint b)"
  shows "sint (a + b) = sint a + sint b"
  using sint_of_fits [OF assms] by simp

lemma sint_diff_fits:
  fixes a b :: "'w::len word"
  assumes "fits TYPE('w) (sint a - sint b)"
  shows "sint (a - b) = sint a - sint b"
  using sint_of_fits [OF assms] by simp

lemma c_sadd_eq_Ret: "c_sadd a b = Ret c \<longleftrightarrow> fits TYPE('w) (sint a + sint b) \<and> c = a + b"
  for a b :: "'w::len word"
  by (auto simp: c_sadd_def)

lemma c_sadd_sint: "c_sadd a b = Ret c \<Longrightarrow> sint c = sint a + sint b"
  by (auto simp: c_sadd_eq_Ret sint_add_fits)

section \<open>Reachability and invariants\<close>

text \<open>
  The states a machine can be in: a start state, then any number of steps. A locale holds
  the proof that a property which holds at the start and which every step keeps holds in
  every reachable state; each machine of the development interprets it.
\<close>

inductive reach :: "('s \<Rightarrow> bool) \<Rightarrow> ('s \<Rightarrow> 's \<Rightarrow> bool) \<Rightarrow> 's \<Rightarrow> bool"
  for init step where
  reach_init: "init s \<Longrightarrow> reach init step s"
| reach_step: "reach init step s \<Longrightarrow> step s s' \<Longrightarrow> reach init step s'"

locale inv_system =
  fixes init :: "'s \<Rightarrow> bool" and step :: "'s \<Rightarrow> 's \<Rightarrow> bool" and inv :: "'s \<Rightarrow> bool"
  assumes inv_init: "init s \<Longrightarrow> inv s"
    and inv_step: "inv s \<Longrightarrow> step s s' \<Longrightarrow> inv s'"
begin

lemma reach_inv: "reach init step s \<Longrightarrow> inv s"
  by (induction rule: reach.induct) (auto intro: inv_init inv_step)

end

text \<open>Systems whose moves use something up: they come to rest.\<close>

locale settling =
  fixes move :: "'s \<Rightarrow> 's \<Rightarrow> bool" and inv :: "'s \<Rightarrow> bool" and left :: "'s \<Rightarrow> nat"
  assumes move_inv: "inv s \<Longrightarrow> move s s' \<Longrightarrow> inv s'"
    and move_left: "inv s \<Longrightarrow> move s s' \<Longrightarrow> left s' < left s"
begin

lemma bounded_runs: "(move ^^ n) s s' \<Longrightarrow> inv s \<Longrightarrow> inv s' \<and> n + left s' \<le> left s"
proof (induction n arbitrary: s')
  case (Suc n)
  then obtain r where r: "(move ^^ n) s r" "move r s'" by auto
  with Suc.IH [OF r(1) Suc.prems(2)] move_inv [OF _ r(2)] move_left [OF _ r(2)] show ?case by fastforce
qed simp

lemma settles: "inv s \<Longrightarrow> \<exists>n s'. (move ^^ n) s s' \<and> inv s' \<and> \<not> (\<exists>s''. move s' s'')"
proof (induction "left s" arbitrary: s rule: less_induct)
  case less
  show ?case
  proof (cases "\<exists>r. move s r")
    case True
    then obtain r where r: "move s r" by blast
    from less.hyps [OF move_left [OF less.prems r] move_inv [OF less.prems r]] obtain n s' where
      "(move ^^ n) r s'" "inv s'" "\<not> (\<exists>s''. move s' s'')" by blast
    with relpowp_Suc_I2 [of move s r n s', OF r] show ?thesis by blast
  next
    case False
    with less.prems show ?thesis by (intro exI [of _ 0] exI [of _ s]) simp
  qed
qed

end

section \<open>Sums over threads\<close>

text \<open>How a sum over the threads changes when one thread changes its state.\<close>

lemma sum_fun_upd:
  fixes g :: "'b \<Rightarrow> int"
  assumes "finite T" "t \<in> T"
  shows "(\<Sum>x\<in>T. g ((f(t := p)) x)) = (\<Sum>x\<in>T. g (f x)) - g (f t) + g p"
proof -
  have "(\<Sum>x\<in>T. g ((f(t := p)) x)) = g p + (\<Sum>x\<in>T - {t}. g ((f(t := p)) x))"
    using assms by (simp add: sum.remove)
  also have "(\<Sum>x\<in>T - {t}. g ((f(t := p)) x)) = (\<Sum>x\<in>T - {t}. g (f x))"
    by (rule sum.cong) auto
  also have "(\<Sum>x\<in>T - {t}. g (f x)) = (\<Sum>x\<in>T. g (f x)) - g (f t)"
    using assms by (simp add: sum_diff1)
  finally show ?thesis by simp
qed

lemma sum_fun_upd_less:
  fixes g :: "'b \<Rightarrow> nat"
  assumes "finite T" "t \<in> T" "g p < g (f t)"
  shows "(\<Sum>x\<in>T. g ((f(t := p)) x)) < (\<Sum>x\<in>T. g (f x))"
  using assms by (intro sum_strict_mono_ex1) auto

end
