(* ===== verification/Thread_Usage.thy ===== *)
theory Thread_Usage
  imports Ult_Prelude
begin

unbundle bit_operations_syntax

text \<open>
  \<open>src/src/thread_usage.h\<close>: the process-wide flag \<open>uses_threads\<close> and the integer
  operations that are atomic when it is set and plain C arithmetic when it is not. The
  atomic primitives themselves come from another library and are a parameter of the model
  (\<open>atomic_lib\<close>); \<open>atomic_lib_ok\<close> states what C11 documents of them. The theorems show
  that both modes compute the same values, except that the plain mode is undefined
  exactly where a signed sum or difference overflows.
\<close>

section \<open>The usage flag\<close>

definition using_threads :: "bool \<Rightarrow> bool" where
  "using_threads uses_threads = uses_threads"

text \<open>The new value of the flag and the value returned.\<close>

definition set_using_threads :: "bool \<Rightarrow> bool \<Rightarrow> bool \<times> bool" where
  "set_using_threads have uses_threads =
     (let uses_threads' = have in (uses_threads', using_threads uses_threads'))"

section \<open>The atomic primitives used\<close>

text \<open>
  One field per primitive. An operation takes the content of the cell and its operand and
  gives the new content and the value returned; a compare-and-exchange takes the content,
  the content of \<open>*compare\<close> and the new value, and gives the new contents of both and the
  value returned.
\<close>

record 'w atomic_lib =
  atomic_add_fetch :: "'w \<Rightarrow> 'w \<Rightarrow> 'w \<times> 'w"
  atomic_fetch_add :: "'w \<Rightarrow> 'w \<Rightarrow> 'w \<times> 'w"
  atomic_and_fetch :: "'w \<Rightarrow> 'w \<Rightarrow> 'w \<times> 'w"
  atomic_fetch_and :: "'w \<Rightarrow> 'w \<Rightarrow> 'w \<times> 'w"
  atomic_or_fetch :: "'w \<Rightarrow> 'w \<Rightarrow> 'w \<times> 'w"
  atomic_fetch_or :: "'w \<Rightarrow> 'w \<Rightarrow> 'w \<times> 'w"
  atomic_xor_fetch :: "'w \<Rightarrow> 'w \<Rightarrow> 'w \<times> 'w"
  atomic_fetch_xor :: "'w \<Rightarrow> 'w \<Rightarrow> 'w \<times> 'w"
  atomic_sub_fetch :: "'w \<Rightarrow> 'w \<Rightarrow> 'w \<times> 'w"
  atomic_fetch_sub :: "'w \<Rightarrow> 'w \<Rightarrow> 'w \<times> 'w"
  atomic_compare_exchange_strong :: "'w \<Rightarrow> 'w \<Rightarrow> 'w \<Rightarrow> 'w \<times> 'w \<times> bool"
  atomic_swap :: "'w \<Rightarrow> 'w \<Rightarrow> 'w \<times> 'w"

definition op_fetch_ok :: "('w \<Rightarrow> 'w \<Rightarrow> 'w) \<Rightarrow> ('w \<Rightarrow> 'w \<Rightarrow> 'w \<times> 'w) \<Rightarrow> bool" where
  "op_fetch_ok f at \<longleftrightarrow> (\<forall>a d. at a d = (f a d, f a d))"

definition fetch_op_ok :: "('w \<Rightarrow> 'w \<Rightarrow> 'w) \<Rightarrow> ('w \<Rightarrow> 'w \<Rightarrow> 'w \<times> 'w) \<Rightarrow> bool" where
  "fetch_op_ok f at \<longleftrightarrow> (\<forall>a d. at a d = (f a d, a))"

definition atomic_lib_ok :: "'w::len word atomic_lib \<Rightarrow> bool" where
  "atomic_lib_ok L \<longleftrightarrow>
     op_fetch_ok (+) (atomic_add_fetch L) \<and> fetch_op_ok (+) (atomic_fetch_add L) \<and>
     op_fetch_ok (AND) (atomic_and_fetch L) \<and> fetch_op_ok (AND) (atomic_fetch_and L) \<and>
     op_fetch_ok (OR) (atomic_or_fetch L) \<and> fetch_op_ok (OR) (atomic_fetch_or L) \<and>
     op_fetch_ok (XOR) (atomic_xor_fetch L) \<and> fetch_op_ok (XOR) (atomic_fetch_xor L) \<and>
     op_fetch_ok (-) (atomic_sub_fetch L) \<and> fetch_op_ok (-) (atomic_fetch_sub L) \<and>
     (\<forall>a c v. atomic_compare_exchange_strong L a c v =
        (if a = c then (v, c, True) else (a, a, False))) \<and>
     (\<forall>a v. atomic_swap L a v = (v, a))"

text \<open>A library with the documented behaviour, so that the assumption can be met.\<close>

definition ref_atomics :: "'w::len word atomic_lib" where
  "ref_atomics = \<lparr>
     atomic_add_fetch = (\<lambda>a d. (a + d, a + d)), atomic_fetch_add = (\<lambda>a d. (a + d, a)),
     atomic_and_fetch = (\<lambda>a d. (a AND d, a AND d)), atomic_fetch_and = (\<lambda>a d. (a AND d, a)),
     atomic_or_fetch = (\<lambda>a d. (a OR d, a OR d)), atomic_fetch_or = (\<lambda>a d. (a OR d, a)),
     atomic_xor_fetch = (\<lambda>a d. (a XOR d, a XOR d)), atomic_fetch_xor = (\<lambda>a d. (a XOR d, a)),
     atomic_sub_fetch = (\<lambda>a d. (a - d, a - d)), atomic_fetch_sub = (\<lambda>a d. (a - d, a)),
     atomic_compare_exchange_strong = (\<lambda>a c v. if a = c then (v, c, True) else (a, a, False)),
     atomic_swap = (\<lambda>a v. (v, a))\<rparr>"

section \<open>The macros that define the operations\<close>

text \<open>
  \<open>THREAD_DEFINE_ATOMIC_OP\<close> defines two functions per operator: one returns the new
  value, the other the old one. The operator is an argument, since its C meaning depends
  on the type (signed or unsigned).
\<close>

definition thread_op_fetch ::
  "bool \<Rightarrow> ('w \<Rightarrow> 'w \<Rightarrow> 'w \<times> 'w) \<Rightarrow> ('w \<Rightarrow> 'w \<Rightarrow> 'w outcome) \<Rightarrow> 'w \<Rightarrow> 'w \<Rightarrow> ('w \<times> 'w) outcome" where
  "thread_op_fetch u at op a delta =
     (if using_threads u then Ret (at a delta)
      else obind (op a delta) (\<lambda>a'. Ret (a', a')))"

definition thread_fetch_op ::
  "bool \<Rightarrow> ('w \<Rightarrow> 'w \<Rightarrow> 'w \<times> 'w) \<Rightarrow> ('w \<Rightarrow> 'w \<Rightarrow> 'w outcome) \<Rightarrow> 'w \<Rightarrow> 'w \<Rightarrow> ('w \<times> 'w) outcome" where
  "thread_fetch_op u at op a delta =
     (if using_threads u then Ret (at a delta)
      else (let old = a in obind (op old delta) (\<lambda>a'. Ret (a', old))))"

text \<open>\<open>THREAD_DEFINE_ATOMIC_COMPARE_EXCHANGE\<close> and \<open>THREAD_DEFINE_ATOMIC_SWAP\<close>.\<close>

definition thread_compare_exchange_strong ::
  "bool \<Rightarrow> 'w atomic_lib \<Rightarrow> 'w \<Rightarrow> 'w \<Rightarrow> 'w \<Rightarrow> 'w \<times> 'w \<times> bool" where
  "thread_compare_exchange_strong u L a compare value =
     (if using_threads u then atomic_compare_exchange_strong L a compare value
      else if a = compare then (value, compare, True)
      else (a, a, False))"

definition thread_swap :: "bool \<Rightarrow> 'w atomic_lib \<Rightarrow> 'w \<Rightarrow> 'w \<Rightarrow> 'w \<times> 'w" where
  "thread_swap u L p newvalue =
     (if using_threads u then atomic_swap L p newvalue
      else (let old = p in (newvalue, old)))"

section \<open>Their instances\<close>

text \<open>\<open>int32_t\<close>: addition and subtraction are signed.\<close>

definition thread_add_fetch_32 :: "bool \<Rightarrow> i32 atomic_lib \<Rightarrow> i32 \<Rightarrow> i32 \<Rightarrow> (i32 \<times> i32) outcome" where
  "thread_add_fetch_32 u L = thread_op_fetch u (atomic_add_fetch L) c_sadd"

definition thread_fetch_add_32 :: "bool \<Rightarrow> i32 atomic_lib \<Rightarrow> i32 \<Rightarrow> i32 \<Rightarrow> (i32 \<times> i32) outcome" where
  "thread_fetch_add_32 u L = thread_fetch_op u (atomic_fetch_add L) c_sadd"

definition thread_and_fetch_32 :: "bool \<Rightarrow> i32 atomic_lib \<Rightarrow> i32 \<Rightarrow> i32 \<Rightarrow> (i32 \<times> i32) outcome" where
  "thread_and_fetch_32 u L = thread_op_fetch u (atomic_and_fetch L) (\<lambda>a d. Ret (a AND d))"

definition thread_fetch_and_32 :: "bool \<Rightarrow> i32 atomic_lib \<Rightarrow> i32 \<Rightarrow> i32 \<Rightarrow> (i32 \<times> i32) outcome" where
  "thread_fetch_and_32 u L = thread_fetch_op u (atomic_fetch_and L) (\<lambda>a d. Ret (a AND d))"

definition thread_or_fetch_32 :: "bool \<Rightarrow> i32 atomic_lib \<Rightarrow> i32 \<Rightarrow> i32 \<Rightarrow> (i32 \<times> i32) outcome" where
  "thread_or_fetch_32 u L = thread_op_fetch u (atomic_or_fetch L) (\<lambda>a d. Ret (a OR d))"

definition thread_fetch_or_32 :: "bool \<Rightarrow> i32 atomic_lib \<Rightarrow> i32 \<Rightarrow> i32 \<Rightarrow> (i32 \<times> i32) outcome" where
  "thread_fetch_or_32 u L = thread_fetch_op u (atomic_fetch_or L) (\<lambda>a d. Ret (a OR d))"

definition thread_xor_fetch_32 :: "bool \<Rightarrow> i32 atomic_lib \<Rightarrow> i32 \<Rightarrow> i32 \<Rightarrow> (i32 \<times> i32) outcome" where
  "thread_xor_fetch_32 u L = thread_op_fetch u (atomic_xor_fetch L) (\<lambda>a d. Ret (a XOR d))"

definition thread_fetch_xor_32 :: "bool \<Rightarrow> i32 atomic_lib \<Rightarrow> i32 \<Rightarrow> i32 \<Rightarrow> (i32 \<times> i32) outcome" where
  "thread_fetch_xor_32 u L = thread_fetch_op u (atomic_fetch_xor L) (\<lambda>a d. Ret (a XOR d))"

definition thread_sub_fetch_32 :: "bool \<Rightarrow> i32 atomic_lib \<Rightarrow> i32 \<Rightarrow> i32 \<Rightarrow> (i32 \<times> i32) outcome" where
  "thread_sub_fetch_32 u L = thread_op_fetch u (atomic_sub_fetch L) c_ssub"

definition thread_fetch_sub_32 :: "bool \<Rightarrow> i32 atomic_lib \<Rightarrow> i32 \<Rightarrow> i32 \<Rightarrow> (i32 \<times> i32) outcome" where
  "thread_fetch_sub_32 u L = thread_fetch_op u (atomic_fetch_sub L) c_ssub"

text \<open>\<open>int64_t\<close>: the same operators, at width 64.\<close>

definition thread_add_fetch_64 :: "bool \<Rightarrow> i64 atomic_lib \<Rightarrow> i64 \<Rightarrow> i64 \<Rightarrow> (i64 \<times> i64) outcome" where
  "thread_add_fetch_64 u L = thread_op_fetch u (atomic_add_fetch L) c_sadd"

definition thread_fetch_add_64 :: "bool \<Rightarrow> i64 atomic_lib \<Rightarrow> i64 \<Rightarrow> i64 \<Rightarrow> (i64 \<times> i64) outcome" where
  "thread_fetch_add_64 u L = thread_fetch_op u (atomic_fetch_add L) c_sadd"

definition thread_and_fetch_64 :: "bool \<Rightarrow> i64 atomic_lib \<Rightarrow> i64 \<Rightarrow> i64 \<Rightarrow> (i64 \<times> i64) outcome" where
  "thread_and_fetch_64 u L = thread_op_fetch u (atomic_and_fetch L) (\<lambda>a d. Ret (a AND d))"

definition thread_fetch_and_64 :: "bool \<Rightarrow> i64 atomic_lib \<Rightarrow> i64 \<Rightarrow> i64 \<Rightarrow> (i64 \<times> i64) outcome" where
  "thread_fetch_and_64 u L = thread_fetch_op u (atomic_fetch_and L) (\<lambda>a d. Ret (a AND d))"

definition thread_or_fetch_64 :: "bool \<Rightarrow> i64 atomic_lib \<Rightarrow> i64 \<Rightarrow> i64 \<Rightarrow> (i64 \<times> i64) outcome" where
  "thread_or_fetch_64 u L = thread_op_fetch u (atomic_or_fetch L) (\<lambda>a d. Ret (a OR d))"

definition thread_fetch_or_64 :: "bool \<Rightarrow> i64 atomic_lib \<Rightarrow> i64 \<Rightarrow> i64 \<Rightarrow> (i64 \<times> i64) outcome" where
  "thread_fetch_or_64 u L = thread_fetch_op u (atomic_fetch_or L) (\<lambda>a d. Ret (a OR d))"

definition thread_xor_fetch_64 :: "bool \<Rightarrow> i64 atomic_lib \<Rightarrow> i64 \<Rightarrow> i64 \<Rightarrow> (i64 \<times> i64) outcome" where
  "thread_xor_fetch_64 u L = thread_op_fetch u (atomic_xor_fetch L) (\<lambda>a d. Ret (a XOR d))"

definition thread_fetch_xor_64 :: "bool \<Rightarrow> i64 atomic_lib \<Rightarrow> i64 \<Rightarrow> i64 \<Rightarrow> (i64 \<times> i64) outcome" where
  "thread_fetch_xor_64 u L = thread_fetch_op u (atomic_fetch_xor L) (\<lambda>a d. Ret (a XOR d))"

definition thread_sub_fetch_64 :: "bool \<Rightarrow> i64 atomic_lib \<Rightarrow> i64 \<Rightarrow> i64 \<Rightarrow> (i64 \<times> i64) outcome" where
  "thread_sub_fetch_64 u L = thread_op_fetch u (atomic_sub_fetch L) c_ssub"

definition thread_fetch_sub_64 :: "bool \<Rightarrow> i64 atomic_lib \<Rightarrow> i64 \<Rightarrow> i64 \<Rightarrow> (i64 \<times> i64) outcome" where
  "thread_fetch_sub_64 u L = thread_fetch_op u (atomic_fetch_sub L) c_ssub"

text \<open>\<open>size_t\<close> is unsigned, of the width \<open>'w\<close> of the platform: the operators wrap around.\<close>

definition thread_add_fetch_size_t ::
  "bool \<Rightarrow> 'w::len word atomic_lib \<Rightarrow> 'w word \<Rightarrow> 'w word \<Rightarrow> ('w word \<times> 'w word) outcome" where
  "thread_add_fetch_size_t u L = thread_op_fetch u (atomic_add_fetch L) (\<lambda>a d. Ret (a + d))"

definition thread_fetch_add_size_t ::
  "bool \<Rightarrow> 'w::len word atomic_lib \<Rightarrow> 'w word \<Rightarrow> 'w word \<Rightarrow> ('w word \<times> 'w word) outcome" where
  "thread_fetch_add_size_t u L = thread_fetch_op u (atomic_fetch_add L) (\<lambda>a d. Ret (a + d))"

definition thread_sub_fetch_size_t ::
  "bool \<Rightarrow> 'w::len word atomic_lib \<Rightarrow> 'w word \<Rightarrow> 'w word \<Rightarrow> ('w word \<times> 'w word) outcome" where
  "thread_sub_fetch_size_t u L = thread_op_fetch u (atomic_sub_fetch L) (\<lambda>a d. Ret (a - d))"

definition thread_fetch_sub_size_t ::
  "bool \<Rightarrow> 'w::len word atomic_lib \<Rightarrow> 'w word \<Rightarrow> 'w word \<Rightarrow> ('w word \<times> 'w word) outcome" where
  "thread_fetch_sub_size_t u L = thread_fetch_op u (atomic_fetch_sub L) (\<lambda>a d. Ret (a - d))"

text \<open>Compare-and-exchange and swap, for \<open>int32_t\<close>, \<open>int64_t\<close> and \<open>intptr_t\<close>.\<close>

definition thread_compare_exchange_strong_32 :: "bool \<Rightarrow> i32 atomic_lib \<Rightarrow> i32 \<Rightarrow> i32 \<Rightarrow> i32 \<Rightarrow> i32 \<times> i32 \<times> bool" where
  "thread_compare_exchange_strong_32 = thread_compare_exchange_strong"

definition thread_compare_exchange_strong_64 :: "bool \<Rightarrow> i64 atomic_lib \<Rightarrow> i64 \<Rightarrow> i64 \<Rightarrow> i64 \<Rightarrow> i64 \<times> i64 \<times> bool" where
  "thread_compare_exchange_strong_64 = thread_compare_exchange_strong"

definition thread_compare_exchange_strong_ptr ::
  "bool \<Rightarrow> 'w::len word atomic_lib \<Rightarrow> 'w word \<Rightarrow> 'w word \<Rightarrow> 'w word \<Rightarrow> 'w word \<times> 'w word \<times> bool" where
  "thread_compare_exchange_strong_ptr = thread_compare_exchange_strong"

definition thread_swap_32 :: "bool \<Rightarrow> i32 atomic_lib \<Rightarrow> i32 \<Rightarrow> i32 \<Rightarrow> i32 \<times> i32" where
  "thread_swap_32 = thread_swap"

definition thread_swap_64 :: "bool \<Rightarrow> i64 atomic_lib \<Rightarrow> i64 \<Rightarrow> i64 \<Rightarrow> i64 \<times> i64" where
  "thread_swap_64 = thread_swap"

definition thread_swap_ptr :: "bool \<Rightarrow> 'w::len word atomic_lib \<Rightarrow> 'w word \<Rightarrow> 'w word \<Rightarrow> 'w word \<times> 'w word" where
  "thread_swap_ptr = thread_swap"

lemmas thread_op_defs [ult_defs] =
  thread_add_fetch_32_def thread_fetch_add_32_def thread_and_fetch_32_def thread_fetch_and_32_def
  thread_or_fetch_32_def thread_fetch_or_32_def thread_xor_fetch_32_def thread_fetch_xor_32_def
  thread_sub_fetch_32_def thread_fetch_sub_32_def
  thread_add_fetch_64_def thread_fetch_add_64_def thread_and_fetch_64_def thread_fetch_and_64_def
  thread_or_fetch_64_def thread_fetch_or_64_def thread_xor_fetch_64_def thread_fetch_xor_64_def
  thread_sub_fetch_64_def thread_fetch_sub_64_def
  thread_add_fetch_size_t_def thread_fetch_add_size_t_def
  thread_sub_fetch_size_t_def thread_fetch_sub_size_t_def

lemmas thread_macro_defs = thread_op_fetch_def thread_fetch_op_def using_threads_def

lemmas atomic_ok_defs = atomic_lib_ok_def op_fetch_ok_def fetch_op_ok_def

section \<open>The contract of a pair of operations\<close>

text \<open>
  Every use of \<open>THREAD_DEFINE_ATOMIC_OP\<close> defines a pair of functions with one contract:
  \<open>f\<close> is the operator on words, \<open>op\<close> its C meaning, which may be undefined. What
  follows from the contract is proved once, for every pair the header defines.
\<close>

locale atomic_pair =
  fixes opf fop :: "bool \<Rightarrow> 'w::len word atomic_lib \<Rightarrow> 'w word \<Rightarrow> 'w word \<Rightarrow> ('w word \<times> 'w word) outcome"
    and op :: "'w word \<Rightarrow> 'w word \<Rightarrow> 'w word outcome"
    and f :: "'w word \<Rightarrow> 'w word \<Rightarrow> 'w word"
    and fok :: "'w word \<Rightarrow> 'w word \<Rightarrow> bool"
  assumes opf_threads: "atomic_lib_ok L \<Longrightarrow> opf True L a d = Ret (f a d, f a d)"
    and fop_threads: "atomic_lib_ok L \<Longrightarrow> fop True L a d = Ret (f a d, a)"
    and opf_plain: "opf False L a d = obind (op a d) (\<lambda>a'. Ret (a', a'))"
    and fop_plain: "fop False L a d = obind (op a d) (\<lambda>a'. Ret (a', a))"
    and op_value: "op a d = (if fok a d then Ret (f a d) else UB)"
begin

lemma op_fetch_value: "atomic_lib_ok L \<Longrightarrow> fok a d \<Longrightarrow> opf u L a d = Ret (f a d, f a d)"
  by (cases u) (simp_all add: opf_threads opf_plain op_value)

lemma fetch_op_value: "atomic_lib_ok L \<Longrightarrow> fok a d \<Longrightarrow> fop u L a d = Ret (f a d, a)"
  by (cases u) (simp_all add: fop_threads fop_plain op_value)

lemma op_fetch_outcome: "atomic_lib_ok L \<Longrightarrow> opf u L a d = (if u \<or> fok a d then Ret (f a d, f a d) else UB)"
  by (cases u) (simp_all add: opf_threads opf_plain op_value)

lemma fetch_op_outcome: "atomic_lib_ok L \<Longrightarrow> fop u L a d = (if u \<or> fok a d then Ret (f a d, a) else UB)"
  by (cases u) (simp_all add: fop_threads fop_plain op_value)

lemma plain_undefined: "opf False L a d = UB \<longleftrightarrow> \<not> fok a d"
  by (simp add: opf_plain op_value)

lemma plain_undefined_fetch: "fop False L a d = UB \<longleftrightarrow> \<not> fok a d"
  by (simp add: fop_plain op_value)

lemma modes_agree:
  assumes "atomic_lib_ok L" "fok a d"
  shows "opf True L a d = opf False L a d" and "fop True L a d = fop False L a d"
  using assms by (simp_all add: op_fetch_value fetch_op_value)

end

interpretation add32: atomic_pair thread_add_fetch_32 thread_fetch_add_32 "c_sadd" "(+)" "\<lambda>a d. fits TYPE(32) (sint a + sint d)"
  by unfold_locales
    (simp_all add: thread_op_defs thread_macro_defs atomic_ok_defs c_sadd_def c_ssub_def)

interpretation sub32: atomic_pair thread_sub_fetch_32 thread_fetch_sub_32 "c_ssub" "(-)" "\<lambda>a d. fits TYPE(32) (sint a - sint d)"
  by unfold_locales
    (simp_all add: thread_op_defs thread_macro_defs atomic_ok_defs c_sadd_def c_ssub_def)

interpretation and32: atomic_pair thread_and_fetch_32 thread_fetch_and_32 "\<lambda>a d. Ret (a AND d)" "(AND)" "\<lambda>_ _. True"
  by unfold_locales
    (simp_all add: thread_op_defs thread_macro_defs atomic_ok_defs c_sadd_def c_ssub_def)

interpretation or32: atomic_pair thread_or_fetch_32 thread_fetch_or_32 "\<lambda>a d. Ret (a OR d)" "(OR)" "\<lambda>_ _. True"
  by unfold_locales
    (simp_all add: thread_op_defs thread_macro_defs atomic_ok_defs c_sadd_def c_ssub_def)

interpretation xor32: atomic_pair thread_xor_fetch_32 thread_fetch_xor_32 "\<lambda>a d. Ret (a XOR d)" "(XOR)" "\<lambda>_ _. True"
  by unfold_locales
    (simp_all add: thread_op_defs thread_macro_defs atomic_ok_defs c_sadd_def c_ssub_def)

interpretation add64: atomic_pair thread_add_fetch_64 thread_fetch_add_64 "c_sadd" "(+)" "\<lambda>a d. fits TYPE(64) (sint a + sint d)"
  by unfold_locales
    (simp_all add: thread_op_defs thread_macro_defs atomic_ok_defs c_sadd_def c_ssub_def)

interpretation sub64: atomic_pair thread_sub_fetch_64 thread_fetch_sub_64 "c_ssub" "(-)" "\<lambda>a d. fits TYPE(64) (sint a - sint d)"
  by unfold_locales
    (simp_all add: thread_op_defs thread_macro_defs atomic_ok_defs c_sadd_def c_ssub_def)

interpretation and64: atomic_pair thread_and_fetch_64 thread_fetch_and_64 "\<lambda>a d. Ret (a AND d)" "(AND)" "\<lambda>_ _. True"
  by unfold_locales
    (simp_all add: thread_op_defs thread_macro_defs atomic_ok_defs c_sadd_def c_ssub_def)

interpretation or64: atomic_pair thread_or_fetch_64 thread_fetch_or_64 "\<lambda>a d. Ret (a OR d)" "(OR)" "\<lambda>_ _. True"
  by unfold_locales
    (simp_all add: thread_op_defs thread_macro_defs atomic_ok_defs c_sadd_def c_ssub_def)

interpretation xor64: atomic_pair thread_xor_fetch_64 thread_fetch_xor_64 "\<lambda>a d. Ret (a XOR d)" "(XOR)" "\<lambda>_ _. True"
  by unfold_locales
    (simp_all add: thread_op_defs thread_macro_defs atomic_ok_defs c_sadd_def c_ssub_def)

interpretation addsz: atomic_pair thread_add_fetch_size_t thread_fetch_add_size_t "\<lambda>a d. Ret (a + d)" "(+)" "\<lambda>_ _. True"
  by unfold_locales
    (simp_all add: thread_op_defs thread_macro_defs atomic_ok_defs c_sadd_def c_ssub_def)

interpretation subsz: atomic_pair thread_sub_fetch_size_t thread_fetch_sub_size_t "\<lambda>a d. Ret (a - d)" "(-)" "\<lambda>_ _. True"
  by unfold_locales
    (simp_all add: thread_op_defs thread_macro_defs atomic_ok_defs c_sadd_def c_ssub_def)


section \<open>Properties\<close>

lemma sint_wraps:
  fixes a b :: i32
  shows "sint (a + b) = signed_take_bit 31 (sint a + sint b)" "sint (a - b) = signed_take_bit 31 (sint a - sint b)"
proof -
  have "sint (word_of_int k :: i32) = signed_take_bit 31 k" for k by (simp add: sint_uint unsigned_of_int signed_take_bit_take_bit)
  from this [of "sint a + sint b"] this [of "sint a - sint b"]
  show "sint (a + b) = signed_take_bit 31 (sint a + sint b)" "sint (a - b) = signed_take_bit 31 (sint a - sint b)" by simp_all
qed

lemma compare_exchange_value:
  "atomic_lib_ok L \<Longrightarrow> thread_compare_exchange_strong u L a c v = (if a = c then (v, c, True) else (a, a, False))"
  by (simp add: thread_compare_exchange_strong_def atomic_lib_ok_def)

lemma swap_value: "atomic_lib_ok L \<Longrightarrow> thread_swap u L a v = (v, a)"
  by (simp add: thread_swap_def atomic_lib_ok_def Let_def)

lemma ref_atomics_ok: "atomic_lib_ok ref_atomics"
  by (simp add: ref_atomics_def atomic_ok_defs)

text \<open>
  C40. The 32-bit operations in both modes. Addition and subtraction store the mathematical
  result where it fits \<open>int32_t\<close>; where it does not, the atomic mode stores it reduced modulo
  \<open>2 ^ 32\<close> and the plain mode is undefined. The \<open>_fetch\<close> forms return the new value and the
  \<open>fetch_\<close> forms the old one. A compare-and-exchange stores the new value exactly when the
  cell holds the expected one, and otherwise reports what the cell holds; a swap returns what
  it replaces.
\<close>

theorem atomic_ops_32_correct:
  assumes "atomic_lib_ok L"
  shows "(if u \<or> fits TYPE(32) (sint a + sint d)
      then \<exists>b. thread_add_fetch_32 u L a d = Ret (b, b) \<and> thread_fetch_add_32 u L a d = Ret (b, a) \<and>
        sint b = signed_take_bit 31 (sint a + sint d) \<and> (fits TYPE(32) (sint a + sint d) \<longrightarrow> sint b = sint a + sint d)
      else thread_add_fetch_32 u L a d = UB \<and> thread_fetch_add_32 u L a d = UB) \<and>
    (if u \<or> fits TYPE(32) (sint a - sint d)
      then \<exists>b. thread_sub_fetch_32 u L a d = Ret (b, b) \<and> thread_fetch_sub_32 u L a d = Ret (b, a) \<and>
        sint b = signed_take_bit 31 (sint a - sint d) \<and> (fits TYPE(32) (sint a - sint d) \<longrightarrow> sint b = sint a - sint d)
      else thread_sub_fetch_32 u L a d = UB \<and> thread_fetch_sub_32 u L a d = UB) \<and>
    thread_compare_exchange_strong_32 u L a c v = (if a = c then (v, c, True) else (a, a, False)) \<and>
    thread_swap_32 u L a v = (v, a)"
proof (intro conjI)
  show "if u \<or> fits TYPE(32) (sint a + sint d)
      then \<exists>b. thread_add_fetch_32 u L a d = Ret (b, b) \<and> thread_fetch_add_32 u L a d = Ret (b, a) \<and>
        sint b = signed_take_bit 31 (sint a + sint d) \<and> (fits TYPE(32) (sint a + sint d) \<longrightarrow> sint b = sint a + sint d)
      else thread_add_fetch_32 u L a d = UB \<and> thread_fetch_add_32 u L a d = UB"
    using sint_add_fits [of a d]
    by (simp add: add32.op_fetch_outcome [OF assms] add32.fetch_op_outcome [OF assms] sint_wraps)
  show "if u \<or> fits TYPE(32) (sint a - sint d)
      then \<exists>b. thread_sub_fetch_32 u L a d = Ret (b, b) \<and> thread_fetch_sub_32 u L a d = Ret (b, a) \<and>
        sint b = signed_take_bit 31 (sint a - sint d) \<and> (fits TYPE(32) (sint a - sint d) \<longrightarrow> sint b = sint a - sint d)
      else thread_sub_fetch_32 u L a d = UB \<and> thread_fetch_sub_32 u L a d = UB"
    using sint_diff_fits [of a d]
    by (simp add: sub32.op_fetch_outcome [OF assms] sub32.fetch_op_outcome [OF assms] sint_wraps)
qed (simp_all add: thread_compare_exchange_strong_32_def thread_swap_32_def compare_exchange_value [OF assms] swap_value [OF assms])

theorem atomic_ops_32_correct_witness:
  "(\<exists>b. thread_add_fetch_32 True ref_atomics 0x7FFFFFFF 1 = Ret (b, b) \<and> sint b = - 0x80000000) \<and>
   thread_add_fetch_32 False ref_atomics 0x7FFFFFFF 1 = UB"
  using atomic_ops_32_correct [OF ref_atomics_ok, of True "0x7FFFFFFF" 1 0 0]
    atomic_ops_32_correct [OF ref_atomics_ok, of False "0x7FFFFFFF" 1 0 0]
  by (auto simp: fits_def signed_take_bit_eq_take_bit_shift)

end
