(* ===== verification/Sync_Spec.thy ===== *)
theory Sync_Spec
  imports Ult_Prelude
begin

text \<open>
  What the three backends promise: an abstract mutex and an abstract condition variable.
  The clients of the backends are modelled over these, and the theory of each backend shows
  that its \<open>thread_internal_mutex_*\<close> and \<open>thread_internal_cond_*\<close> functions implement them.
\<close>

section \<open>Mutexes\<close>

text \<open>
  A mutex is live between its initialisation and its destruction. Using it outside that
  span, unlocking it without owning it and destroying it while it is held are undefined.
  A thread that locks a plain mutex it already holds waits forever; a recursive mutex
  counts its owner's acquisitions, up to a limit that depends on the library, and what
  happens beyond the limit is not promised.
\<close>

record amutex =
  mx_live :: bool
  mx_recursive :: bool
  mx_owner :: "tid option"
  mx_depth :: nat
  mx_limit :: nat

definition amutex_init :: "bool \<Rightarrow> amutex" where
  "amutex_init recursive =
     \<lparr>mx_live = True, mx_recursive = recursive, mx_owner = None, mx_depth = 0, mx_limit = 1\<rparr>"

text \<open>A fresh mutex; a recursive one can be acquired at least once.\<close>

definition fresh_mutex :: "bool \<Rightarrow> amutex \<Rightarrow> bool" where
  "fresh_mutex recursive m \<longleftrightarrow> m = (amutex_init recursive)\<lparr>mx_limit := mx_limit m\<rparr> \<and>
     (if recursive then 1 \<le> mx_limit m else mx_limit m = 1)"

text \<open>A fresh mutex with a limit of four, for the libraries the witnesses run on.\<close>

definition ref_mutex :: "bool \<Rightarrow> amutex" where
  "ref_mutex recursive = (amutex_init recursive)\<lparr>mx_limit := if recursive then 4 else 1\<rparr>"

text \<open>The owner has acquired a recursive mutex as often as the library allows.\<close>

definition at_limit :: "tid \<Rightarrow> amutex \<Rightarrow> bool" where
  "at_limit t m \<longleftrightarrow> mx_live m \<and> mx_recursive m \<and> mx_owner m = Some t \<and> mx_limit m \<le> mx_depth m"

definition amutex_lock :: "tid \<Rightarrow> amutex \<Rightarrow> amutex outcome" where
  "amutex_lock t m =
     (if \<not> mx_live m then UB
      else case mx_owner m of
        None \<Rightarrow> Ret (m\<lparr>mx_owner := Some t, mx_depth := 1\<rparr>)
      | Some u \<Rightarrow> if u = t \<and> mx_recursive m
                 then if at_limit t m then UB else Ret (m\<lparr>mx_depth := Suc (mx_depth m)\<rparr>)
                 else Block)"

definition amutex_trylock :: "tid \<Rightarrow> amutex \<Rightarrow> (bool \<times> amutex) outcome" where
  "amutex_trylock t m =
     (case amutex_lock t m of Ret m' \<Rightarrow> Ret (True, m') | Block \<Rightarrow> Ret (False, m)
      | AssertFail \<Rightarrow> AssertFail | UB \<Rightarrow> UB)"

definition amutex_unlock :: "tid \<Rightarrow> amutex \<Rightarrow> amutex outcome" where
  "amutex_unlock t m =
     (if \<not> mx_live m \<or> mx_owner m \<noteq> Some t then UB
      else if mx_depth m \<le> 1 then Ret (m\<lparr>mx_owner := None, mx_depth := 0\<rparr>)
      else Ret (m\<lparr>mx_depth := mx_depth m - 1\<rparr>))"

definition amutex_destroy :: "amutex \<Rightarrow> amutex outcome" where
  "amutex_destroy m =
     (if \<not> mx_live m \<or> mx_owner m \<noteq> None then UB else Ret (m\<lparr>mx_live := False\<rparr>))"

text \<open>A well-formed mutex: the depth counts the acquisitions of the owner.\<close>

definition amutex_wf :: "amutex \<Rightarrow> bool" where
  "amutex_wf m \<longleftrightarrow> (mx_owner m = None \<longleftrightarrow> mx_depth m = 0) \<and> (\<not> mx_recursive m \<longrightarrow> mx_depth m \<le> 1)"

section \<open>Condition variables\<close>

text \<open>
  A condition variable is the queue of the threads blocked on it. Waiting is two steps: the
  caller enqueues itself and releases the mutex, and once it is no longer in the queue it
  takes the mutex again. Signalling removes the thread that waited longest, broadcasting
  removes all.
\<close>

record acond =
  cv_live :: bool
  cv_waiters :: "tid list"

definition acond_init :: acond where
  "acond_init = \<lparr>cv_live = True, cv_waiters = []\<rparr>"

definition acond_block :: "tid \<Rightarrow> acond \<Rightarrow> acond outcome" where
  "acond_block t c = (if cv_live c then Ret (c\<lparr>cv_waiters := cv_waiters c @ [t]\<rparr>) else UB)"

definition acond_signal :: "acond \<Rightarrow> acond outcome" where
  "acond_signal c = (if cv_live c then Ret (c\<lparr>cv_waiters := tl (cv_waiters c)\<rparr>) else UB)"

definition acond_broadcast :: "acond \<Rightarrow> acond outcome" where
  "acond_broadcast c = (if cv_live c then Ret (c\<lparr>cv_waiters := []\<rparr>) else UB)"

definition acond_destroy :: "acond \<Rightarrow> acond outcome" where
  "acond_destroy c = (if cv_live c \<and> cv_waiters c = [] then Ret (c\<lparr>cv_live := False\<rparr>) else UB)"

definition acond_wait_begin :: "tid \<Rightarrow> acond \<Rightarrow> amutex \<Rightarrow> (acond \<times> amutex) outcome" where
  "acond_wait_begin t c m =
     obind (acond_block t c) (\<lambda>c'. obind (amutex_unlock t m) (\<lambda>m'. Ret (c', m')))"

definition acond_wait_end :: "tid \<Rightarrow> acond \<Rightarrow> amutex \<Rightarrow> amutex outcome" where
  "acond_wait_end t c m = (if t \<in> set (cv_waiters c) then Block else amutex_lock t m)"

section \<open>Facts about plain mutexes\<close>

text \<open>A live, non-recursive mutex is determined by its owner.\<close>

definition plain :: "amutex \<Rightarrow> bool" where
  "plain m \<longleftrightarrow> mx_live m \<and> \<not> mx_recursive m \<and> mx_depth m = (if mx_owner m = None then 0 else 1)"

lemma plain_init [simp]: "plain (amutex_init False)"
  by (simp add: plain_def amutex_init_def)

lemma fresh_plain [simp]: "fresh_mutex False m \<longleftrightarrow> m = amutex_init False"
  by (cases m) (auto simp: fresh_mutex_def amutex_init_def)

lemma fresh_init [simp]: "fresh_mutex r (amutex_init r)"
  by (simp add: fresh_mutex_def amutex_init_def)

lemma fresh_ref [simp]: "fresh_mutex r (ref_mutex r)" "ref_mutex False = amutex_init False"
  by (simp_all add: fresh_mutex_def ref_mutex_def amutex_init_def)

lemma init_owner [simp]: "mx_owner (amutex_init r) = None"
  by (simp add: amutex_init_def)

lemma amutex_lock_plain:
  "plain m \<Longrightarrow> amutex_lock t m =
     (if mx_owner m = None then Ret (m\<lparr>mx_owner := Some t, mx_depth := 1\<rparr>) else Block)"
  by (auto simp: amutex_lock_def plain_def split: option.splits)

lemma amutex_unlock_plain:
  "plain m \<Longrightarrow> amutex_unlock t m =
     (if mx_owner m = Some t then Ret (m\<lparr>mx_owner := None, mx_depth := 0\<rparr>) else UB)"
  by (auto simp: amutex_unlock_def plain_def)

lemma plain_locked [simp]: "plain m \<Longrightarrow> plain (m\<lparr>mx_owner := Some t, mx_depth := Suc 0\<rparr>)"
  by (simp add: plain_def)

lemma plain_unlocked [simp]: "plain m \<Longrightarrow> plain (m\<lparr>mx_owner := None, mx_depth := 0\<rparr>)"
  by (simp add: plain_def)

lemma plain_live: "plain m \<Longrightarrow> mx_live m"
  by (simp add: plain_def)

section \<open>Facts about all mutexes\<close>

lemma amutex_wf_init: "amutex_wf (amutex_init r)"
  by (simp add: amutex_wf_def amutex_init_def)

lemma amutex_wf_lock: "amutex_wf m \<Longrightarrow> amutex_lock t m = Ret m' \<Longrightarrow> amutex_wf m'"
  by (auto simp: amutex_wf_def amutex_lock_def split: option.splits if_splits)

lemma amutex_wf_unlock: "amutex_wf m \<Longrightarrow> amutex_unlock t m = Ret m' \<Longrightarrow> amutex_wf m'"
  by (auto simp: amutex_wf_def amutex_unlock_def split: if_splits)

lemma amutex_lock_at_limit: "at_limit t m \<Longrightarrow> amutex_lock t m = UB"
  by (auto simp: at_limit_def amutex_lock_def)

lemma amutex_lock_owner: "amutex_lock t m = Ret m' \<Longrightarrow> mx_owner m' = Some t"
  by (auto simp: amutex_lock_def split: option.splits if_splits)

lemma amutex_lock_excludes:
  "amutex_wf m \<Longrightarrow> mx_live m \<Longrightarrow> mx_owner m = Some u \<Longrightarrow> t \<noteq> u \<Longrightarrow> amutex_lock t m = Block"
  by (auto simp: amutex_lock_def)

lemma amutex_lock_unlock:
  assumes "amutex_wf m" "amutex_lock t m = Ret m'"
  shows "amutex_unlock t m' = Ret m"
  using assms by (cases m) (auto simp: amutex_wf_def amutex_lock_def amutex_unlock_def
      split: option.splits if_splits)

end
