(* ===== verification/Wait_List.thy ===== *)
theory Wait_List
  imports Sync_Spec Thread_Usage
begin

text \<open>
  The data of \<open>src/src/wait_sync.h\<close> and \<open>src/src/impl/base/wait_sync.c\<close>: the
  synchronisation objects in an explicit store, the globals, and the doubly linked ring of
  pending objects. The ring is shown to implement a first-in first-out list of objects:
  linking appends at the end, unlinking removes one object wherever it is, and the head
  pointer always designates the oldest one.
\<close>

section \<open>State\<close>

record ('c, 'm) ompi_wait_sync_t =
  w_count :: i32
  w_status :: i32
  w_condition :: 'c
  w_lock :: 'm
  w_next :: "addr option"
  w_prev :: "addr option"
  w_signaling :: bool

record ('c, 'm, 'g) wait_state =
  uses_threads :: bool
  sync_at :: "addr \<Rightarrow> ('c, 'm) ompi_wait_sync_t"
  threads_base_wait_sync_list :: "addr option"
  wait_sync_lock :: 'g
  num_thread_in_progress :: i32

text \<open>
  The types of a condition variable, of an object's lock and of \<open>wait_sync_lock\<close> belong to the
  backend. The theories on the wait list take the abstract ones of \<open>Sync_Spec\<close> until
  \<open>Wait_Backend\<close> puts the backends' in their place.
\<close>

type_synonym sync_obj = "(acond, amutex) ompi_wait_sync_t"
type_synonym 'x sync_state = "(acond, amutex, amutex, 'x) wait_state_scheme"
type_synonym base_state = "(acond, amutex, amutex) wait_state"

text \<open>A write to the object at an address.\<close>

definition upd_sync ::
  "addr \<Rightarrow> (('c, 'm) ompi_wait_sync_t \<Rightarrow> ('c, 'm) ompi_wait_sync_t) \<Rightarrow> ('c, 'm, 'g, 'x) wait_state_scheme \<Rightarrow> ('c, 'm, 'g, 'x) wait_state_scheme" where
  "upd_sync a f s = s\<lparr>sync_at := (sync_at s)(a := f (sync_at s a))\<rparr>"

section \<open>Linking and unlinking\<close>

text \<open>
  The two critical sections of \<open>ompi_sync_wait_mt\<close>, write by write, so that the cases in
  which two of the objects involved are the same are the ones the code has. A null
  pointer dereferenced is undefined.
\<close>

definition wait_list_insert :: "addr \<Rightarrow> ('c, 'm, 'g, 'x) wait_state_scheme \<Rightarrow> ('c, 'm, 'g, 'x) wait_state_scheme outcome" where
  "wait_list_insert sync s =
     (case threads_base_wait_sync_list s of
        None \<Rightarrow>
          (let s1 = upd_sync sync (\<lambda>w. w\<lparr>w_next := Some sync, w_prev := Some sync\<rparr>) s
           in Ret (s1\<lparr>threads_base_wait_sync_list := Some sync\<rparr>))
      | Some l \<Rightarrow>
          (let s1 = upd_sync sync (\<lambda>w. w\<lparr>w_prev := w_prev (sync_at s l)\<rparr>) s
           in case w_prev (sync_at s1 sync) of
                None \<Rightarrow> UB
              | Some p \<Rightarrow>
                  (let s2 = upd_sync p (\<lambda>w. w\<lparr>w_next := Some sync\<rparr>) s1;
                       s3 = upd_sync sync (\<lambda>w. w\<lparr>w_next := Some l\<rparr>) s2;
                       s4 = upd_sync l (\<lambda>w. w\<lparr>w_prev := Some sync\<rparr>) s3
                   in Ret s4)))"

text \<open>
  Unlinking returns, beside the new state, the object that became the head because the
  unlinked one was: the one ownership has to be passed to.
\<close>

definition wait_list_remove ::
  "addr \<Rightarrow> ('c, 'm, 'g, 'x) wait_state_scheme \<Rightarrow> (addr option \<times> ('c, 'm, 'g, 'x) wait_state_scheme) outcome" where
  "wait_list_remove sync s =
     (case w_prev (sync_at s sync) of
        None \<Rightarrow> UB
      | Some p \<Rightarrow>
          (let s1 = upd_sync p (\<lambda>w. w\<lparr>w_next := w_next (sync_at s sync)\<rparr>) s
           in case w_next (sync_at s1 sync) of
                None \<Rightarrow> UB
              | Some n \<Rightarrow>
                  (let s2 = upd_sync n (\<lambda>w. w\<lparr>w_prev := w_prev (sync_at s1 sync)\<rparr>) s1
                   in if Some sync = threads_base_wait_sync_list s2 then
                        (let new_head = (if Some sync = w_next (sync_at s2 sync) then None
                                         else w_next (sync_at s2 sync))
                         in Ret (new_head, s2\<lparr>threads_base_wait_sync_list := new_head\<rparr>))
                      else Ret (None, s2))))"

section \<open>Abstraction to a list\<close>

text \<open>
  \<open>ring s xs\<close>: following \<open>next\<close> from the first element of \<open>xs\<close> runs through \<open>xs\<close> and
  back to its start, and every \<open>prev\<close> is the inverse of a \<open>next\<close>.
\<close>

definition linked :: "('c, 'm, 'g, 'x) wait_state_scheme \<Rightarrow> addr \<Rightarrow> addr \<Rightarrow> bool" where
  "linked s a b \<longleftrightarrow> w_next (sync_at s a) = Some b \<and> w_prev (sync_at s b) = Some a"

definition ring :: "('c, 'm, 'g, 'x) wait_state_scheme \<Rightarrow> addr list \<Rightarrow> bool" where
  "ring s xs \<longleftrightarrow> xs \<noteq> [] \<and> distinct xs \<and> successively (linked s) (xs @ [hd xs])"

definition head_of :: "'a list \<Rightarrow> 'a option" where
  "head_of xs = (case xs of [] \<Rightarrow> None | x # _ \<Rightarrow> Some x)"

definition wait_list :: "('c, 'm, 'g, 'x) wait_state_scheme \<Rightarrow> addr list \<Rightarrow> bool" where
  "wait_list s xs \<longleftrightarrow> threads_base_wait_sync_list s = head_of xs \<and> (xs \<noteq> [] \<longrightarrow> ring s xs)"

text \<open>What the list operations leave alone: everything but the links and the head.\<close>

definition core :: "('c, 'm) ompi_wait_sync_t \<Rightarrow> ('c, 'm) ompi_wait_sync_t" where
  "core w = w\<lparr>w_next := None, w_prev := None\<rparr>"

definition same_but_links :: "('c, 'm, 'g, 'x) wait_state_scheme \<Rightarrow> ('c, 'm, 'g, 'x) wait_state_scheme \<Rightarrow> bool" where
  "same_but_links s s' \<longleftrightarrow>
     (\<forall>a. core (sync_at s' a) = core (sync_at s a)) \<and>
     s'\<lparr>sync_at := sync_at s, threads_base_wait_sync_list := threads_base_wait_sync_list s\<rparr> = s"

section \<open>Generic lemmas\<close>

lemma head_of_simps [simp]: "head_of [] = None" "head_of (x # xs) = Some x"
  by (simp_all add: head_of_def)

lemma head_of_append [simp]: "head_of (xs @ ys) = (if xs = [] then head_of ys else head_of xs)"
  by (cases xs) simp_all

lemma head_of_eq_Some: "head_of xs = Some a \<longleftrightarrow> (\<exists>ys. xs = a # ys)"
  by (cases xs) auto

lemma head_of_eq_None [simp]: "head_of xs = None \<longleftrightarrow> xs = []"
  by (cases xs) auto

lemma in_set_tl: "x \<in> set (tl xs) \<Longrightarrow> x \<in> set xs"
  by (cases xs) auto

lemma distinct_butlast_last: "distinct xs \<Longrightarrow> x \<in> set (butlast xs) \<Longrightarrow> x \<noteq> last xs"
  by (cases xs rule: rev_cases) auto

lemma distinct_tl_hd: "distinct xs \<Longrightarrow> x \<in> set (tl xs) \<Longrightarrow> x \<noteq> hd xs"
  by (cases xs) auto

text \<open>Neighbours in a list: the left one is not the last, the right one not the first.\<close>

lemma successively_transfer:
  assumes "successively P xs"
    and "\<And>a b. a \<in> set (butlast xs) \<Longrightarrow> b \<in> set (tl xs) \<Longrightarrow> P a b \<Longrightarrow> Q a b"
  shows "successively Q xs"
  using assms
proof (induction P xs rule: successively.induct)
  case (3 P x y xs)
  from "3.prems"(1) have P: "P x y" "successively P (y # xs)" by simp_all
  have "Q x y" by (rule "3.prems"(2)) (use P in auto)
  moreover have "successively Q (y # xs)"
    by (rule "3.IH" [OF P(2)]) (auto intro: "3.prems"(2) split: if_splits)
  ultimately show ?case by simp
qed auto

lemma upd_sync_frame [simp]:
  "uses_threads (upd_sync a f s) = uses_threads s"
  "threads_base_wait_sync_list (upd_sync a f s) = threads_base_wait_sync_list s"
  "wait_sync_lock (upd_sync a f s) = wait_sync_lock s"
  "num_thread_in_progress (upd_sync a f s) = num_thread_in_progress s"
  "sync_at (upd_sync a f s) = (sync_at s)(a := f (sync_at s a))"
  by (simp_all add: upd_sync_def)

lemma same_but_links_refl [simp]: "same_but_links s s"
  by (simp add: same_but_links_def)

lemma core_eq_fields:
  assumes "core v = core w"
  shows "w_count v = w_count w" "w_status v = w_status w" "w_condition v = w_condition w"
    "w_lock v = w_lock w" "w_signaling v = w_signaling w"
  using assms by (cases v; cases w; simp add: core_def)+

section \<open>The ring implements the list\<close>

lemma ring_iff:
  "ring s (a # zs) \<longleftrightarrow> a \<notin> set zs \<and> distinct zs \<and>
     (if zs = [] then linked s a a
      else linked s a (hd zs) \<and> successively (linked s) zs \<and> linked s (last zs) a)"
proof -
  have "successively (linked s) (zs @ [a]) \<longleftrightarrow>
      successively (linked s) zs \<and> (zs \<noteq> [] \<longrightarrow> linked s (last zs) a)"
    by (auto simp: successively_append_iff)
  then show ?thesis by (cases zs) (auto simp: ring_def)
qed

lemma ring_last: "ring s xs \<Longrightarrow> linked s (last xs) (hd xs)"
  by (auto simp: ring_def successively_append_iff)

lemma ring_successively: "ring s xs \<Longrightarrow> successively (linked s) xs"
  by (auto simp: ring_def successively_append_iff)

lemma ring_rotate:
  assumes "ring s (as @ bs)"
  shows "ring s (bs @ as)"
proof (cases "as = [] \<or> bs = []")
  case True
  with assms show ?thesis by auto
next
  case False
  with assms show ?thesis
    by (auto simp: ring_def successively_append_iff hd_append)
qed

lemma ring_cong_links:
  assumes "ring s xs"
    and "\<And>x. x \<in> set xs \<Longrightarrow> w_next (sync_at s' x) = w_next (sync_at s x) \<and>
                       w_prev (sync_at s' x) = w_prev (sync_at s x)"
  shows "ring s' xs"
proof -
  have "successively (linked s) (xs @ [hd xs])" "xs \<noteq> []" using assms(1) by (auto simp: ring_def)
  then have "successively (linked s') (xs @ [hd xs])"
    using assms(2) by (elim successively_transfer) (auto simp: linked_def butlast_append tl_append
        dest: list.set_sel(2) split: list.splits)
  with assms(1) show ?thesis by (simp add: ring_def)
qed

lemma ring_insert:
  assumes "ring s xs" "a \<notin> set xs"
    and links: "w_next (sync_at s' (last xs)) = Some a" "w_prev (sync_at s' a) = Some (last xs)"
      "w_next (sync_at s' a) = Some (hd xs)" "w_prev (sync_at s' (hd xs)) = Some a"
    and nexts: "\<And>x. x \<noteq> a \<Longrightarrow> x \<noteq> last xs \<Longrightarrow> w_next (sync_at s' x) = w_next (sync_at s x)"
    and prevs: "\<And>x. x \<noteq> a \<Longrightarrow> x \<noteq> hd xs \<Longrightarrow> w_prev (sync_at s' x) = w_prev (sync_at s x)"
  shows "ring s' (xs @ [a])"
proof -
  have xs: "xs \<noteq> []" "distinct xs" using assms(1) by (auto simp: ring_def)
  have "successively (linked s') xs"
  proof (rule successively_transfer [OF ring_successively [OF assms(1)]])
    fix x y assume x: "x \<in> set (butlast xs)" and y: "y \<in> set (tl xs)" and "linked s x y"
    from x y xs have "x \<noteq> last xs" "y \<noteq> hd xs" by (simp_all add: distinct_butlast_last distinct_tl_hd)
    moreover from x y assms(2) have "x \<noteq> a" "y \<noteq> a"
      by (auto dest: in_set_butlastD in_set_tl)
    ultimately show "linked s' x y"
      using \<open>linked s x y\<close> nexts [of x] prevs [of y] by (simp add: linked_def)
  qed
  with xs assms(2) links show ?thesis
    by (auto simp: ring_def successively_append_iff linked_def)
qed

lemma wait_list_insert_spec:
  assumes "wait_list s xs" "a \<notin> set xs"
  shows "\<exists>s'. wait_list_insert a s = Ret s' \<and> wait_list s' (xs @ [a]) \<and> same_but_links s s'"
proof (cases xs)
  case Nil
  with assms show ?thesis
    by (auto simp: wait_list_def wait_list_insert_def Let_def ring_def linked_def
        same_but_links_def core_def upd_sync_def)
next
  case (Cons l ys)
  with assms have r: "ring s xs" and hd: "threads_base_wait_sync_list s = Some l"
    by (auto simp: wait_list_def)
  from ring_last [OF r] Cons have prev: "w_prev (sync_at s l) = Some (last xs)"
    by (simp add: linked_def)
  let ?p = "last xs"
  have ne: "l \<noteq> a" "?p \<noteq> a" using assms(2) Cons by auto
  let ?s1 = "upd_sync a (\<lambda>w. w\<lparr>w_prev := Some ?p\<rparr>) s"
  let ?s2 = "upd_sync ?p (\<lambda>w. w\<lparr>w_next := Some a\<rparr>) ?s1"
  let ?s3 = "upd_sync a (\<lambda>w. w\<lparr>w_next := Some l\<rparr>) ?s2"
  let ?s4 = "upd_sync l (\<lambda>w. w\<lparr>w_prev := Some a\<rparr>) ?s3"
  have "wait_list_insert a s = Ret ?s4"
    using hd prev by (simp add: wait_list_insert_def Let_def)
  moreover have "ring ?s4 (xs @ [a])"
    by (rule ring_insert [OF r assms(2)]) (use ne Cons in \<open>auto\<close>)
  moreover have "same_but_links s ?s4"
    by (auto simp: same_but_links_def core_def upd_sync_def)
  ultimately show ?thesis
    using hd Cons by (auto simp: wait_list_def)
qed

lemma ring_remove:
  assumes "ring s (a # zs)" "zs \<noteq> []"
    and links: "w_next (sync_at s' (last zs)) = Some (hd zs)" "w_prev (sync_at s' (hd zs)) = Some (last zs)"
    and nexts: "\<And>x. x \<noteq> last zs \<Longrightarrow> w_next (sync_at s' x) = w_next (sync_at s x)"
    and prevs: "\<And>x. x \<noteq> hd zs \<Longrightarrow> w_prev (sync_at s' x) = w_prev (sync_at s x)"
  shows "ring s' zs"
proof -
  from assms(1,2) have zs: "distinct zs" "successively (linked s) zs" by (auto simp: ring_iff)
  have "successively (linked s') zs"
  proof (rule successively_transfer [OF zs(2)])
    fix x y assume x: "x \<in> set (butlast zs)" and y: "y \<in> set (tl zs)" and "linked s x y"
    from x y zs have "x \<noteq> last zs" "y \<noteq> hd zs" by (simp_all add: distinct_butlast_last distinct_tl_hd)
    then show "linked s' x y"
      using \<open>linked s x y\<close> nexts [of x] prevs [of y] by (simp add: linked_def)
  qed
  with zs assms(2) links show ?thesis
    by (auto simp: ring_def successively_append_iff linked_def)
qed

lemma wait_list_split:
  assumes "wait_list s xs" "a \<in> set xs"
  obtains as bs where "xs = as @ a # bs" "a \<notin> set as" "a \<notin> set bs" "ring s (a # bs @ as)"
proof -
  from assms(2) obtain as bs where xs: "xs = as @ a # bs" by (meson split_list)
  from assms xs have r: "ring s (as @ a # bs)" by (auto simp: wait_list_def)
  then have "ring s (a # bs @ as)" by (metis append_Cons ring_rotate)
  moreover from r have "a \<notin> set as" "a \<notin> set bs" by (auto simp: ring_def)
  ultimately show ?thesis using that xs by blast
qed

lemma wait_list_remove_spec:
  assumes wl: "wait_list s xs" and a: "a \<in> set xs"
  shows "\<exists>n s'. wait_list_remove a s = Ret (n, s') \<and> wait_list s' (remove1 a xs) \<and> same_but_links s s' \<and>
           n = (if head_of xs = Some a then head_of (remove1 a xs) else None)"
proof -
  obtain as bs where xs: "xs = as @ a # bs" "a \<notin> set as" "a \<notin> set bs" and r: "ring s (a # bs @ as)"
    using wait_list_split [OF wl a] .
  from xs have rm: "remove1 a xs = as @ bs" by (simp add: remove1_append)
  from wl have hd: "threads_base_wait_sync_list s = head_of xs" by (simp add: wait_list_def)
  let ?zs = "bs @ as"
  show ?thesis
  proof (cases "?zs = []")
    case True
    with r have "linked s a a" by (simp add: ring_iff)
    with True xs hd show ?thesis
      by (auto simp: wait_list_remove_def linked_def wait_list_def same_but_links_def core_def upd_sync_def)
  next
    case False
    let ?p = "last ?zs" and ?n = "hd ?zs"
    from False r have links: "linked s a ?n" "linked s ?p a" and ne: "?p \<noteq> a" "?n \<noteq> a"
      using xs(2,3) hd_in_set [OF False] last_in_set [OF False] by (auto simp: ring_iff)
    let ?s1 = "upd_sync ?p (\<lambda>w. w\<lparr>w_next := Some ?n\<rparr>) s"
    let ?s2 = "upd_sync ?n (\<lambda>w. w\<lparr>w_prev := Some ?p\<rparr>) ?s1"
    let ?h = "if head_of xs = Some a then Some ?n else None"
    let ?s3 = "if head_of xs = Some a then ?s2\<lparr>threads_base_wait_sync_list := Some ?n\<rparr> else ?s2"
    have eval: "wait_list_remove a s = Ret (?h, ?s3)"
      using links ne hd by (auto simp: wait_list_remove_def linked_def Let_def)
    have "ring ?s3 ?zs"
      by (rule ring_remove [OF r False]) (use ne in auto)
    then have "ring ?s3 (as @ bs)" by (rule ring_rotate)
    moreover have head: "(if head_of xs = Some a then Some ?n else head_of xs) = head_of (as @ bs)"
      using xs False by (cases as; cases bs) auto
    moreover have "same_but_links s ?s3"
      by (auto simp: same_but_links_def core_def upd_sync_def)
    ultimately show ?thesis
      using eval hd False rm by (auto simp: wait_list_def split: if_splits)
  qed
qed

section \<open>The contract of the list of pending objects\<close>

text \<open>
  What \<open>ompi_sync_wait_mt\<close> relies on: a queue with removal anywhere, whose first element
  can be read off the state, and whose operations touch nothing but the queue.
\<close>

locale pending_queue =
  fixes rep :: "'s \<Rightarrow> 'a list \<Rightarrow> bool"
    and head :: "'s \<Rightarrow> 'a option"
    and insert_q :: "'a \<Rightarrow> 's \<Rightarrow> 's outcome"
    and remove_q :: "'a \<Rightarrow> 's \<Rightarrow> ('a option \<times> 's) outcome"
    and frame :: "'s \<Rightarrow> 's \<Rightarrow> bool"
  assumes rep_head: "rep s xs \<Longrightarrow> head s = head_of xs"
    and rep_distinct: "rep s xs \<Longrightarrow> distinct xs"
    and insert_q: "rep s xs \<Longrightarrow> a \<notin> set xs \<Longrightarrow>
          \<exists>s'. insert_q a s = Ret s' \<and> rep s' (xs @ [a]) \<and> frame s s'"
    and remove_q: "rep s xs \<Longrightarrow> a \<in> set xs \<Longrightarrow>
          \<exists>n s'. remove_q a s = Ret (n, s') \<and> rep s' (remove1 a xs) \<and> frame s s' \<and>
                 n = (if head_of xs = Some a then head_of (remove1 a xs) else None)"
begin

lemma insert_remove_id:
  assumes "rep s xs" "a \<notin> set xs"
  shows "\<exists>s' n s''. insert_q a s = Ret s' \<and> remove_q a s' = Ret (n, s'') \<and> rep s'' xs"
proof -
  from insert_q [OF assms] obtain s' where s': "insert_q a s = Ret s'" "rep s' (xs @ [a])" by blast
  from remove_q [OF s'(2), of a] assms(2) s'(1) show ?thesis by (auto simp: remove1_append)
qed

text \<open>The head changes only when the head itself is removed, and then to the next oldest.\<close>

lemma head_kept:
  assumes "rep s (x # xs)" "a \<in> set xs"
  shows "\<exists>n s'. remove_q a s = Ret (n, s') \<and> n = None \<and> head s' = Some x"
proof -
  from rep_distinct [OF assms(1)] assms(2) have "a \<noteq> x" by auto
  with remove_q [OF assms(1), of a] assms(2) rep_head show ?thesis by fastforce
qed

lemma head_passed:
  assumes "rep s (x # xs)"
  shows "\<exists>s'. remove_q x s = Ret (head_of xs, s') \<and> head s' = head_of xs \<and> rep s' xs"
  using remove_q [OF assms, of x] rep_head by fastforce

end

interpretation wq: pending_queue wait_list threads_base_wait_sync_list wait_list_insert
  wait_list_remove same_but_links
proof (unfold_locales, goal_cases)
  case (1 s xs)
  then show ?case by (simp add: wait_list_def)
next
  case (2 s xs)
  then show ?case by (cases "xs = []") (auto simp: wait_list_def ring_def)
next
  case (3 s xs a)
  then show ?case by (rule wait_list_insert_spec)
next
  case (4 s xs a)
  then show ?case by (rule wait_list_remove_spec)
qed

end
