(* ===== verification/Wait_Sync.thy ===== *)
theory Wait_Sync
  imports Wait_List
begin

text \<open>
  The operations of \<open>src/src/wait_sync.h\<close> on one synchronisation object, the
  single-threaded wait, and the two global wake-ups of \<open>src/src/impl/base/wait_sync.c\<close>,
  each run without interference. The interleaved execution of the multi-threaded wait is
  the subject of the theories that import this one.
\<close>

section \<open>Configuration\<close>

text \<open>
  What the code takes from elsewhere: the atomic primitives, the numeric value of
  \<open>SUCCESS\<close>, the limit \<open>max_thread_in_progress\<close>, and (for the machines of the later
  theories) the number of threads.
\<close>

record wait_cfg =
  cfg_atomics :: "i32 atomic_lib"
  cfg_SUCCESS :: i32
  cfg_max_thread_in_progress :: i32
  cfg_threads :: nat

section \<open>Single steps on an object\<close>

text \<open>The calls of the backend on \<open>sync->lock\<close> and \<open>sync->condition\<close>.\<close>

definition sync_lock :: "tid \<Rightarrow> addr \<Rightarrow> 'x sync_state \<Rightarrow> 'x sync_state outcome" where
  "sync_lock t a s = obind (amutex_lock t (w_lock (sync_at s a)))
     (\<lambda>m. Ret (upd_sync a (\<lambda>w. w\<lparr>w_lock := m\<rparr>) s))"

definition sync_unlock :: "tid \<Rightarrow> addr \<Rightarrow> 'x sync_state \<Rightarrow> 'x sync_state outcome" where
  "sync_unlock t a s = obind (amutex_unlock t (w_lock (sync_at s a)))
     (\<lambda>m. Ret (upd_sync a (\<lambda>w. w\<lparr>w_lock := m\<rparr>) s))"

definition sync_signal :: "addr \<Rightarrow> 'x sync_state \<Rightarrow> 'x sync_state outcome" where
  "sync_signal a s = obind (acond_signal (w_condition (sync_at s a)))
     (\<lambda>c. Ret (upd_sync a (\<lambda>w. w\<lparr>w_condition := c\<rparr>) s))"

section \<open>The macros of the header\<close>

definition WAIT_SYNC_INIT :: "addr \<Rightarrow> i32 \<Rightarrow> 'x sync_state \<Rightarrow> 'x sync_state" where
  "WAIT_SYNC_INIT a c s =
     (let s1 = upd_sync a (\<lambda>w. w\<lparr>w_count := c, w_next := None, w_prev := None, w_status := 0,
                                 w_signaling := (0 \<noteq> c)\<rparr>) s
      in if using_threads (uses_threads s1)
         then upd_sync a (\<lambda>w. w\<lparr>w_condition := acond_init, w_lock := amutex_init False\<rparr>) s1
         else s1)"

definition WAIT_SYNC_SIGNAL :: "tid \<Rightarrow> addr \<Rightarrow> 'x sync_state \<Rightarrow> 'x sync_state outcome" where
  "WAIT_SYNC_SIGNAL t a s =
     (if using_threads (uses_threads s) then
        obind (sync_lock t a s) (\<lambda>s1. obind (sync_signal a s1) (\<lambda>s2. obind (sync_unlock t a s2)
          (\<lambda>s3. Ret (upd_sync a (\<lambda>w. w\<lparr>w_signaling := False\<rparr>) s3))))
      else Ret s)"

definition WAIT_SYNC_SIGNALLED :: "addr \<Rightarrow> 'x sync_state \<Rightarrow> 'x sync_state" where
  "WAIT_SYNC_SIGNALLED a s = upd_sync a (\<lambda>w. w\<lparr>w_signaling := False\<rparr>) s"

definition WAIT_SYNC_RELEASE_NOWAIT :: "addr \<Rightarrow> 'x sync_state \<Rightarrow> 'x sync_state outcome" where
  "WAIT_SYNC_RELEASE_NOWAIT a s =
     (if using_threads (uses_threads s) then
        obind (acond_destroy (w_condition (sync_at s a))) (\<lambda>c.
          (let s1 = upd_sync a (\<lambda>w. w\<lparr>w_condition := c\<rparr>) s
           in obind (amutex_destroy (w_lock (sync_at s1 a))) (\<lambda>m.
                Ret (upd_sync a (\<lambda>w. w\<lparr>w_lock := m\<rparr>) s1))))
      else Ret s)"

text \<open>The release spins while \<open>signaling\<close> is set: its caller has to wait.\<close>

definition WAIT_SYNC_RELEASE :: "addr \<Rightarrow> 'x sync_state \<Rightarrow> 'x sync_state outcome" where
  "WAIT_SYNC_RELEASE a s =
     (if using_threads (uses_threads s) \<and> w_signaling (sync_at s a) then Block
      else WAIT_SYNC_RELEASE_NOWAIT a s)"

section \<open>Updating an object\<close>

definition wait_sync_update ::
  "wait_cfg \<Rightarrow> tid \<Rightarrow> addr \<Rightarrow> i32 \<Rightarrow> i32 \<Rightarrow> 'x sync_state \<Rightarrow> 'x sync_state outcome" where
  "wait_sync_update cfg t sync updates status s =
     (if cfg_SUCCESS cfg = status then
        obind (c_ssub 0 updates) (\<lambda>delta.
          obind (thread_add_fetch_32 (uses_threads s) (cfg_atomics cfg) (w_count (sync_at s sync)) delta)
            (\<lambda>(count, result).
              (let s1 = upd_sync sync (\<lambda>w. w\<lparr>w_count := count\<rparr>) s
               in if result \<noteq> 0 then Ret s1 else WAIT_SYNC_SIGNAL t sync s1)))
      else
        (let s1 = upd_sync sync (\<lambda>w. w\<lparr>w_status := status\<rparr>) s;
             s2 = upd_sync sync
                    (\<lambda>w. w\<lparr>w_count := fst (atomic_swap (cfg_atomics cfg) (w_count w) 0)\<rparr>) s1
         in WAIT_SYNC_SIGNAL t sync s2))"

section \<open>The single-threaded wait\<close>

text \<open>
  \<open>progress()\<close> is code outside the repository: a parameter, an arbitrary function on the
  state, which may hold further fields of its own. The loop may run forever.
\<close>

partial_function (option) st_loop ::
  "('x sync_state \<Rightarrow> 'x sync_state) \<Rightarrow> addr \<Rightarrow> 'x sync_state \<Rightarrow> 'x sync_state option" where
  "st_loop progress a s =
     (if sint (w_count (sync_at s a)) > 0 then st_loop progress a (progress s) else Some s)"

definition sync_wait_st ::
  "('x sync_state \<Rightarrow> 'x sync_state) \<Rightarrow> addr \<Rightarrow> 'x sync_state \<Rightarrow>
     (i32 \<times> 'x sync_state) outcome option" where
  "sync_wait_st progress sync s =
     (if threads_base_wait_sync_list s \<noteq> None then Some AssertFail
      else if w_next (sync_at s sync) \<noteq> None then Some AssertFail
      else
        (let s1 = s\<lparr>threads_base_wait_sync_list := Some sync\<rparr>
         in case st_loop progress sync s1 of
              None \<Rightarrow> None
            | Some s2 \<Rightarrow>
                (let s3 = s2\<lparr>threads_base_wait_sync_list := None\<rparr>
                 in Some (Ret (w_status (sync_at s3 sync), s3)))))"

section \<open>The global wake-ups\<close>

partial_function (option) wakeup_loop_st ::
  "wait_cfg \<Rightarrow> tid \<Rightarrow> i32 \<Rightarrow> addr option \<Rightarrow> 'x sync_state \<Rightarrow> 'x sync_state outcome option" where
  "wakeup_loop_st cfg t status cur s =
     (case cur of
        None \<Rightarrow> Some (Ret s)
      | Some sync \<Rightarrow>
          (case wait_sync_update cfg t sync 0 status s of
             Ret s1 \<Rightarrow> wakeup_loop_st cfg t status (w_next (sync_at s1 sync)) s1
           | Block \<Rightarrow> Some Block | AssertFail \<Rightarrow> Some AssertFail | UB \<Rightarrow> Some UB))"

definition threads_base_wait_sync_global_wakeup_st ::
  "wait_cfg \<Rightarrow> tid \<Rightarrow> i32 \<Rightarrow> 'x sync_state \<Rightarrow> 'x sync_state outcome option" where
  "threads_base_wait_sync_global_wakeup_st cfg t status s =
     wakeup_loop_st cfg t status (threads_base_wait_sync_list s) s"

partial_function (option) wakeup_loop_mt ::
  "wait_cfg \<Rightarrow> tid \<Rightarrow> i32 \<Rightarrow> addr option \<Rightarrow> 'x sync_state \<Rightarrow> 'x sync_state outcome option" where
  "wakeup_loop_mt cfg t status cur s =
     (case cur of
        None \<Rightarrow> Some (Ret s)
      | Some sync \<Rightarrow>
          (case wait_sync_update cfg t sync 0 status s of
             Ret s1 \<Rightarrow>
               if w_next (sync_at s1 sync) = threads_base_wait_sync_list s1 then Some (Ret s1)
               else wakeup_loop_mt cfg t status (w_next (sync_at s1 sync)) s1
           | Block \<Rightarrow> Some Block | AssertFail \<Rightarrow> Some AssertFail | UB \<Rightarrow> Some UB))"

definition threads_base_wait_sync_global_wakeup_mt ::
  "wait_cfg \<Rightarrow> tid \<Rightarrow> i32 \<Rightarrow> 'x sync_state \<Rightarrow> 'x sync_state outcome option" where
  "threads_base_wait_sync_global_wakeup_mt cfg t status s =
     (case amutex_lock t (wait_sync_lock s) of
        Ret m \<Rightarrow>
          (case wakeup_loop_mt cfg t status (threads_base_wait_sync_list s) (s\<lparr>wait_sync_lock := m\<rparr>) of
             None \<Rightarrow> None
           | Some r \<Rightarrow> Some (obind r (\<lambda>s1. obind (amutex_unlock t (wait_sync_lock s1))
                          (\<lambda>m'. Ret (s1\<lparr>wait_sync_lock := m'\<rparr>)))))
      | Block \<Rightarrow> Some Block | AssertFail \<Rightarrow> Some AssertFail | UB \<Rightarrow> Some UB)"

definition wait_sync_global_wakeup ::
  "wait_cfg \<Rightarrow> tid \<Rightarrow> i32 \<Rightarrow> 'x sync_state \<Rightarrow> 'x sync_state outcome option" where
  "wait_sync_global_wakeup cfg t status s =
     (if using_threads (uses_threads s) then threads_base_wait_sync_global_wakeup_mt cfg t status s
      else threads_base_wait_sync_global_wakeup_st cfg t status s)"

section \<open>Effect of the operations\<close>

text \<open>
  \<open>ready s a\<close>: nobody holds the object's lock and nothing of it has been destroyed.
  \<open>signalled\<close> and \<open>woken\<close> are what a signal and an error do to an object.
\<close>

definition ready :: "'x sync_state \<Rightarrow> addr \<Rightarrow> bool" where
  "ready s a \<longleftrightarrow> plain (w_lock (sync_at s a)) \<and> mx_owner (w_lock (sync_at s a)) = None \<and>
               cv_live (w_condition (sync_at s a))"

definition signalled :: "sync_obj \<Rightarrow> sync_obj" where
  "signalled w = w\<lparr>w_condition := (w_condition w)\<lparr>cv_waiters := tl (cv_waiters (w_condition w))\<rparr>,
                   w_signaling := False\<rparr>"

definition woken :: "i32 \<Rightarrow> sync_obj \<Rightarrow> sync_obj" where
  "woken status w = signalled (w\<lparr>w_status := status, w_count := 0\<rparr>)"

lemma signalled_fields [simp]:
  "w_next (signalled w) = w_next w" "w_prev (signalled w) = w_prev w" "w_lock (signalled w) = w_lock w"
  "w_count (signalled w) = w_count w" "w_status (signalled w) = w_status w"
  "w_signaling (signalled w) = False"
  "w_condition (signalled w) = (w_condition w)\<lparr>cv_waiters := tl (cv_waiters (w_condition w))\<rparr>"
  by (simp_all add: signalled_def)

lemma woken_fields [simp]:
  "w_next (woken st w) = w_next w" "w_prev (woken st w) = w_prev w" "w_lock (woken st w) = w_lock w"
  "w_count (woken st w) = 0" "w_status (woken st w) = st" "w_signaling (woken st w) = False"
  "cv_live (w_condition (woken st w)) = cv_live (w_condition w)"
  by (simp_all add: woken_def)

lemma plain_free_relock:
  "plain m \<Longrightarrow> mx_owner m = None \<Longrightarrow> m\<lparr>mx_owner := None, mx_depth := 0\<rparr> = m"
  by (cases m) (simp add: plain_def)

lemma WAIT_SYNC_SIGNAL_ready:
  assumes "ready s a" "uses_threads s"
  shows "WAIT_SYNC_SIGNAL t a s = Ret (upd_sync a signalled s)"
proof -
  let ?m = "w_lock (sync_at s a)"
  from assms(1) have m: "plain ?m" "mx_owner ?m = None" "cv_live (w_condition (sync_at s a))"
    by (simp_all add: ready_def)
  have "sync_lock t a s = Ret (upd_sync a (\<lambda>w. w\<lparr>w_lock := ?m\<lparr>mx_owner := Some t, mx_depth := 1\<rparr>\<rparr>) s)"
    using m by (simp add: sync_lock_def amutex_lock_plain)
  moreover have "plain (?m\<lparr>mx_owner := Some t, mx_depth := Suc 0\<rparr>)" using m by simp
  ultimately show ?thesis
    using m assms(2) plain_free_relock [OF m(1,2)]
    by (simp add: WAIT_SYNC_SIGNAL_def using_threads_def sync_signal_def sync_unlock_def
        acond_signal_def amutex_unlock_plain signalled_def upd_sync_def)
qed

lemma wait_sync_update_error:
  assumes "ready s a" "uses_threads s" "status \<noteq> cfg_SUCCESS cfg" "atomic_lib_ok (cfg_atomics cfg)"
  shows "wait_sync_update cfg t a n status s = Ret (upd_sync a (woken status) s)"
proof -
  let ?s2 = "upd_sync a (\<lambda>w. w\<lparr>w_status := status, w_count := 0\<rparr>) s"
  have "ready ?s2 a" "uses_threads ?s2" using assms(1,2) by (simp_all add: ready_def)
  note sig = WAIT_SYNC_SIGNAL_ready [OF this, of t]
  have "wait_sync_update cfg t a n status s = WAIT_SYNC_SIGNAL t a ?s2"
    using assms(3,4) by (auto simp: wait_sync_update_def Let_def atomic_lib_ok_def upd_sync_def)
  with sig show ?thesis by (simp add: woken_def upd_sync_def)
qed

lemma wait_sync_update_error_st:
  assumes "\<not> uses_threads s" "status \<noteq> cfg_SUCCESS cfg" "atomic_lib_ok (cfg_atomics cfg)"
  shows "wait_sync_update cfg t a n status s =
           Ret (upd_sync a (\<lambda>w. w\<lparr>w_status := status, w_count := 0\<rparr>) s)"
  using assms by (auto simp: wait_sync_update_def Let_def atomic_lib_ok_def upd_sync_def
      WAIT_SYNC_SIGNAL_def using_threads_def)

section \<open>The multi-threaded wake-up visits every pending object once\<close>

definition wake_all :: "i32 \<Rightarrow> addr set \<Rightarrow> 'x sync_state \<Rightarrow> 'x sync_state" where
  "wake_all status A s = s\<lparr>sync_at := (\<lambda>a. if a \<in> A then woken status (sync_at s a) else sync_at s a)\<rparr>"

lemma wake_all_empty [simp]: "wake_all status {} s = s"
  by (simp add: wake_all_def)

lemma wake_all_insert:
  "a \<notin> A \<Longrightarrow> wake_all status A (upd_sync a (woken status) s) = wake_all status (insert a A) s"
  by (auto simp: wake_all_def upd_sync_def fun_eq_iff)

lemma ring_next:
  assumes "ring s (as @ b # bs)"
  shows "w_next (sync_at s b) = Some (hd (bs @ as @ [b]))"
proof -
  from assms have "ring s (b # bs @ as)" by (metis append_Cons ring_rotate)
  then show ?thesis by (cases bs; cases as) (auto simp: ring_iff linked_def)
qed

lemma wakeup_loop_mt_ring:
  assumes "ring s (as @ b # bs)" "threads_base_wait_sync_list s = head_of (as @ b # bs)"
    and "\<And>a. a \<in> set (b # bs) \<Longrightarrow> ready s a" "uses_threads s"
    and cfg: "status \<noteq> cfg_SUCCESS cfg" "atomic_lib_ok (cfg_atomics cfg)"
  shows "wakeup_loop_mt cfg t status (Some b) s = Some (Ret (wake_all status (set (b # bs)) s))"
  using assms(1-4)
proof (induction bs arbitrary: as b s)
  case Nil
  let ?s1 = "upd_sync b (woken status) s"
  from Nil cfg have "wait_sync_update cfg t b 0 status s = Ret ?s1"
    by (intro wait_sync_update_error) auto
  moreover have "w_next (sync_at s b) = threads_base_wait_sync_list s"
    using ring_next [OF Nil.prems(1)] Nil.prems(2) by (cases as) auto
  ultimately show ?case
    by (subst wakeup_loop_mt.simps) (auto simp: wake_all_def upd_sync_def fun_eq_iff)
next
  case (Cons c cs)
  let ?s1 = "upd_sync b (woken status) s"
  have upd: "wait_sync_update cfg t b 0 status s = Ret ?s1"
    using Cons.prems cfg by (intro wait_sync_update_error) auto
  have nxt: "w_next (sync_at ?s1 b) = Some c" using ring_next [OF Cons.prems(1)] by simp
  have d: "distinct (as @ b # c # cs)" using Cons.prems(1) by (simp add: ring_def)
  then have nhd: "threads_base_wait_sync_list ?s1 \<noteq> Some c" using Cons.prems(2) by (cases as) auto
  have r1: "ring ?s1 ((as @ [b]) @ c # cs)"
    by (rule ring_cong_links [of s]) (use Cons.prems(1) in auto)
  have "wakeup_loop_mt cfg t status (Some c) ?s1 = Some (Ret (wake_all status (set (c # cs)) ?s1))"
  proof (rule Cons.IH [OF r1])
    show "threads_base_wait_sync_list ?s1 = head_of ((as @ [b]) @ c # cs)"
      using Cons.prems(2) by (cases as) auto
    show "ready ?s1 a" if "a \<in> set (c # cs)" for a
      using that d Cons.prems(3) [of a] by (auto simp: ready_def)
    show "uses_threads ?s1" using Cons.prems(4) by simp
  qed
  moreover have "wakeup_loop_mt cfg t status (Some b) s = wakeup_loop_mt cfg t status (Some c) ?s1"
    using upd nxt nhd by (subst wakeup_loop_mt.simps) auto
  moreover have "wake_all status (set (c # cs)) ?s1 = wake_all status (set (b # c # cs)) s"
    using d by (subst wake_all_insert) auto
  ultimately show ?case by simp
qed

lemma wake_all_wsl: "wake_all st A (s\<lparr>wait_sync_lock := m\<rparr>) = (wake_all st A s)\<lparr>wait_sync_lock := m\<rparr>"
  by (simp add: wake_all_def cong: if_cong)

lemma wake_all_frame [simp]:
  "wait_sync_lock (wake_all st A s) = wait_sync_lock s"
  "threads_base_wait_sync_list (wake_all st A s) = threads_base_wait_sync_list s"
  "sync_at (wake_all st A s) a = (if a \<in> A then woken st (sync_at s a) else sync_at s a)"
  by (simp_all add: wake_all_def)

lemma ring_wsl [simp]: "ring (s\<lparr>wait_sync_lock := m\<rparr>) xs = ring s xs"
  by (simp add: ring_def linked_def)

lemma wait_list_wake_all: "wait_list s xs \<Longrightarrow> wait_list (wake_all st A s) xs"
  by (auto simp: wait_list_def intro: ring_cong_links)

lemma wakeup_mt_wake_all:
  assumes wl: "wait_list s xs" and rd: "\<And>a. a \<in> set xs \<Longrightarrow> ready s a" and ut: "uses_threads s"
    and m: "plain (wait_sync_lock s)" "mx_owner (wait_sync_lock s) = None"
    and cfg: "status \<noteq> cfg_SUCCESS cfg" "atomic_lib_ok (cfg_atomics cfg)"
  shows "threads_base_wait_sync_global_wakeup_mt cfg t status s = Some (Ret (wake_all status (set xs) s))"
proof -
  let ?m = "(wait_sync_lock s)\<lparr>mx_owner := Some t, mx_depth := 1\<rparr>"
  let ?s1 = "s\<lparr>wait_sync_lock := ?m\<rparr>"
  have loop: "wakeup_loop_mt cfg t status (threads_base_wait_sync_list s) ?s1 =
      Some (Ret (wake_all status (set xs) ?s1))"
  proof (cases xs)
    case Nil
    with wl have "threads_base_wait_sync_list s = None" by (simp add: wait_list_def)
    with Nil show ?thesis by (subst wakeup_loop_mt.simps) simp
  next
    case (Cons b bs)
    with wl have hd: "threads_base_wait_sync_list s = Some b" and r: "ring s (b # bs)"
      by (auto simp: wait_list_def)
    have "wakeup_loop_mt cfg t status (Some b) ?s1 = Some (Ret (wake_all status (set (b # bs)) ?s1))"
      by (rule wakeup_loop_mt_ring [where as = "[]"]) (use Cons hd r rd ut cfg in \<open>auto simp: ready_def\<close>)
    with hd Cons show ?thesis by simp
  qed
  have "amutex_lock t (wait_sync_lock s) = Ret ?m" using m by (simp add: amutex_lock_plain)
  moreover have "amutex_unlock t ?m = Ret (wait_sync_lock s)"
    using m plain_free_relock [OF m] by (simp add: amutex_unlock_plain)
  moreover have "(wake_all status (set xs) s)\<lparr>wait_sync_lock := wait_sync_lock s\<rparr> = wake_all status (set xs) s"
    by (simp add: wake_all_def)
  ultimately show ?thesis
    using loop by (simp add: threads_base_wait_sync_global_wakeup_mt_def wake_all_wsl)
qed

section \<open>The single-threaded wait\<close>

lemma st_loop_stops:
  assumes "sint (w_count (sync_at ((progress ^^ n) s) a)) \<le> 0"
    and "\<And>m. m < n \<Longrightarrow> 0 < sint (w_count (sync_at ((progress ^^ m) s) a))"
  shows "st_loop progress a s = Some ((progress ^^ n) s)"
  using assms
proof (induction n arbitrary: s)
  case 0
  then show ?case by (subst st_loop.simps) simp
next
  case (Suc n)
  have "st_loop progress a (progress s) = Some ((progress ^^ n) (progress s))"
  proof (rule Suc.IH)
    show "sint (w_count (sync_at ((progress ^^ n) (progress s)) a)) \<le> 0"
      using Suc.prems(1) by (simp add: funpow_swap1)
    show "0 < sint (w_count (sync_at ((progress ^^ m) (progress s)) a))" if "m < n" for m
      using Suc.prems(2) [of "Suc m"] that by (simp add: funpow_swap1)
  qed
  with Suc.prems(2) [of 0] show ?case
    by (subst st_loop.simps) (simp add: funpow_swap1)
qed

lemma st_loop_result:
  assumes "st_loop progress a s = Some s'"
  shows "\<exists>n. s' = (progress ^^ n) s \<and> sint (w_count (sync_at s' a)) \<le> 0"
proof (rule st_loop.raw_induct
    [where P = "\<lambda>progress a s s'. \<exists>n. s' = (progress ^^ n) s \<and> sint (w_count (sync_at s' a)) \<le> 0", OF _ assms])
  fix loop :: "('a sync_state \<Rightarrow> 'a sync_state) \<Rightarrow> addr \<Rightarrow> 'a sync_state \<Rightarrow> 'a sync_state option"
    and progress a s s'
  assume IH: "\<And>progress a s s'. loop progress a s = Some s' \<Longrightarrow>
      \<exists>n. s' = (progress ^^ n) s \<and> sint (w_count (sync_at s' a)) \<le> 0"
    and eq: "(if 0 < sint (w_count (sync_at s a)) then loop progress a (progress s) else Some s) = Some s'"
  show "\<exists>n. s' = (progress ^^ n) s \<and> sint (w_count (sync_at s' a)) \<le> 0"
  proof (cases "0 < sint (w_count (sync_at s a))")
    case True
    with eq IH [of progress a "progress s" s'] obtain n where
      "s' = (progress ^^ n) (progress s)" "sint (w_count (sync_at s' a)) \<le> 0" by auto
    then show ?thesis by (intro exI [of _ "Suc n"]) (simp add: funpow_swap1)
  next
    case False
    with eq show ?thesis by (intro exI [of _ 0]) auto
  qed
qed

section \<open>Properties\<close>

text \<open>A store in which every object is initialised, for the witnesses.\<close>

definition blank_sync :: sync_obj where
  "blank_sync = \<lparr>w_count = 0, w_status = 0, w_condition = acond_init, w_lock = amutex_init False,
                 w_next = None, w_prev = None, w_signaling = False\<rparr>"

definition blank_state :: "bool \<Rightarrow> base_state" where
  "blank_state u = \<lparr>uses_threads = u, sync_at = (\<lambda>_. blank_sync), threads_base_wait_sync_list = None,
                    wait_sync_lock = amutex_init False, num_thread_in_progress = 0\<rparr>"

definition demo_cfg :: wait_cfg where
  "demo_cfg = \<lparr>cfg_atomics = ref_atomics, cfg_SUCCESS = 0, cfg_max_thread_in_progress = 1,
               cfg_threads = 3\<rparr>"

text \<open>
  The state the single-threaded loop is in after a number of calls of \<open>progress()\<close>, and the
  count of its object there; a \<open>progress()\<close> that completes one operation of object 1 per
  call, and a state to wait in.
\<close>

definition state_after ::
  "('x sync_state \<Rightarrow> 'x sync_state) \<Rightarrow> addr \<Rightarrow> 'x sync_state \<Rightarrow> nat \<Rightarrow> 'x sync_state" where
  "state_after progress a s n = (progress ^^ n) (s\<lparr>threads_base_wait_sync_list := Some a\<rparr>)"

definition count_after ::
  "('x sync_state \<Rightarrow> 'x sync_state) \<Rightarrow> addr \<Rightarrow> 'x sync_state \<Rightarrow> nat \<Rightarrow> int" where
  "count_after progress a s n = sint (w_count (sync_at (state_after progress a s n) a))"

definition demo_progress :: "base_state \<Rightarrow> base_state" where
  "demo_progress s = upd_sync 1 (\<lambda>w. w\<lparr>w_count := w_count w - 1\<rparr>) s"

definition demo_st :: base_state where
  "demo_st = (blank_state False)\<lparr>sync_at := (\<lambda>_. blank_sync)(1 := blank_sync\<lparr>w_count := 2\<rparr>)\<rparr>"

text \<open>Two pending objects, linked one after the other.\<close>

definition two_pending :: base_state where
  "two_pending = (blank_state True)\<lparr>threads_base_wait_sync_list := Some 1,
     sync_at := (\<lambda>_. blank_sync)
       (1 := blank_sync\<lparr>w_count := 3, w_next := Some 2, w_prev := Some 2\<rparr>,
        2 := blank_sync\<lparr>w_count := 5, w_next := Some 1, w_prev := Some 1\<rparr>)\<rparr>"

lemma two_pending_list: "wait_list two_pending [1, 2]"
  by (simp add: wait_list_def ring_def linked_def two_pending_def blank_state_def)

lemma two_pending_ready: "ready two_pending a"
  by (simp add: ready_def two_pending_def blank_state_def blank_sync_def acond_init_def)

text \<open>
  C14. Linking an object that is not pending appends it to the list of pending objects, and
  unlinking one removes exactly it, wherever it stands, and nothing else of any object
  changes. Unlinking the head makes the next oldest object the head and reports it as the
  one to pass ownership to; unlinking another object reports nobody.
\<close>

theorem wait_list_operations_refine_queue:
  assumes "wait_list s xs"
  shows "(a \<notin> set xs \<longrightarrow>
           (\<exists>s'. wait_list_insert a s = Ret s' \<and> wait_list s' (xs @ [a]) \<and> same_but_links s s')) \<and>
         (a \<in> set xs \<longrightarrow>
           (\<exists>n s'. wait_list_remove a s = Ret (n, s') \<and> wait_list s' (remove1 a xs) \<and>
             same_but_links s s' \<and> n = (if head_of xs = Some a then head_of (remove1 a xs) else None)))"
  using wq.insert_q [OF assms] wq.remove_q [OF assms] by blast

theorem wait_list_operations_refine_queue_witness:
  "\<exists>s'. wait_list_insert 7 (blank_state True) = Ret s' \<and> wait_list s' [7]"
  using wait_list_operations_refine_queue [of "blank_state True" "[]" 7]
  by (auto simp: wait_list_def blank_state_def)

text \<open>
  C21. The multi-threaded global wake-up with an error status, called when nobody holds a
  lock, terminates; it sets the status, zeroes the count and signals every pending object,
  each once, and changes nothing else. The ring it walks is left as it was.
\<close>

theorem global_wakeup_mt_wakes_all:
  assumes "wait_list s xs" "\<forall>a\<in>set xs. ready s a" "uses_threads s"
    and "plain (wait_sync_lock s)" "mx_owner (wait_sync_lock s) = None"
    and "status \<noteq> cfg_SUCCESS cfg" "atomic_lib_ok (cfg_atomics cfg)"
  shows "wait_sync_global_wakeup cfg t status s =
           Some (Ret (s\<lparr>sync_at := (\<lambda>a. if a \<in> set xs then woken status (sync_at s a) else sync_at s a)\<rparr>))"
proof -
  have "threads_base_wait_sync_global_wakeup_mt cfg t status s = Some (Ret (wake_all status (set xs) s))"
    by (rule wakeup_mt_wake_all) (use assms in auto)
  then show ?thesis using assms(3) by (simp add: wait_sync_global_wakeup_def using_threads_def wake_all_def)
qed

theorem global_wakeup_mt_wakes_all_witness:
  "\<exists>s'. wait_sync_global_wakeup demo_cfg 0 4 two_pending = Some (Ret s') \<and>
        w_status (sync_at s' 1) = 4 \<and> w_count (sync_at s' 2) = 0"
proof -
  have "plain (wait_sync_lock two_pending)" "mx_owner (wait_sync_lock two_pending) = None"
    "uses_threads two_pending" "(4 :: i32) \<noteq> cfg_SUCCESS demo_cfg" "atomic_lib_ok (cfg_atomics demo_cfg)"
    by (simp_all add: two_pending_def blank_state_def demo_cfg_def ref_atomics_ok)
  with global_wakeup_mt_wakes_all [OF two_pending_list, of 4 demo_cfg 0] two_pending_ready
  show ?thesis by simp
qed

text \<open>
  C25. A successful update of a live, unlocked object subtracts the completed operations
  from the count. When the count does not reach zero nothing else changes; when it does,
  the waiting thread is signalled and \<open>signaling\<close> is cleared.
\<close>

theorem wait_sync_update_success:
  assumes "ready s a" "uses_threads s" "atomic_lib_ok (cfg_atomics cfg)"
    and "fits TYPE(32) (- sint updates)"
  shows "wait_sync_update cfg t a updates (cfg_SUCCESS cfg) s =
           Ret (upd_sync a (\<lambda>w. if w_count w = updates then signalled (w\<lparr>w_count := 0\<rparr>)
                               else w\<lparr>w_count := w_count w - updates\<rparr>) s)"
proof (cases "w_count (sync_at s a) = updates")
  case True
  let ?s1 = "upd_sync a (\<lambda>w. w\<lparr>w_count := 0\<rparr>) s"
  have "ready ?s1 a" "uses_threads ?s1" using assms(1,2) by (simp_all add: ready_def)
  note sig = WAIT_SYNC_SIGNAL_ready [OF this, of t]
  have "wait_sync_update cfg t a updates (cfg_SUCCESS cfg) s = WAIT_SYNC_SIGNAL t a ?s1"
    using assms True add32.opf_threads [OF assms(3)] by (simp add: wait_sync_update_def c_ssub_def)
  with sig True show ?thesis by (simp add: upd_sync_def)
next
  case False
  then have "w_count (sync_at s a) - updates \<noteq> 0" by simp
  with assms False add32.opf_threads [OF assms(3)] show ?thesis
    by (simp add: wait_sync_update_def c_ssub_def upd_sync_def)
qed

theorem wait_sync_update_success_witness:
  "\<exists>s'. wait_sync_update demo_cfg 0 1 3 0 two_pending = Ret s' \<and>
        w_count (sync_at s' 1) = 0 \<and> \<not> w_signaling (sync_at s' 1)"
proof -
  have c: "uses_threads two_pending" "atomic_lib_ok (cfg_atomics demo_cfg)" "cfg_SUCCESS demo_cfg = 0"
    "w_count (sync_at two_pending 1) = 3"
    by (simp_all add: two_pending_def blank_state_def demo_cfg_def ref_atomics_ok)
  show ?thesis
    using wait_sync_update_success [OF two_pending_ready c(1,2), of 3 0 1] c by (simp add: fits_def)
qed

text \<open>
  C26. The single-threaded wait returns exactly when some number of calls of \<open>progress()\<close>
  brings the count to zero or below, and then with the status the object has at the first
  such point and with no object registered.
\<close>

theorem sync_wait_st_total:
  assumes "threads_base_wait_sync_list s = None" "w_next (sync_at s a) = None"
  shows "if \<exists>n. count_after progress a s n \<le> 0
         then \<exists>n. count_after progress a s n \<le> 0 \<and> (\<forall>m<n. 0 < count_after progress a s m) \<and>
              sync_wait_st progress a s =
                Some (Ret (w_status (sync_at (state_after progress a s n) a),
                           (state_after progress a s n)\<lparr>threads_base_wait_sync_list := None\<rparr>))
         else sync_wait_st progress a s = None"
proof (cases "\<exists>n. count_after progress a s n \<le> 0")
  case True
  define n where "n = (LEAST n. count_after progress a s n \<le> 0)"
  from True have n: "count_after progress a s n \<le> 0" unfolding n_def by (rule LeastI_ex)
  have less: "\<forall>m<n. 0 < count_after progress a s m" unfolding n_def using not_less_Least by fastforce
  have "st_loop progress a (s\<lparr>threads_base_wait_sync_list := Some a\<rparr>) = Some (state_after progress a s n)"
    unfolding state_after_def
    by (rule st_loop_stops) (use n less in \<open>auto simp: count_after_def state_after_def\<close>)
  with assms have "sync_wait_st progress a s =
      Some (Ret (w_status (sync_at (state_after progress a s n) a),
                 (state_after progress a s n)\<lparr>threads_base_wait_sync_list := None\<rparr>))"
    by (simp add: sync_wait_st_def Let_def)
  with True n less show ?thesis by auto
next
  case False
  let ?s1 = "s\<lparr>threads_base_wait_sync_list := Some a\<rparr>"
  from False have "st_loop progress a ?s1 = None"
    using st_loop_result [of progress a ?s1]
    by (cases "st_loop progress a ?s1") (auto simp: count_after_def state_after_def)
  with assms False show ?thesis by (simp add: sync_wait_st_def)
qed

theorem sync_wait_st_total_witness:
  "\<exists>r. sync_wait_st demo_progress 1 demo_st = Some (Ret r)"
proof -
  have "count_after demo_progress 1 demo_st 2 \<le> 0"
    by (simp add: count_after_def state_after_def demo_progress_def demo_st_def blank_state_def
        numeral_2_eq_2)
  then have "\<exists>n. count_after demo_progress 1 demo_st n \<le> 0" by blast
  moreover have "threads_base_wait_sync_list demo_st = None" "w_next (sync_at demo_st 1) = None"
    by (simp_all add: demo_st_def blank_state_def blank_sync_def)
  ultimately show ?thesis
    using sync_wait_st_total [of demo_st 1 demo_progress] by auto
qed

end
