(* ===== verification/Wait_Machine.thy ===== *)
theory Wait_Machine
  imports Wait_Sync
begin

text \<open>
  The concurrent execution of \<open>ompi_sync_wait_mt\<close>, \<open>wait_sync_update\<close>,
  \<open>threads_base_wait_sync_global_wakeup_mt\<close> and \<open>WAIT_SYNC_RELEASE\<close>, as a machine whose
  threads each stand at a line of the source. One step is one access to shared state: a
  lock operation, a read or write of \<open>count\<close>, \<open>status\<close>, \<open>signaling\<close>, the head pointer or
  \<open>num_thread_in_progress\<close>, or one of the two list operations, which run under
  \<open>wait_sync_lock\<close>.

  \<open>progress()\<close> is not in the repository: for the waiting thread it is a step that does
  nothing, and the updates it makes are the steps of further threads of the machine. A
  thread of the machine is thus a running call, and a lock's owner is the call that took
  it; a waiting thread holds no lock while it calls \<open>progress()\<close>.
\<close>

section \<open>Positions\<close>

text \<open>
  Lines of \<open>ompi_sync_wait_mt\<close>; \<open>L82n\<close> is the second operand of the condition on line 82
  and \<open>L83w\<close> the inside of \<open>thread_internal_cond_wait\<close>. \<open>L121\<close> stands for all three
  \<open>return\<close> statements, which read \<open>status\<close>.
\<close>

datatype wline = L47 | L52 | L57 | L58 | L63 | L64 | L73 | L82 | L82n | L83 | L83w | L91 | L92
  | L98 | L100 | L101 | L105 | L109 | L110 | L119 | L121

text \<open>
  Lines of \<open>WAIT_SYNC_PASS_OWNERSHIP\<close>, of \<open>WAIT_SYNC_SIGNAL\<close>, of the global wake-up and of
  \<open>WAIT_SYNC_RELEASE\<close>.
\<close>

datatype pline = P36 | P37 | P38
datatype sline = S52 | S53 | S54 | S55
datatype gline = G17 | G18 | G29
datatype rline = R34 | R40 | R41

text \<open>Where \<open>wait_sync_update\<close> returns to: its caller, or the loop of the wake-up.\<close>

datatype cont = KReturn | KWakeup i32

datatype pc =
    Idle
  | Wait wline addr
  | Pass pline addr addr
  | Returned addr rc
  | Upd addr i32 i32 cont
  | Swp addr cont
  | Sig sline addr cont
  | Glob gline i32
  | GlobAt i32 addr
  | Rel rline addr
  | Released addr

text \<open>
  The machine's state adds to the program's the position of every thread and two records
  of what the callers have done: the objects some thread has started to wait on, and for
  each object the number of operations not yet reported to \<open>wait_sync_update\<close>.
\<close>

record ('c, 'm, 'g) machine = "('c, 'm, 'g) wait_state" +
  pc :: "tid \<Rightarrow> pc"
  waited :: "addr set"
  outstanding :: "addr \<Rightarrow> int"

type_synonym wait_machine = "(acond, amutex, amutex) machine"

definition goto :: "tid \<Rightarrow> pc \<Rightarrow> ('c, 'm, 'g) machine \<Rightarrow> ('c, 'm, 'g) machine" where
  "goto t p s = s\<lparr>pc := (pc s)(t := p)\<rparr>"

section \<open>Steps\<close>

text \<open>
  The functions of the backend the code calls: on an object's lock and condition, and on
  \<open>wait_sync_lock\<close>. Waiting on a condition is two steps, before and after the caller sleeps.
\<close>

record ('c, 'm, 'g) prims =
  p_lock :: "tid \<Rightarrow> 'm \<Rightarrow> 'm outcome"
  p_unlock :: "tid \<Rightarrow> 'm \<Rightarrow> 'm outcome"
  p_destroy :: "'m \<Rightarrow> 'm outcome"
  p_signal :: "tid \<Rightarrow> 'c \<Rightarrow> 'c outcome"
  p_wait_enter :: "tid \<Rightarrow> 'c \<Rightarrow> 'm \<Rightarrow> ('c \<times> 'm) outcome"
  p_wait_leave :: "tid \<Rightarrow> 'c \<Rightarrow> 'm \<Rightarrow> ('c \<times> 'm) outcome"
  p_cond_destroy :: "'c \<Rightarrow> 'c outcome"
  p_mutex_lock :: "tid \<Rightarrow> 'g \<Rightarrow> 'g outcome"
  p_mutex_unlock :: "tid \<Rightarrow> 'g \<Rightarrow> 'g outcome"

definition lock_on :: "('c, 'm, 'g) prims \<Rightarrow> tid \<Rightarrow> addr \<Rightarrow> ('c, 'm, 'g) machine \<Rightarrow> ('c, 'm, 'g) machine outcome" where
  "lock_on B t a s = obind (p_lock B t (w_lock (sync_at s a)))
     (\<lambda>m. Ret (upd_sync a (\<lambda>w. w\<lparr>w_lock := m\<rparr>) s))"

definition unlock_on :: "('c, 'm, 'g) prims \<Rightarrow> tid \<Rightarrow> addr \<Rightarrow> ('c, 'm, 'g) machine \<Rightarrow> ('c, 'm, 'g) machine outcome" where
  "unlock_on B t a s = obind (p_unlock B t (w_lock (sync_at s a)))
     (\<lambda>m. Ret (upd_sync a (\<lambda>w. w\<lparr>w_lock := m\<rparr>) s))"

definition destroy_on :: "('c, 'm, 'g) prims \<Rightarrow> addr \<Rightarrow> ('c, 'm, 'g) machine \<Rightarrow> ('c, 'm, 'g) machine outcome" where
  "destroy_on B a s = obind (p_destroy B (w_lock (sync_at s a)))
     (\<lambda>m. Ret (upd_sync a (\<lambda>w. w\<lparr>w_lock := m\<rparr>) s))"

definition signal_on :: "('c, 'm, 'g) prims \<Rightarrow> tid \<Rightarrow> addr \<Rightarrow> ('c, 'm, 'g) machine \<Rightarrow> ('c, 'm, 'g) machine outcome" where
  "signal_on B t a s = obind (p_signal B t (w_condition (sync_at s a)))
     (\<lambda>c. Ret (upd_sync a (\<lambda>w. w\<lparr>w_condition := c\<rparr>) s))"

definition wait_enter_on :: "('c, 'm, 'g) prims \<Rightarrow> tid \<Rightarrow> addr \<Rightarrow> ('c, 'm, 'g) machine \<Rightarrow> ('c, 'm, 'g) machine outcome" where
  "wait_enter_on B t a s = obind (p_wait_enter B t (w_condition (sync_at s a)) (w_lock (sync_at s a)))
     (\<lambda>(c, m). Ret (upd_sync a (\<lambda>w. w\<lparr>w_condition := c, w_lock := m\<rparr>) s))"

definition wait_leave_on :: "('c, 'm, 'g) prims \<Rightarrow> tid \<Rightarrow> addr \<Rightarrow> ('c, 'm, 'g) machine \<Rightarrow> ('c, 'm, 'g) machine outcome" where
  "wait_leave_on B t a s = obind (p_wait_leave B t (w_condition (sync_at s a)) (w_lock (sync_at s a)))
     (\<lambda>(c, m). Ret (upd_sync a (\<lambda>w. w\<lparr>w_condition := c, w_lock := m\<rparr>) s))"

definition cond_destroy_on :: "('c, 'm, 'g) prims \<Rightarrow> addr \<Rightarrow> ('c, 'm, 'g) machine \<Rightarrow> ('c, 'm, 'g) machine outcome" where
  "cond_destroy_on B a s = obind (p_cond_destroy B (w_condition (sync_at s a)))
     (\<lambda>c. Ret (upd_sync a (\<lambda>w. w\<lparr>w_condition := c\<rparr>) s))"

definition mutex_lock_on :: "('c, 'm, 'g) prims \<Rightarrow> tid \<Rightarrow> ('c, 'm, 'g) machine \<Rightarrow> ('c, 'm, 'g) machine outcome" where
  "mutex_lock_on B t s = obind (p_mutex_lock B t (wait_sync_lock s)) (\<lambda>m. Ret (s\<lparr>wait_sync_lock := m\<rparr>))"

definition mutex_unlock_on :: "('c, 'm, 'g) prims \<Rightarrow> tid \<Rightarrow> ('c, 'm, 'g) machine \<Rightarrow> ('c, 'm, 'g) machine outcome" where
  "mutex_unlock_on B t s = obind (p_mutex_unlock B t (wait_sync_lock s)) (\<lambda>m. Ret (s\<lparr>wait_sync_lock := m\<rparr>))"

text \<open>\<open>THREAD_LOCK(&wait_sync_lock)\<close> and \<open>THREAD_UNLOCK(&wait_sync_lock)\<close>.\<close>

definition wsl_lock_on :: "('c, 'm, 'g) prims \<Rightarrow> tid \<Rightarrow> ('c, 'm, 'g) machine \<Rightarrow> ('c, 'm, 'g) machine outcome" where
  "wsl_lock_on B t s = (if using_threads (uses_threads s) then mutex_lock_on B t s else Ret s)"

definition wsl_unlock_on :: "('c, 'm, 'g) prims \<Rightarrow> tid \<Rightarrow> ('c, 'm, 'g) machine \<Rightarrow> ('c, 'm, 'g) machine outcome" where
  "wsl_unlock_on B t s = (if using_threads (uses_threads s) then mutex_unlock_on B t s else Ret s)"

definition in_progress_add :: "wait_cfg \<Rightarrow> i32 \<Rightarrow> ('c, 'm, 'g) machine \<Rightarrow> ('c, 'm, 'g) machine outcome" where
  "in_progress_add cfg d s =
     obind (thread_add_fetch_32 (uses_threads s) (cfg_atomics cfg) (num_thread_in_progress s) d)
       (\<lambda>(n, _). Ret (s\<lparr>num_thread_in_progress := n\<rparr>))"

definition completed :: "('c, 'm, 'g) machine \<Rightarrow> addr \<Rightarrow> bool" where
  "completed s a \<longleftrightarrow> sint (w_count (sync_at s a)) \<le> 0"

definition wait_result :: "('c, 'm, 'g) machine \<Rightarrow> addr \<Rightarrow> rc" where
  "wait_result s a = (if 0 = w_status (sync_at s a) then SUCCESS else ERROR)"

fun exec_wait :: "('c, 'm, 'g) prims \<Rightarrow> wait_cfg \<Rightarrow> tid \<Rightarrow> wline \<Rightarrow> addr \<Rightarrow> ('c, 'm, 'g) machine \<Rightarrow> ('c, 'm, 'g) machine outcome" where
  "exec_wait B cfg t L47 a s = Ret (goto t (Wait (if completed s a then L121 else L52) a) s)"
| "exec_wait B cfg t L52 a s = obind (lock_on B t a s) (\<lambda>s. Ret (goto t (Wait L57 a) s))"
| "exec_wait B cfg t L57 a s = Ret (goto t (Wait (if completed s a then L58 else L63) a) s)"
| "exec_wait B cfg t L58 a s = obind (unlock_on B t a s) (\<lambda>s. Ret (goto t (Wait L121 a) s))"
| "exec_wait B cfg t L63 a s = obind (wsl_lock_on B t s) (\<lambda>s. Ret (goto t (Wait L64 a) s))"
| "exec_wait B cfg t L64 a s = obind (wait_list_insert a s) (\<lambda>s. Ret (goto t (Wait L73 a) s))"
| "exec_wait B cfg t L73 a s = obind (wsl_unlock_on B t s) (\<lambda>s. Ret (goto t (Wait L82 a) s))"
| "exec_wait B cfg t L82 a s =
     Ret (goto t (Wait (if Some a \<noteq> threads_base_wait_sync_list s then L82n else L98) a) s)"
| "exec_wait B cfg t L82n a s =
     Ret (goto t (Wait (if sint (cfg_max_thread_in_progress cfg) \<le> sint (num_thread_in_progress s)
                        then L83 else L98) a) s)"
| "exec_wait B cfg t L83 a s =
     obind (wait_enter_on B t a s) (\<lambda>s. Ret (goto t (Wait L83w a) s))"
| "exec_wait B cfg t L83w a s =
     obind (wait_leave_on B t a s) (\<lambda>s. Ret (goto t (Wait L91 a) s))"
| "exec_wait B cfg t L91 a s = Ret (goto t (Wait (if completed s a then L92 else L82) a) s)"
| "exec_wait B cfg t L92 a s = obind (unlock_on B t a s) (\<lambda>s. Ret (goto t (Wait L109 a) s))"
| "exec_wait B cfg t L98 a s = obind (unlock_on B t a s) (\<lambda>s. Ret (goto t (Wait L100 a) s))"
| "exec_wait B cfg t L100 a s = obind (in_progress_add cfg 1 s) (\<lambda>s. Ret (goto t (Wait L101 a) s))"
| "exec_wait B cfg t L101 a s = Ret (goto t (Wait (if completed s a then L105 else L101) a) s)"
| "exec_wait B cfg t L105 a s = obind (in_progress_add cfg (-1) s) (\<lambda>s. Ret (goto t (Wait L109 a) s))"
| "exec_wait B cfg t L109 a s = obind (wsl_lock_on B t s) (\<lambda>s. Ret (goto t (Wait L110 a) s))"
| "exec_wait B cfg t L110 a s = obind (wait_list_remove a s)
     (\<lambda>(n, s). Ret (goto t (case n of None \<Rightarrow> Wait L119 a | Some b \<Rightarrow> Pass P36 a b) s))"
| "exec_wait B cfg t L119 a s = obind (wsl_unlock_on B t s) (\<lambda>s. Ret (goto t (Wait L121 a) s))"
| "exec_wait B cfg t L121 a s = Ret (goto t (Returned a (wait_result s a)) s)"

fun exec_pass :: "('c, 'm, 'g) prims \<Rightarrow> tid \<Rightarrow> pline \<Rightarrow> addr \<Rightarrow> addr \<Rightarrow> ('c, 'm, 'g) machine \<Rightarrow> ('c, 'm, 'g) machine outcome" where
  "exec_pass B t P36 a b s = obind (lock_on B t b s) (\<lambda>s. Ret (goto t (Pass P37 a b) s))"
| "exec_pass B t P37 a b s = obind (signal_on B t b s) (\<lambda>s. Ret (goto t (Pass P38 a b) s))"
| "exec_pass B t P38 a b s = obind (unlock_on B t b s) (\<lambda>s. Ret (goto t (Wait L119 a) s))"

fun cont_pc :: "addr \<Rightarrow> cont \<Rightarrow> pc" where
  "cont_pc a KReturn = Idle"
| "cont_pc a (KWakeup status) = GlobAt status a"

fun exec_sig :: "('c, 'm, 'g) prims \<Rightarrow> tid \<Rightarrow> sline \<Rightarrow> addr \<Rightarrow> cont \<Rightarrow> ('c, 'm, 'g) machine \<Rightarrow> ('c, 'm, 'g) machine outcome" where
  "exec_sig B t S52 a k s =
     (if using_threads (uses_threads s)
      then obind (lock_on B t a s) (\<lambda>s. Ret (goto t (Sig S53 a k) s))
      else Ret (goto t (cont_pc a k) s))"
| "exec_sig B t S53 a k s = obind (signal_on B t a s) (\<lambda>s. Ret (goto t (Sig S54 a k) s))"
| "exec_sig B t S54 a k s = obind (unlock_on B t a s) (\<lambda>s. Ret (goto t (Sig S55 a k) s))"
| "exec_sig B t S55 a k s =
     Ret (goto t (cont_pc a k) (upd_sync a (\<lambda>w. w\<lparr>w_signaling := False\<rparr>) s))"

definition exec_upd ::
  "wait_cfg \<Rightarrow> tid \<Rightarrow> addr \<Rightarrow> i32 \<Rightarrow> i32 \<Rightarrow> cont \<Rightarrow> ('c, 'm, 'g) machine \<Rightarrow> ('c, 'm, 'g) machine outcome" where
  "exec_upd cfg t a updates status k s =
     (if cfg_SUCCESS cfg = status then
        obind (c_ssub 0 updates) (\<lambda>delta.
          obind (thread_add_fetch_32 (uses_threads s) (cfg_atomics cfg) (w_count (sync_at s a)) delta)
            (\<lambda>(count, result).
              Ret (goto t (if result \<noteq> 0 then cont_pc a k else Sig S52 a k)
                     (upd_sync a (\<lambda>w. w\<lparr>w_count := count\<rparr>) s))))
      else Ret (goto t (Swp a k) (upd_sync a (\<lambda>w. w\<lparr>w_status := status\<rparr>) s)))"

definition exec_swp :: "wait_cfg \<Rightarrow> tid \<Rightarrow> addr \<Rightarrow> cont \<Rightarrow> ('c, 'm, 'g) machine \<Rightarrow> ('c, 'm, 'g) machine outcome" where
  "exec_swp cfg t a k s =
     Ret (goto t (Sig S52 a k)
       (upd_sync a (\<lambda>w. w\<lparr>w_count := fst (atomic_swap (cfg_atomics cfg) (w_count w) 0)\<rparr>) s))"

text \<open>The head of the loop of the global wake-up: a null pointer ends it.\<close>

definition glob_next :: "i32 \<Rightarrow> addr option \<Rightarrow> pc" where
  "glob_next status cur =
     (case cur of None \<Rightarrow> Glob G29 status | Some a \<Rightarrow> Upd a 0 status (KWakeup status))"

fun exec_glob :: "('c, 'm, 'g) prims \<Rightarrow> tid \<Rightarrow> gline \<Rightarrow> i32 \<Rightarrow> ('c, 'm, 'g) machine \<Rightarrow> ('c, 'm, 'g) machine outcome" where
  "exec_glob B t G17 status s = obind (mutex_lock_on B t s) (\<lambda>s. Ret (goto t (Glob G18 status) s))"
| "exec_glob B t G18 status s = Ret (goto t (glob_next status (threads_base_wait_sync_list s)) s)"
| "exec_glob B t G29 status s = obind (mutex_unlock_on B t s) (\<lambda>s. Ret (goto t Idle s))"

definition exec_globat :: "tid \<Rightarrow> i32 \<Rightarrow> addr \<Rightarrow> ('c, 'm, 'g) machine \<Rightarrow> ('c, 'm, 'g) machine outcome" where
  "exec_globat t status a s =
     Ret (goto t (if w_next (sync_at s a) = threads_base_wait_sync_list s then Glob G29 status
                  else glob_next status (w_next (sync_at s a))) s)"

fun exec_rel :: "('c, 'm, 'g) prims \<Rightarrow> tid \<Rightarrow> rline \<Rightarrow> addr \<Rightarrow> ('c, 'm, 'g) machine \<Rightarrow> ('c, 'm, 'g) machine outcome" where
  "exec_rel B t R34 a s =
     (if \<not> using_threads (uses_threads s) then Ret (goto t (Released a) s)
      else if w_signaling (sync_at s a) then Block
      else Ret (goto t (Rel R40 a) s))"
| "exec_rel B t R40 a s = obind (cond_destroy_on B a s) (\<lambda>s. Ret (goto t (Rel R41 a) s))"
| "exec_rel B t R41 a s = obind (destroy_on B a s) (\<lambda>s. Ret (goto t (Released a) s))"

text \<open>The next step of a thread; a thread that is not in a call has none.\<close>

definition exec_on :: "('c, 'm, 'g) prims \<Rightarrow> wait_cfg \<Rightarrow> tid \<Rightarrow> ('c, 'm, 'g) machine \<Rightarrow> ('c, 'm, 'g) machine outcome" where
  "exec_on B cfg t s =
     (case pc s t of
        Idle \<Rightarrow> Block
      | Wait l a \<Rightarrow> exec_wait B cfg t l a s
      | Pass p a b \<Rightarrow> exec_pass B t p a b s
      | Returned a r \<Rightarrow> Block
      | Upd a u st k \<Rightarrow> exec_upd cfg t a u st k s
      | Swp a k \<Rightarrow> exec_swp cfg t a k s
      | Sig l a k \<Rightarrow> exec_sig B t l a k s
      | Glob g st \<Rightarrow> exec_glob B t g st s
      | GlobAt st a \<Rightarrow> exec_globat t st a s
      | Rel r a \<Rightarrow> exec_rel B t r a s
      | Released a \<Rightarrow> Block)"

section \<open>The machine over abstract locks\<close>

text \<open>
  The safety and liveness proofs take the locks and conditions of \<open>Sync_Spec\<close>; the theory
  \<open>Wait_Backend\<close> shows that the machine over a backend does the same.
\<close>

definition spec_prims :: "(acond, amutex, amutex) prims" where
  "spec_prims = \<lparr>p_lock = amutex_lock, p_unlock = amutex_unlock, p_destroy = amutex_destroy,
     p_signal = (\<lambda>_. acond_signal), p_wait_enter = acond_wait_begin,
     p_wait_leave = (\<lambda>t c m. obind (acond_wait_end t c m) (\<lambda>m. Ret (c, m))),
     p_cond_destroy = acond_destroy, p_mutex_lock = amutex_lock, p_mutex_unlock = amutex_unlock\<rparr>"

abbreviation exec :: "wait_cfg \<Rightarrow> tid \<Rightarrow> wait_machine \<Rightarrow> wait_machine outcome" where
  "exec \<equiv> exec_on spec_prims"

lemma spec_steps [simp]:
  "lock_on spec_prims t a s = sync_lock t a s"
  "unlock_on spec_prims t a s = sync_unlock t a s"
  "signal_on spec_prims t a s = sync_signal a s"
  "destroy_on spec_prims a s = obind (amutex_destroy (w_lock (sync_at s a)))
     (\<lambda>m. Ret (upd_sync a (\<lambda>w. w\<lparr>w_lock := m\<rparr>) s))"
  "cond_destroy_on spec_prims a s = obind (acond_destroy (w_condition (sync_at s a)))
     (\<lambda>c. Ret (upd_sync a (\<lambda>w. w\<lparr>w_condition := c\<rparr>) s))"
  "wait_enter_on spec_prims t a s = obind (acond_wait_begin t (w_condition (sync_at s a)) (w_lock (sync_at s a)))
     (\<lambda>(c, m). Ret (upd_sync a (\<lambda>w. w\<lparr>w_condition := c, w_lock := m\<rparr>) s))"
  "wait_leave_on spec_prims t a s = obind (acond_wait_end t (w_condition (sync_at s a)) (w_lock (sync_at s a)))
     (\<lambda>m. Ret (upd_sync a (\<lambda>w. w\<lparr>w_lock := m\<rparr>) s))"
  "mutex_lock_on spec_prims t s = obind (amutex_lock t (wait_sync_lock s)) (\<lambda>m. Ret (s\<lparr>wait_sync_lock := m\<rparr>))"
  "mutex_unlock_on spec_prims t s = obind (amutex_unlock t (wait_sync_lock s)) (\<lambda>m. Ret (s\<lparr>wait_sync_lock := m\<rparr>))"
  by (simp_all add: lock_on_def unlock_on_def signal_on_def destroy_on_def cond_destroy_on_def wait_enter_on_def
      wait_leave_on_def mutex_lock_on_def mutex_unlock_on_def spec_prims_def sync_lock_def sync_unlock_def
      sync_signal_def obind_assoc upd_sync_def)

section \<open>Calls\<close>

datatype call = CWait addr | CUpdate addr i32 i32 | CWakeup i32 | CRelease addr

text \<open>
  The start of a call. An object is waited on once in its life, and released by the thread
  that waited.
\<close>

fun start_call :: "wait_cfg \<Rightarrow> tid \<Rightarrow> call \<Rightarrow> ('c, 'm, 'g) machine \<Rightarrow> ('c, 'm, 'g) machine option" where
  "start_call cfg t (CWait a) s =
     (if pc s t = Idle \<and> a \<notin> waited s
      then Some (goto t (Wait L47 a) (s\<lparr>waited := insert a (waited s)\<rparr>)) else None)"
| "start_call cfg t (CUpdate a u st) s =
     (if pc s t = Idle
      then Some (goto t (Upd a u st KReturn)
             (s\<lparr>outstanding := (outstanding s)(a := outstanding s a - sint u)\<rparr>)) else None)"
| "start_call cfg t (CWakeup st) s =
     (if pc s t = Idle then Some (goto t (Glob G17 st) s) else None)"
| "start_call cfg t (CRelease a) s =
     (case pc s t of Returned b r \<Rightarrow> if a = b then Some (goto t (Rel R34 a) s) else None | _ \<Rightarrow> None)"

text \<open>
  \<open>SYNC_WAIT\<close>: with threads the start of \<open>ompi_sync_wait_mt\<close>, without them the result of
  \<open>sync_wait_st\<close>.
\<close>

definition SYNC_WAIT :: "wait_cfg \<Rightarrow> (wait_machine \<Rightarrow> wait_machine) \<Rightarrow> tid \<Rightarrow> addr \<Rightarrow> wait_machine \<Rightarrow>
    wait_machine option + (i32 \<times> wait_machine) outcome option" where
  "SYNC_WAIT cfg progress t sync s =
     (if using_threads (uses_threads s) then Inl (start_call cfg t (CWait sync) s) else Inr (sync_wait_st progress sync s))"

text \<open>
  Two kinds of callers: any at all, and those that report each operation at most once and
  no error. A condition variable may also wake a thread that nobody signalled.
\<close>

type_synonym client = "wait_machine \<Rightarrow> call \<Rightarrow> bool"

definition any_client :: client where
  "any_client s c = True"

fun exact_client :: "wait_cfg \<Rightarrow> ('c, 'm, 'g) machine \<Rightarrow> call \<Rightarrow> bool" where
  "exact_client cfg s (CUpdate a u st) \<longleftrightarrow>
     st = cfg_SUCCESS cfg \<and> 0 < sint u \<and> sint u \<le> outstanding s a"
| "exact_client cfg s (CWakeup st) \<longleftrightarrow> False"
| "exact_client cfg s c \<longleftrightarrow> True"

definition spurious :: "tid \<Rightarrow> addr \<Rightarrow> wait_machine \<Rightarrow> wait_machine" where
  "spurious t a s = upd_sync a (\<lambda>w. w\<lparr>w_condition := (w_condition w)
     \<lparr>cv_waiters := remove1 t (cv_waiters (w_condition w))\<rparr>\<rparr>) s"

inductive wstep :: "wait_cfg \<Rightarrow> client \<Rightarrow> wait_machine \<Rightarrow> wait_machine \<Rightarrow> bool"
  for cfg client where
  run: "t < cfg_threads cfg \<Longrightarrow> exec cfg t s = Ret s' \<Longrightarrow> wstep cfg client s s'"
| call: "t < cfg_threads cfg \<Longrightarrow> client s c \<Longrightarrow> start_call cfg t c s = Some s' \<Longrightarrow> wstep cfg client s s'"
| wake: "wstep cfg client s (spurious t a s)"

text \<open>At the start threads are in use and every object has been initialised.\<close>

definition init_machine :: "(addr \<Rightarrow> i32) \<Rightarrow> wait_machine" where
  "init_machine c = \<lparr>uses_threads = True,
     sync_at = (\<lambda>a. \<lparr>w_count = c a, w_status = 0, w_condition = acond_init, w_lock = amutex_init False,
                    w_next = None, w_prev = None, w_signaling = (0 \<noteq> c a)\<rparr>),
     threads_base_wait_sync_list = None, wait_sync_lock = amutex_init False,
     num_thread_in_progress = 0, pc = (\<lambda>_. Idle), waited = {}, outstanding = (\<lambda>a. sint (c a))\<rparr>"

definition wait_init :: "wait_machine \<Rightarrow> bool" where
  "wait_init s \<longleftrightarrow> (\<exists>c. s = init_machine c)"

end
