(* ===== verification/Wait_Inv.thy ===== *)
theory Wait_Inv
  imports Wait_Machine
begin

text \<open>
  Invariants of the wait machine that hold for every caller: who holds which lock, that at
  most one thread waits on an object, that the ring holds exactly the objects whose threads
  are between linking and unlinking, and that the thread whose object is at the head of the
  ring is never left asleep.
\<close>

section \<open>Attributes of a position\<close>

text \<open>The object lock held at a position, and whether \<open>wait_sync_lock\<close> is held there.\<close>

fun holds :: "pc \<Rightarrow> addr option" where
  "holds (Wait l a) =
     (if l \<in> {L57, L58, L63, L64, L73, L82, L82n, L83, L91, L92, L98} then Some a else None)"
| "holds (Pass p a b) = (if p \<in> {P37, P38} then Some b else None)"
| "holds (Sig l a k) = (if l \<in> {S53, S54} then Some a else None)"
| "holds _ = None"

fun in_wakeup :: "cont \<Rightarrow> bool" where
  "in_wakeup KReturn = False"
| "in_wakeup (KWakeup st) = True"

fun holds_wsl :: "pc \<Rightarrow> bool" where
  "holds_wsl (Wait l a) = (l \<in> {L64, L73, L110, L119})"
| "holds_wsl (Pass p a b) = True"
| "holds_wsl (Upd a u st k) = in_wakeup k"
| "holds_wsl (Swp a k) = in_wakeup k"
| "holds_wsl (Sig l a k) = in_wakeup k"
| "holds_wsl (Glob g st) = (g \<in> {G18, G29})"
| "holds_wsl (GlobAt st a) = True"
| "holds_wsl _ = False"

text \<open>The object a thread waits on or is to release, and the one it has in the ring.\<close>

fun owns :: "pc \<Rightarrow> addr option" where
  "owns (Wait l a) = Some a"
| "owns (Pass p a b) = Some a"
| "owns (Returned a r) = Some a"
| "owns (Rel r a) = Some a"
| "owns _ = None"

fun onlist :: "pc \<Rightarrow> addr option" where
  "onlist (Wait l a) =
     (if l \<in> {L73, L82, L82n, L83, L83w, L91, L92, L98, L100, L101, L105, L109, L110}
      then Some a else None)"
| "onlist _ = None"

text \<open>The object a running global wake-up is at.\<close>

fun visits :: "pc \<Rightarrow> addr option" where
  "visits (Upd a u st k) = (if in_wakeup k then Some a else None)"
| "visits (Swp a k) = (if in_wakeup k then Some a else None)"
| "visits (Sig l a k) = (if in_wakeup k then Some a else None)"
| "visits (GlobAt st a) = Some a"
| "visits _ = None"

lemma attrs_cont_pc [simp]:
  "holds (cont_pc a k) = None" "owns (cont_pc a k) = None" "onlist (cont_pc a k) = None"
  "holds_wsl (cont_pc a k) = in_wakeup k" "visits (cont_pc a k) = (if in_wakeup k then Some a else None)"
  by (cases k; simp)+

lemma attrs_glob_next [simp]:
  "holds (glob_next st c) = None" "owns (glob_next st c) = None" "onlist (glob_next st c) = None"
  "holds_wsl (glob_next st c) = True" "visits (glob_next st c) = c"
  by (simp_all add: glob_next_def split: option.split)

lemma onlist_owns: "onlist p = Some a \<Longrightarrow> owns p = Some a"
  by (cases p) (auto split: if_splits)

section \<open>Step lemmas\<close>

definition wf_lock :: "amutex \<Rightarrow> bool" where
  "wf_lock m \<longleftrightarrow> \<not> mx_recursive m \<and> mx_depth m = (if mx_owner m = None then 0 else 1)"

lemma wf_lock_init [simp]: "wf_lock (amutex_init False)"
  by (simp add: wf_lock_def amutex_init_def)

lemma wf_lock_upd [simp]:
  "wf_lock m \<Longrightarrow> wf_lock (m\<lparr>mx_owner := Some t, mx_depth := Suc 0\<rparr>)"
  "wf_lock m \<Longrightarrow> wf_lock (m\<lparr>mx_owner := None, mx_depth := 0\<rparr>)"
  "wf_lock m \<Longrightarrow> wf_lock (m\<lparr>mx_live := l\<rparr>)"
  by (simp_all add: wf_lock_def)

lemma amutex_lock_Ret:
  "wf_lock m \<Longrightarrow> amutex_lock t m = Ret m' \<longleftrightarrow>
     mx_live m \<and> mx_owner m = None \<and> m' = m\<lparr>mx_owner := Some t, mx_depth := Suc 0\<rparr>"
  by (auto simp: amutex_lock_def wf_lock_def split: option.splits)

lemma amutex_unlock_Ret:
  "wf_lock m \<Longrightarrow> amutex_unlock t m = Ret m' \<longleftrightarrow>
     mx_live m \<and> mx_owner m = Some t \<and> m' = m\<lparr>mx_owner := None, mx_depth := 0\<rparr>"
  by (auto simp: amutex_unlock_def wf_lock_def)

lemma amutex_destroy_Ret:
  "amutex_destroy m = Ret m' \<longleftrightarrow> mx_live m \<and> mx_owner m = None \<and> m' = m\<lparr>mx_live := False\<rparr>"
  by (auto simp: amutex_destroy_def)

lemma acond_Ret:
  "acond_signal c = Ret c' \<longleftrightarrow> cv_live c \<and> c' = c\<lparr>cv_waiters := tl (cv_waiters c)\<rparr>"
  "acond_destroy c = Ret c' \<longleftrightarrow> cv_live c \<and> cv_waiters c = [] \<and> c' = c\<lparr>cv_live := False\<rparr>"
  "acond_block t c = Ret c' \<longleftrightarrow> cv_live c \<and> c' = c\<lparr>cv_waiters := cv_waiters c @ [t]\<rparr>"
  by (auto simp: acond_signal_def acond_destroy_def acond_block_def)

lemma goto_fields [simp]:
  "uses_threads (goto t p s) = uses_threads s" "sync_at (goto t p s) = sync_at s"
  "threads_base_wait_sync_list (goto t p s) = threads_base_wait_sync_list s"
  "wait_sync_lock (goto t p s) = wait_sync_lock s"
  "num_thread_in_progress (goto t p s) = num_thread_in_progress s"
  "pc (goto t p s) = (pc s)(t := p)" "waited (goto t p s) = waited s"
  "outstanding (goto t p s) = outstanding s"
  by (simp_all add: goto_def)

lemma upd_sync_machine [simp]:
  "pc (upd_sync a f s) = pc s" "waited (upd_sync a f s) = waited s"
  "outstanding (upd_sync a f s) = outstanding s"
  by (simp_all add: upd_sync_def)

lemma wait_list_insert_links: "wait_list_insert a s = Ret s' \<Longrightarrow> same_but_links s s'"
  by (auto simp: wait_list_insert_def same_but_links_def core_def upd_sync_def Let_def
      split: option.splits)

lemma wait_list_remove_links: "wait_list_remove a s = Ret (n, s') \<Longrightarrow> same_but_links s s'"
  by (auto simp: wait_list_remove_def same_but_links_def core_def upd_sync_def Let_def
      split: option.splits if_splits)

lemma same_but_links_fields:
  assumes "same_but_links s (s' :: ('c, 'm, 'g) machine)"
  shows "uses_threads s' = uses_threads s" "wait_sync_lock s' = wait_sync_lock s"
    "num_thread_in_progress s' = num_thread_in_progress s"
    "pc s' = pc s" "waited s' = waited s" "outstanding s' = outstanding s"
    "w_count (sync_at s' a) = w_count (sync_at s a)" "w_status (sync_at s' a) = w_status (sync_at s a)"
    "w_condition (sync_at s' a) = w_condition (sync_at s a)" "w_lock (sync_at s' a) = w_lock (sync_at s a)"
    "w_signaling (sync_at s' a) = w_signaling (sync_at s a)"
proof -
  let ?r = "s'\<lparr>sync_at := sync_at s, threads_base_wait_sync_list := threads_base_wait_sync_list s\<rparr>"
  from assms have r: "?r = s" and c: "core (sync_at s' a) = core (sync_at s a)"
    by (simp_all add: same_but_links_def)
  show "uses_threads s' = uses_threads s" "wait_sync_lock s' = wait_sync_lock s"
    "num_thread_in_progress s' = num_thread_in_progress s"
    "pc s' = pc s" "waited s' = waited s" "outstanding s' = outstanding s"
    by (subst r [symmetric], simp)+
  show "w_count (sync_at s' a) = w_count (sync_at s a)" "w_status (sync_at s' a) = w_status (sync_at s a)"
    "w_condition (sync_at s' a) = w_condition (sync_at s a)" "w_lock (sync_at s' a) = w_lock (sync_at s a)"
    "w_signaling (sync_at s' a) = w_signaling (sync_at s a)"
    by (rule core_eq_fields [OF c])+
qed

lemmas exec_def = exec_on_def

lemmas exec_defs = exec_def exec_upd_def exec_swp_def exec_globat_def sync_lock_def sync_unlock_def
  sync_signal_def wsl_lock_on_def wsl_unlock_on_def in_progress_add_def acond_wait_begin_def
  acond_wait_end_def using_threads_def

lemmas Ret_simps = amutex_lock_Ret amutex_unlock_Ret amutex_destroy_Ret acond_Ret

section \<open>Locks\<close>

definition inv_locks :: "wait_machine \<Rightarrow> bool" where
  "inv_locks s \<longleftrightarrow> uses_threads s \<and> mx_live (wait_sync_lock s) \<and> wf_lock (wait_sync_lock s) \<and>
     (\<forall>a. wf_lock (w_lock (sync_at s a))) \<and>
     (\<forall>t a. holds (pc s t) = Some a \<longleftrightarrow> mx_owner (w_lock (sync_at s a)) = Some t) \<and>
     (\<forall>t. holds_wsl (pc s t) \<longleftrightarrow> mx_owner (wait_sync_lock s) = Some t)"

lemma inv_locksD:
  assumes "inv_locks s"
  shows "uses_threads s" "mx_live (wait_sync_lock s)" "wf_lock (wait_sync_lock s)"
    "wf_lock (w_lock (sync_at s a))"
    "holds (pc s t) = Some a \<longleftrightarrow> mx_owner (w_lock (sync_at s a)) = Some t"
    "holds_wsl (pc s t) \<longleftrightarrow> mx_owner (wait_sync_lock s) = Some t"
  using assms by (simp_all add: inv_locks_def)

text \<open>
  A step of one thread keeps the correspondence between positions and owners if it keeps it
  for that thread and leaves the other owners alone.
\<close>

lemma inv_locks_upd:
  assumes "inv_locks s" "uses_threads s'" "mx_live (wait_sync_lock s')" "wf_lock (wait_sync_lock s')"
    and "\<And>a. wf_lock (w_lock (sync_at s' a))" and pc: "pc s' = (pc s)(t := p)"
    and "\<And>a u. u \<noteq> t \<Longrightarrow> mx_owner (w_lock (sync_at s' a)) = Some u \<longleftrightarrow> mx_owner (w_lock (sync_at s a)) = Some u"
    and "\<And>u. u \<noteq> t \<Longrightarrow> mx_owner (wait_sync_lock s') = Some u \<longleftrightarrow> mx_owner (wait_sync_lock s) = Some u"
    and "\<And>a. holds p = Some a \<longleftrightarrow> mx_owner (w_lock (sync_at s' a)) = Some t"
    and "holds_wsl p \<longleftrightarrow> mx_owner (wait_sync_lock s') = Some t"
  shows "inv_locks s'"
  using assms by (auto simp: inv_locks_def)

lemma inv_locks_exec_wait:
  assumes inv: "inv_locks s" and p: "pc s t = Wait l a" and ex: "exec_wait spec_prims cfg t l a s = Ret s'"
  shows "inv_locks s'"
proof -
  note d = inv_locksD [OF inv]
  have ht: "\<forall>b. holds (Wait l a) = Some b \<longrightarrow> mx_owner (w_lock (sync_at s b)) = Some t"
    and hn: "\<forall>b. holds (Wait l a) \<noteq> Some b \<longrightarrow> mx_owner (w_lock (sync_at s b)) \<noteq> Some t"
    and wt: "mx_owner (wait_sync_lock s) = Some t \<longleftrightarrow> holds_wsl (Wait l a)"
    using d(5) [of t] d(6) [of t] p by simp_all
  show ?thesis
    using ex ht hn wt
    by (cases l) (auto intro!: inv_locks_upd [OF inv, of _ t] simp: d(1-4) exec_defs Ret_simps
        dest!: wait_list_insert_links wait_list_remove_links simp: same_but_links_fields
        split: option.splits if_splits)
qed

text \<open>The other positions, in the same way.\<close>

lemma inv_locks_exec_other:
  assumes inv: "inv_locks s" and p: "pc s t = p" and np: "\<And>l a. p \<noteq> Wait l a" and ex: "exec cfg t s = Ret s'"
  shows "inv_locks s'"
proof -
  note d = inv_locksD [OF inv]
  have ht: "\<forall>b. holds p = Some b \<longrightarrow> mx_owner (w_lock (sync_at s b)) = Some t"
    and hn: "\<forall>b. holds p \<noteq> Some b \<longrightarrow> mx_owner (w_lock (sync_at s b)) \<noteq> Some t"
    and wt: "mx_owner (wait_sync_lock s) = Some t \<longleftrightarrow> holds_wsl p"
    using d(5) [of t] d(6) [of t] p by simp_all
  show ?thesis
  proof (cases p)
    case (Pass pl a b)
    with ex ht hn wt p show ?thesis
      by (cases pl) (auto intro!: inv_locks_upd [OF inv, of _ t] simp: d(1-4) exec_defs Ret_simps
          split: if_splits)
  next
    case (Sig sl a k)
    with ex ht hn wt p show ?thesis
      by (cases sl) (auto intro!: inv_locks_upd [OF inv, of _ t] simp: d(1-4) exec_defs Ret_simps
          split: if_splits)
  next
    case (Glob g st)
    with ex ht hn wt p show ?thesis
      by (cases g) (auto intro!: inv_locks_upd [OF inv, of _ t] simp: d(1-4) exec_defs Ret_simps
          split: if_splits)
  next
    case (Rel r a)
    with ex ht hn wt p show ?thesis
      by (cases r) (auto intro!: inv_locks_upd [OF inv, of _ t] simp: d(1-4) exec_defs Ret_simps
          split: if_splits)
  qed (use ex ht hn wt p np in \<open>auto intro!: inv_locks_upd [OF inv, of _ t] simp: d(1-4) exec_defs Ret_simps
          split: if_splits\<close>)
qed

lemma inv_locks_exec:
  assumes inv: "inv_locks s" and ex: "exec cfg t s = Ret s'"
  shows "inv_locks s'"
proof (cases "\<exists>l a. pc s t = Wait l a")
  case True
  then obtain l a where p: "pc s t = Wait l a" by blast
  with ex have "exec_wait spec_prims cfg t l a s = Ret s'" by (simp add: exec_def)
  with inv p show ?thesis by (rule inv_locks_exec_wait)
next
  case False
  then show ?thesis by (intro inv_locks_exec_other [OF inv refl _ ex]) auto
qed

lemma inv_locks_call:
  assumes inv: "inv_locks s" and st: "start_call cfg t c s = Some s'"
  shows "inv_locks s'"
proof -
  note d = inv_locksD [OF inv]
  have ht: "\<forall>b. holds (pc s t) = Some b \<longrightarrow> mx_owner (w_lock (sync_at s b)) = Some t"
    and hn: "\<forall>b. holds (pc s t) \<noteq> Some b \<longrightarrow> mx_owner (w_lock (sync_at s b)) \<noteq> Some t"
    and wt: "mx_owner (wait_sync_lock s) = Some t \<longleftrightarrow> holds_wsl (pc s t)"
    using d(5) [of t] d(6) [of t] by simp_all
  show ?thesis
    using st ht hn wt
    by (cases c) (auto intro!: inv_locks_upd [OF inv, of _ t] simp: d(1-4) split: if_splits pc.splits)
qed

lemma inv_locks_spurious: "inv_locks s \<Longrightarrow> inv_locks (spurious t a s)"
  by (simp add: inv_locks_def spurious_def)

lemma inv_locks_step: "inv_locks s \<Longrightarrow> wstep cfg client s s' \<Longrightarrow> inv_locks s'"
  by (erule wstep.cases) (auto intro: inv_locks_exec inv_locks_call inv_locks_spurious)

lemma inv_locks_init: "wait_init s \<Longrightarrow> inv_locks s"
  by (auto simp: wait_init_def init_machine_def inv_locks_def amutex_init_def wf_lock_def)

interpretation lk: inv_system wait_init "wstep cfg client" inv_locks for cfg client
  by unfold_locales (auto intro: inv_locks_init inv_locks_step)

section \<open>What a step does\<close>

text \<open>Case analysis on the line a thread is at.\<close>

lemma pc_line_cases:
  obtains "p = Idle"
  | a where "p = Wait L47 a"
  | a where "p = Wait L52 a"
  | a where "p = Wait L57 a"
  | a where "p = Wait L58 a"
  | a where "p = Wait L63 a"
  | a where "p = Wait L64 a"
  | a where "p = Wait L73 a"
  | a where "p = Wait L82 a"
  | a where "p = Wait L82n a"
  | a where "p = Wait L83 a"
  | a where "p = Wait L83w a"
  | a where "p = Wait L91 a"
  | a where "p = Wait L92 a"
  | a where "p = Wait L98 a"
  | a where "p = Wait L100 a"
  | a where "p = Wait L101 a"
  | a where "p = Wait L105 a"
  | a where "p = Wait L109 a"
  | a where "p = Wait L110 a"
  | a where "p = Wait L119 a"
  | a where "p = Wait L121 a"
  | a b where "p = Pass P36 a b"
  | a b where "p = Pass P37 a b"
  | a b where "p = Pass P38 a b"
  | a r where "p = Returned a r"
  | a u st k where "p = Upd a u st k"
  | a k where "p = Swp a k"
  | a k where "p = Sig S52 a k"
  | a k where "p = Sig S53 a k"
  | a k where "p = Sig S54 a k"
  | a k where "p = Sig S55 a k"
  | st where "p = Glob G17 st"
  | st where "p = Glob G18 st"
  | st where "p = Glob G29 st"
  | st a where "p = GlobAt st a"
  | a where "p = Rel R34 a"
  | a where "p = Rel R40 a"
  | a where "p = Rel R41 a"
  | a where "p = Released a"
proof (cases p)
  case (Wait l a)
  then show ?thesis by (cases l) (simp_all add: that)
next
  case (Pass l a b)
  then show ?thesis by (cases l) (simp_all add: that)
next
  case (Sig l a k)
  then show ?thesis by (cases l) (simp_all add: that)
next
  case (Glob l st)
  then show ?thesis by (cases l) (simp_all add: that)
next
  case (Rel l a)
  then show ?thesis by (cases l) (simp_all add: that)
qed (simp_all add: that)

text \<open>The object whose condition a thread at this position is about to signal.\<close>

fun signals :: "pc \<Rightarrow> addr option" where
  "signals (Pass p a b) = (if p = P37 then Some b else None)"
| "signals (Sig l a k) = (if l = S53 then Some a else None)"
| "signals _ = None"

text \<open>
  The effect of a step, field by field. The lemmas below are all the later proofs use of
  the definition of \<open>exec\<close>.
\<close>

lemma exec_pc:
  assumes "exec cfg t s = Ret s'"
  shows "pc s' = (pc s)(t := pc s' t)"
  using assms by (cases "pc s t" rule: pc_line_cases)
    (auto simp: exec_defs same_but_links_fields(4) split: if_splits option.splits
      dest!: wait_list_insert_links wait_list_remove_links)

lemma exec_ghost:
  assumes "exec cfg t s = Ret s'"
  shows "waited s' = waited s" "outstanding s' = outstanding s" "uses_threads s' = uses_threads s"
  using assms by (cases "pc s t" rule: pc_line_cases;
    auto simp: exec_defs same_but_links_fields(1,5,6) split: if_splits option.splits
      dest!: wait_list_insert_links wait_list_remove_links)+

lemma exec_owns:
  assumes "exec cfg t s = Ret s'"
  shows "owns (pc s' t) = owns (pc s t) \<or> owns (pc s' t) = None"
  using assms by (cases "pc s t" rule: pc_line_cases)
    (auto simp: exec_defs split: if_splits option.splits)

lemma exec_live:
  assumes "exec cfg t s = Ret s'" "inv_locks s"
  shows "mx_live (w_lock (sync_at s' a)) \<longleftrightarrow> mx_live (w_lock (sync_at s a)) \<and> pc s t \<noteq> Rel R41 a"
    "cv_live (w_condition (sync_at s' a)) \<longleftrightarrow> cv_live (w_condition (sync_at s a)) \<and> pc s t \<noteq> Rel R40 a"
  using assms(1) inv_locksD(1-4) [OF assms(2)] by (cases "pc s t" rule: pc_line_cases;
    auto simp: exec_defs Ret_simps same_but_links_fields(9,10) split: if_splits option.splits
      dest!: wait_list_insert_links wait_list_remove_links)+

lemma exec_waiters:
  assumes "exec cfg t s = Ret s'"
  shows "cv_waiters (w_condition (sync_at s' a)) =
    (if pc s t = Wait L83 a then cv_waiters (w_condition (sync_at s a)) @ [t]
     else if signals (pc s t) = Some a then tl (cv_waiters (w_condition (sync_at s a)))
     else cv_waiters (w_condition (sync_at s a)))"
  using assms by (cases "pc s t" rule: pc_line_cases)
    (auto simp: exec_defs acond_Ret same_but_links_fields(9) split: if_splits option.splits
      dest!: wait_list_insert_links wait_list_remove_links)

lemma exec_awake: "exec cfg t s = Ret s' \<Longrightarrow> pc s t = Wait L83w a \<Longrightarrow> t \<notin> set (cv_waiters (w_condition (sync_at s a)))"
  by (auto simp: exec_defs split: if_splits)

section \<open>Ownership of objects\<close>

text \<open>
  Every object is waited on by at most one thread, its lock and condition stay alive until
  that thread destroys them, and only that thread sleeps on its condition.
\<close>

abbreviation waiters :: "wait_machine \<Rightarrow> addr \<Rightarrow> tid list" where
  "waiters s a \<equiv> cv_waiters (w_condition (sync_at s a))"

abbreviation lock_live :: "wait_machine \<Rightarrow> addr \<Rightarrow> bool" where
  "lock_live s a \<equiv> mx_live (w_lock (sync_at s a))"

abbreviation cond_live :: "wait_machine \<Rightarrow> addr \<Rightarrow> bool" where
  "cond_live s a \<equiv> cv_live (w_condition (sync_at s a))"

definition inv_own :: "wait_machine \<Rightarrow> bool" where
  "inv_own s \<longleftrightarrow>
     (\<forall>t a. owns (pc s t) = Some a \<longrightarrow> a \<in> waited s \<and> lock_live s a \<and>
            (pc s t = Rel R41 a \<or> cond_live s a)) \<and>
     (\<forall>t u a. owns (pc s t) = Some a \<longrightarrow> owns (pc s u) = Some a \<longrightarrow> t = u) \<and>
     (\<forall>a. a \<notin> waited s \<longrightarrow> lock_live s a \<and> cond_live s a) \<and>
     (\<forall>a. distinct (waiters s a)) \<and>
     (\<forall>t a. t \<in> set (waiters s a) \<longrightarrow> pc s t = Wait L83w a)"

lemma inv_ownD:
  assumes "inv_own s"
  shows "owns (pc s t) = Some a \<Longrightarrow> a \<in> waited s" "owns (pc s t) = Some a \<Longrightarrow> lock_live s a"
    "owns (pc s t) = Some a \<Longrightarrow> pc s t \<noteq> Rel R41 a \<Longrightarrow> cond_live s a"
    "owns (pc s t) = Some a \<Longrightarrow> owns (pc s u) = Some a \<Longrightarrow> t = u"
    "a \<notin> waited s \<Longrightarrow> lock_live s a" "a \<notin> waited s \<Longrightarrow> cond_live s a"
    "distinct (waiters s a)" "t \<in> set (waiters s a) \<Longrightarrow> pc s t = Wait L83w a"
  using assms by (auto simp: inv_own_def)

lemma exec_release:
  assumes "exec cfg t s = Ret s'"
  shows "pc s t = Rel R40 a \<Longrightarrow> pc s' t = Rel R41 a" "pc s t = Rel R41 a \<Longrightarrow> pc s' t = Released a"
    "pc s t = Wait L83 a \<Longrightarrow> pc s' t = Wait L83w a"
  using assms by (auto simp: exec_defs)

lemma inv_own_exec:
  assumes inv: "inv_own s" and lk: "inv_locks s" and ex: "exec cfg t s = Ret s'"
  shows "inv_own s'"
proof -
  note d = inv_ownD [OF inv] and pc = exec_pc [OF ex] and live = exec_live [OF ex lk]
    and ws = exec_waiters [OF ex] and rel = exec_release [OF ex] and gh = exec_ghost [OF ex]
  have frame: "u \<noteq> t \<Longrightarrow> pc s' u = pc s u" for u by (subst pc) simp
  have own: "owns (pc s u) = Some a" if "owns (pc s' u) = Some a" for u a
    using that exec_owns [OF ex] frame by (cases "u = t") auto
  have 1: "lock_live s' a" if o: "owns (pc s' u) = Some a" for u a
  proof -
    have "pc s t \<noteq> Rel R41 a"
    proof
      assume r: "pc s t = Rel R41 a"
      with d(4) [OF own [OF o], of t] have "u = t" by simp
      with o rel(2) [OF r] show False by simp
    qed
    with d(2) [OF own [OF o]] live(1) show ?thesis by simp
  qed
  have 2: "pc s' u = Rel R41 a \<or> cond_live s' a" if o: "owns (pc s' u) = Some a" for u a
  proof (cases "pc s t = Rel R40 a")
    case True
    with d(4) [OF own [OF o], of t] have "u = t" by simp
    with rel(1) [OF True] show ?thesis by simp
  next
    case False
    show ?thesis
    proof (cases "pc s u = Rel R41 a")
      case True
      with o rel(2) frame show ?thesis by (cases "u = t") auto
    next
      case False
      with d(3) [OF own [OF o]] live(2) \<open>pc s t \<noteq> Rel R40 a\<close> show ?thesis by simp
    qed
  qed
  have 3: "lock_live s' a \<and> cond_live s' a" if "a \<notin> waited s'" for a
  proof -
    have "pc s t \<noteq> Rel R41 a" "pc s t \<noteq> Rel R40 a" using d(1) [of t a] that gh(1) by auto
    with d(5,6) [of a] that gh(1) live show ?thesis by simp
  qed
  have 4: "distinct (waiters s' a)" for a
    using d(7) [of a] d(8) [of t a] by (auto simp: ws distinct_tl)
  have 5: "pc s' u = Wait L83w a" if "u \<in> set (waiters s' a)" for u a
  proof (cases "u \<in> set (waiters s a)")
    case True
    with d(8) have "pc s u = Wait L83w a" by blast
    moreover from this True exec_awake [OF ex, of a] have "u \<noteq> t" by auto
    ultimately show ?thesis using frame by simp
  next
    case False
    with that have "pc s t = Wait L83 a" "u = t" by (auto simp: ws dest: in_set_tl split: if_splits)
    with rel(3) show ?thesis by simp
  qed
  have 6: "a \<in> waited s'" if "owns (pc s' u) = Some a" for u a
    using d(1) [OF own [OF that]] gh(1) by simp
  have 7: "u = v" if "owns (pc s' u) = Some a" "owns (pc s' v) = Some a" for u v a
    using d(4) [OF own [OF that(1)] own [OF that(2)]] .
  show ?thesis unfolding inv_own_def using 1 2 3 4 5 6 7 by blast
qed

lemma call_frame:
  assumes "start_call cfg t c s = Some s'"
  shows "sync_at s' = sync_at s" "threads_base_wait_sync_list s' = threads_base_wait_sync_list s"
    "wait_sync_lock s' = wait_sync_lock s" "num_thread_in_progress s' = num_thread_in_progress s"
    "uses_threads s' = uses_threads s" "pc s' = (pc s)(t := pc s' t)"
  using assms by (cases c; auto split: if_splits pc.splits)+

lemma call_attrs:
  assumes "start_call cfg t c s = Some s'"
  shows "onlist (pc s t) = None" "onlist (pc s' t) = None" "visits (pc s' t) = None"
    "\<not> holds_wsl (pc s' t)" "holds (pc s' t) = None" "pc s' t \<noteq> Rel R41 a" "pc s' t \<noteq> Wait L83w a"
    "pc s' t \<noteq> Pass pl b d" "pc s t \<noteq> Wait l a"
    "owns (pc s' t) = Some a \<Longrightarrow> owns (pc s t) = Some a \<and> waited s' = waited s \<and> pc s t \<noteq> Rel R41 a \<or>
       a \<notin> waited s \<and> waited s' = insert a (waited s)"
    "waited s \<subseteq> waited s'"
  using assms by (cases c; auto split: if_splits pc.splits)+

lemma inv_own_call:
  assumes inv: "inv_own s" and st: "start_call cfg t c s = Some s'"
  shows "inv_own s'"
proof -
  note d = inv_ownD [OF inv] and fr = call_frame [OF st] and at = call_attrs [OF st]
  have frame: "u \<noteq> t \<Longrightarrow> pc s' u = pc s u" for u by (subst fr(6)) simp
  have own: "owns (pc s u) = Some a \<and> pc s u \<noteq> Rel R41 a \<or> a \<notin> waited s \<and> u = t \<or> u \<noteq> t \<and> owns (pc s u) = Some a"
    if "owns (pc s' u) = Some a" for u a
    using that at(10) [of a] frame by (cases "u = t") auto
  have 1: "a \<in> waited s' \<and> lock_live s' a \<and> (pc s' u = Rel R41 a \<or> cond_live s' a)"
    if "owns (pc s' u) = Some a" for u a
  proof (cases "u = t")
    case True
    with that at(10) [of a] d(1-3) [of t a] d(5,6) [of a] fr(1) show ?thesis by auto
  next
    case False
    with that frame at(11) d(1-3) [of u a] fr(1) show ?thesis by auto
  qed
  have 2: "u = v" if "owns (pc s' u) = Some a" "owns (pc s' v) = Some a" for u v a
    using own [OF that(1)] own [OF that(2)] d(1,4) by metis
  have 3: "pc s' u = Wait L83w a" if "u \<in> set (waiters s' a)" for u a
    using that d(8) [of u a] at(9) frame fr(1) by (cases "u = t") auto
  have 4: "lock_live s' a \<and> cond_live s' a" if "a \<notin> waited s'" for a
    using that at(11) d(5,6) [of a] fr(1) by auto
  show ?thesis
    unfolding inv_own_def using 1 2 3 4 d(7) fr(1) by auto
qed

lemma inv_own_spurious:
  assumes inv: "inv_own s" shows "inv_own (spurious t a s)"
  using assms by (auto simp: inv_own_def spurious_def dest: notin_set_remove1 set_remove1_subset [THEN subsetD])

lemma inv_own_init: "wait_init s \<Longrightarrow> inv_own s"
  by (auto simp: wait_init_def init_machine_def inv_own_def amutex_init_def acond_init_def)

end
