(* ===== verification/Wait_Ring.thy ===== *)
theory Wait_Ring
  imports Wait_Inv
begin

text \<open>
  The ring under concurrency: it always represents a list, which holds exactly the objects
  whose threads stand between linking and unlinking; a running wake-up is at a member of
  the ring; and the thread whose object is at the head is awake, or another thread is about
  to wake it.
\<close>

section \<open>More about steps\<close>

definition ring_step :: "pc \<Rightarrow> bool" where
  "ring_step p \<longleftrightarrow> (\<exists>a. p = Wait L64 a \<or> p = Wait L110 a)"

lemma ring_step_wsl: "ring_step p \<Longrightarrow> holds_wsl p"
  by (auto simp: ring_step_def)

lemma visits_wsl: "visits p = Some a \<Longrightarrow> holds_wsl p"
  by (cases p) (auto split: if_splits)

lemma exec_links:
  assumes "exec cfg t s = Ret s'" "\<not> ring_step (pc s t)"
  shows "threads_base_wait_sync_list s' = threads_base_wait_sync_list s"
    "w_next (sync_at s' b) = w_next (sync_at s b)" "w_prev (sync_at s' b) = w_prev (sync_at s b)"
    "onlist (pc s' t) = onlist (pc s t)"
  using assms by (cases "pc s t" rule: pc_line_cases;
    auto simp: exec_defs ring_step_def split: if_splits option.splits)+

lemma exec_insert:
  assumes "exec cfg t s = Ret s'" "pc s t = Wait L64 a"
  shows "\<exists>s1. wait_list_insert a s = Ret s1 \<and> s' = goto t (Wait L73 a) s1"
  using assms by (auto simp: exec_defs)

lemma exec_remove:
  assumes "exec cfg t s = Ret s'" "pc s t = Wait L110 a"
  shows "\<exists>n s1. wait_list_remove a s = Ret (n, s1) \<and>
           s' = goto t (case n of None \<Rightarrow> Wait L119 a | Some b \<Rightarrow> Pass P36 a b) s1"
  using assms by (auto simp: exec_defs)

lemma wait_list_insert_head:
  "wait_list_insert a s = Ret s1 \<Longrightarrow>
     threads_base_wait_sync_list s1 =
       (if threads_base_wait_sync_list s = None then Some a else threads_base_wait_sync_list s)"
  by (auto simp: wait_list_insert_def Let_def split: option.splits)

lemma wait_list_remove_head:
  "wait_list_remove a s = Ret (n, s1) \<Longrightarrow>
     threads_base_wait_sync_list s1 =
       (if threads_base_wait_sync_list s = Some a then n else threads_base_wait_sync_list s) \<and>
     (n \<noteq> None \<longrightarrow> threads_base_wait_sync_list s = Some a)"
  by (auto simp: wait_list_remove_def Let_def split: option.splits if_splits)

lemma exec_ring_step_visits:
  assumes "exec cfg t s = Ret s'" "ring_step (pc s t)"
  shows "visits (pc s' t) = None"
  using assms(2) exec_insert [OF assms(1)] exec_remove [OF assms(1)]
  by (auto simp: ring_step_def split: option.splits)

lemma exec_visits:
  assumes "exec cfg t s = Ret s'" "visits (pc s' t) = Some a"
  shows "visits (pc s t) = Some a \<or> (\<exists>st. pc s t = Glob G18 st \<and> threads_base_wait_sync_list s = Some a) \<or>
         (\<exists>st b. pc s t = GlobAt st b \<and> w_next (sync_at s b) = Some a)"
  using assms by (cases "pc s t" rule: pc_line_cases)
    (auto simp: exec_defs split: if_splits option.splits)

lemma exec_pass_origin:
  assumes "exec cfg t s = Ret s'" "pc s' t = Pass p a b"
  shows "pc s t = Wait L110 a \<and> p = P36 \<or> (\<exists>q. pc s t = Pass q a b)"
  using assms by (cases "pc s t" rule: pc_line_cases)
    (auto simp: exec_defs cont_pc.simps glob_next_def split: if_splits option.splits
      elim!: cont_pc.elims)

lemma exec_drowsy:
  assumes "exec cfg t s = Ret s'"
  shows "pc s' t = Wait L82n a \<Longrightarrow> pc s t = Wait L82 a \<and> threads_base_wait_sync_list s \<noteq> Some a"
    "pc s' t = Wait L83 a \<Longrightarrow> pc s t = Wait L82n a"
    "pc s' t = Wait L83w a \<Longrightarrow> pc s t = Wait L83 a"
  using assms by (cases "pc s t" rule: pc_line_cases;
    auto simp: exec_defs glob_next_def split: if_splits option.splits elim!: cont_pc.elims)+

lemma exec_passing:
  assumes "exec cfg t s = Ret s'"
  shows "pc s t = Pass P36 a b \<Longrightarrow> pc s' t = Pass P37 a b"
    "pc s t = Pass P37 a b \<Longrightarrow> pc s' t = Pass P38 a b \<and> waiters s' b = tl (waiters s b)"
  using assms by (auto simp: exec_defs acond_Ret)

section \<open>The ring holds the pending objects\<close>

definition pending :: "wait_machine \<Rightarrow> addr list \<Rightarrow> bool" where
  "pending s xs \<longleftrightarrow> wait_list s xs \<and> (\<forall>a. a \<in> set xs \<longleftrightarrow> (\<exists>t. onlist (pc s t) = Some a))"

lemma wait_list_cong:
  assumes "wait_list s xs" "threads_base_wait_sync_list s' = threads_base_wait_sync_list s"
    and "\<And>b. w_next (sync_at s' b) = w_next (sync_at s b)" "\<And>b. w_prev (sync_at s' b) = w_prev (sync_at s b)"
  shows "wait_list s' xs"
  using assms by (auto simp: wait_list_def intro: ring_cong_links)

lemma wait_list_goto: "wait_list (goto t p s) xs = wait_list s xs"
  by (auto intro: wait_list_cong)

lemma ex_onlist_upd:
  assumes "onlist (f t) = None"
  shows "(\<exists>u. onlist ((f(t := p)) u) = Some b) \<longleftrightarrow> onlist p = Some b \<or> (\<exists>u. onlist (f u) = Some b)"
proof
  assume "onlist p = Some b \<or> (\<exists>u. onlist (f u) = Some b)"
  then show "\<exists>u. onlist ((f(t := p)) u) = Some b"
  proof
    assume "\<exists>u. onlist (f u) = Some b"
    then obtain u where "onlist (f u) = Some b" ..
    with assms show ?thesis by (intro exI [of _ u]) auto
  qed (auto intro: exI [of _ t])
qed (auto split: if_splits)

lemma pending_kept:
  assumes pe: "pending s xs" and ex: "exec cfg t s = Ret s'" and other: "\<not> ring_step (pc s t)"
  shows "pending s' xs"
proof -
  have frame: "u \<noteq> t \<Longrightarrow> pc s' u = pc s u" for u by (subst exec_pc [OF ex]) simp
  note ln = exec_links [OF ex other]
  have "wait_list s' xs" by (rule wait_list_cong) (use pe in \<open>simp_all add: pending_def ln(1-3)\<close>)
  moreover have "(\<exists>u. onlist (pc s' u) = Some b) \<longleftrightarrow> (\<exists>u. onlist (pc s u) = Some b)" for b
    using frame ln(4) by metis
  ultimately show ?thesis using pe by (auto simp: pending_def)
qed

lemma pending_exec:
  assumes pe: "pending s xs" and own: "inv_own s" and ex: "exec cfg t s = Ret s'"
  shows "\<exists>ys. pending s' ys"
proof -
  have frame: "u \<noteq> t \<Longrightarrow> pc s' u = pc s u" for u by (subst exec_pc [OF ex]) simp
  from pe have wl: "wait_list s xs" and mem: "\<And>a. a \<in> set xs \<longleftrightarrow> (\<exists>t. onlist (pc s t) = Some a)"
    by (auto simp: pending_def)
  consider (ins) a where "pc s t = Wait L64 a" | (rem) a where "pc s t = Wait L110 a"
    | (other) "\<not> ring_step (pc s t)" by (auto simp: ring_step_def)
  then show ?thesis
  proof cases
    case (ins a)
    have "a \<notin> set xs"
    proof
      assume "a \<in> set xs"
      then obtain u where u: "onlist (pc s u) = Some a" using mem by blast
      with inv_ownD(4) [OF own onlist_owns, of u a t] ins have "u = t" by simp
      with u ins show False by simp
    qed
    from wq.insert_q [OF wl this] obtain s1 where
      s1: "wait_list_insert a s = Ret s1" "wait_list s1 (xs @ [a])" "same_but_links s s1" by blast
    with exec_insert [OF ex ins] have s': "s' = goto t (Wait L73 a) s1" by simp
    have "b \<in> set (xs @ [a]) \<longleftrightarrow> (\<exists>u. onlist (pc s' u) = Some b)" for b
      using mem [of b] ex_onlist_upd [of "pc s" t "Wait L73 a" b] ins same_but_links_fields(4) [OF s1(3)]
      by (auto simp: s')
    then have "pending s' (xs @ [a])"
      unfolding pending_def using s1(2) by (simp add: s' wait_list_goto)
    then show ?thesis ..
  next
    case (rem a)
    then have a: "a \<in> set xs" unfolding mem by (intro exI [of _ t]) simp
    from wq.remove_q [OF wl a] obtain n s1 where
      s1: "wait_list_remove a s = Ret (n, s1)" "wait_list s1 (remove1 a xs)" "same_but_links s s1" by blast
    with exec_remove [OF ex rem] have
      s': "s' = goto t (case n of None \<Rightarrow> Wait L119 a | Some b \<Rightarrow> Pass P36 a b) s1" by simp
    have ot: "onlist (pc s t) = Some a" using rem by simp
    have uniq: "u = t" if "onlist (pc s u) = Some a" for u
      using inv_ownD(4) [OF own onlist_owns [OF that] onlist_owns [OF ot]] .
    have off: "onlist (pc s' t) = None" by (simp add: s' split: option.split)
    have "b \<in> set (remove1 a xs) \<longleftrightarrow> (\<exists>u. onlist (pc s' u) = Some b)" for b
    proof -
      have "b \<in> set (remove1 a xs) \<longleftrightarrow> b \<in> set xs \<and> b \<noteq> a" using wq.rep_distinct [OF wl] by auto
      also have "\<dots> \<longleftrightarrow> (\<exists>u. u \<noteq> t \<and> onlist (pc s u) = Some b)"
        using mem [of b] ot uniq by (metis option.inject)
      also have "\<dots> \<longleftrightarrow> (\<exists>u. onlist (pc s' u) = Some b)"
        using frame off by (metis option.distinct(1))
      finally show ?thesis .
    qed
    then have "pending s' (remove1 a xs)"
      unfolding pending_def using s1(2) by (simp add: s' wait_list_goto)
    then show ?thesis ..
  next
    case other
    from pending_kept [OF pe ex other] show ?thesis ..
  qed
qed

lemma pending_call:
  assumes "pending s xs" and st: "start_call cfg t c s = Some s'"
  shows "pending s' xs"
proof -
  note fr = call_frame [OF st] and at = call_attrs(1,2) [OF st]
  have "(\<exists>u. onlist (pc s' u) = Some b) \<longleftrightarrow> (\<exists>u. onlist (pc s u) = Some b)" for b
    using ex_onlist_upd [of "pc s" t "pc s' t" b] at fr(6) by simp
  moreover have "wait_list s' xs" if "wait_list s xs"
    by (rule wait_list_cong [OF that]) (simp_all add: fr)
  ultimately show ?thesis using assms(1) by (simp add: pending_def)
qed

lemma pending_spurious: "pending s xs \<Longrightarrow> pending (spurious t a s) xs"
  by (auto simp: pending_def spurious_def intro: wait_list_cong)

section \<open>Nobody leaves the head asleep\<close>

text \<open>A thread that has decided to sleep, or sleeps and has not been signalled.\<close>

definition drowsy :: "wait_machine \<Rightarrow> tid \<Rightarrow> addr \<Rightarrow> bool" where
  "drowsy s t a \<longleftrightarrow> pc s t = Wait L82n a \<or> pc s t = Wait L83 a \<or>
                  (pc s t = Wait L83w a \<and> t \<in> set (waiters s a))"

definition inv_head :: "wait_machine \<Rightarrow> bool" where
  "inv_head s \<longleftrightarrow> (\<forall>t a. drowsy s t a \<longrightarrow> threads_base_wait_sync_list s = Some a \<longrightarrow>
     (\<exists>u x. pc s u = Pass P36 x a \<or> pc s u = Pass P37 x a))"

definition inv_cursor :: "wait_machine \<Rightarrow> bool" where
  "inv_cursor s \<longleftrightarrow>
     (\<forall>t a. visits (pc s t) = Some a \<longrightarrow> (\<exists>u. onlist (pc s u) = Some a)) \<and>
     (\<forall>t p a b. pc s t = Pass p a b \<longrightarrow> threads_base_wait_sync_list s = Some b)"

lemma inv_cursorD:
  assumes "inv_cursor s"
  shows "visits (pc s t) = Some a \<Longrightarrow> \<exists>u. onlist (pc s u) = Some a"
    "pc s t = Pass p a b \<Longrightarrow> threads_base_wait_sync_list s = Some b"
  using assms unfolding inv_cursor_def by blast+

definition inv_ring :: "wait_machine \<Rightarrow> bool" where
  "inv_ring s \<longleftrightarrow> inv_locks s \<and> inv_own s \<and> (\<exists>xs. pending s xs) \<and> inv_cursor s \<and> inv_head s"

lemma wsl_unique: "inv_locks s \<Longrightarrow> holds_wsl (pc s t) \<Longrightarrow> holds_wsl (pc s u) \<Longrightarrow> t = u"
  by (auto simp: inv_locks_def)

lemma holds_unique: "inv_locks s \<Longrightarrow> holds (pc s t) = Some a \<Longrightarrow> holds (pc s u) = Some a \<Longrightarrow> t = u"
  by (auto simp: inv_locks_def)

lemma drowsy_owns: "drowsy s t a \<Longrightarrow> owns (pc s t) = Some a"
  by (auto simp: drowsy_def)

text \<open>The neighbours of a member of the ring are members.\<close>

lemma pending_next:
  assumes "pending s xs" "onlist (pc s u) = Some b" "w_next (sync_at s b) = Some a"
  shows "\<exists>v. onlist (pc s v) = Some a"
proof -
  from assms have b: "b \<in> set xs" and wl: "wait_list s xs" by (auto simp: pending_def)
  obtain as bs where xs: "xs = as @ b # bs" and r: "ring s (b # bs @ as)"
    using wait_list_split [OF wl b] by metis
  from ring_next [of s "[]" b "bs @ as"] r assms(3) have "a = hd ((bs @ as) @ [b])" by simp
  with hd_in_set [of "(bs @ as) @ [b]"] xs have "a \<in> set xs" by auto
  with assms(1) show ?thesis by (auto simp: pending_def)
qed

lemma pending_head: "pending s xs \<Longrightarrow> threads_base_wait_sync_list s = Some a \<Longrightarrow> \<exists>u. onlist (pc s u) = Some a"
  unfolding pending_def wait_list_def by (metis head_of_eq_Some list.set_intros(1))

lemma inv_cursor_exec:
  assumes inv: "inv_ring s" and ex: "exec cfg t s = Ret s'"
  shows "inv_cursor s'"
proof -
  from inv have lk: "inv_locks s" and cur: "inv_cursor s" and own: "inv_own s" by (auto simp: inv_ring_def)
  from inv obtain xs where pe: "pending s xs" by (auto simp: inv_ring_def)
  have frame: "u \<noteq> t \<Longrightarrow> pc s' u = pc s u" for u by (subst exec_pc [OF ex]) simp
  have keep: "\<exists>u. onlist (pc s' u) = Some a" if "onlist (pc s v) = Some a" "\<not> ring_step (pc s t)" for v a
    using that exec_links(4) [OF ex that(2)] frame by metis
  have 1: "\<exists>u. onlist (pc s' u) = Some a" if vis: "visits (pc s' v) = Some a" for v a
  proof -
    have nr: "\<not> ring_step (pc s t)"
    proof
      assume rs: "ring_step (pc s t)"
      have "visits (pc s' t) = None" by (rule exec_ring_step_visits [OF ex rs])
      with vis have "v \<noteq> t" by auto
      with vis frame have "visits (pc s v) = Some a" "v \<noteq> t" by simp_all
      with wsl_unique [OF lk visits_wsl ring_step_wsl [OF rs]] show False by blast
    qed
    have "\<exists>u. onlist (pc s u) = Some a"
    proof (cases "visits (pc s v) = Some a")
      case True
      with inv_cursorD(1) [OF cur] show ?thesis by blast
    next
      case False
      with vis frame have [simp]: "v = t" by metis
      from exec_visits [OF ex, of a] vis False
      consider "threads_base_wait_sync_list s = Some a"
        | b where "visits (pc s t) = Some b" "w_next (sync_at s b) = Some a" by auto
      then show ?thesis
      proof cases
        case 1
        with pe show ?thesis by (rule pending_head)
      next
        case (2 b)
        then obtain u where "onlist (pc s u) = Some b" using inv_cursorD(1) [OF cur] by blast
        with pe show ?thesis using 2(2) by (rule pending_next)
      qed
    qed
    with keep nr show ?thesis by blast
  qed
  have 2: "threads_base_wait_sync_list s' = Some b" if p: "pc s' v = Pass p a b" for v p a b
  proof (cases "v = t \<and> pc s t = Wait L110 a")
    case True
    with exec_remove [OF ex, of a] obtain n s1 where r: "wait_list_remove a s = Ret (n, s1)"
      and s': "s' = goto t (case n of None \<Rightarrow> Wait L119 a | Some c \<Rightarrow> Pass P36 a c) s1" by blast
    from True p have "n = Some b" by (simp add: s' split: option.splits)
    with wait_list_remove_head [OF r] show ?thesis by (simp add: s')
  next
    case False
    with p frame exec_pass_origin [OF ex, of p a b] obtain q where q: "pc s v = Pass q a b"
      by (cases "v = t") auto
    with cur have "threads_base_wait_sync_list s = Some b" by (auto simp: inv_cursor_def)
    moreover have "\<not> ring_step (pc s t)"
    proof
      assume rs: "ring_step (pc s t)"
      with wsl_unique [OF lk ring_step_wsl [OF rs], of v] q have "t = v" by simp
      with q rs show False by (auto simp: ring_step_def)
    qed
    ultimately show ?thesis using exec_links(1) [OF ex] by simp
  qed
  from 1 2 show ?thesis by (auto simp: inv_cursor_def)
qed

lemma inv_head_exec:
  assumes inv: "inv_ring s" and ex: "exec cfg t s = Ret s'"
  shows "inv_head s'"
  unfolding inv_head_def
proof (intro allI impI)
  fix v a
  assume dr: "drowsy s' v a" and hd: "threads_base_wait_sync_list s' = Some a"
  from inv have lk: "inv_locks s" and own: "inv_own s" and head: "inv_head s" by (auto simp: inv_ring_def)
  have own': "inv_own s'" by (rule inv_own_exec [OF own lk ex])
  have frame: "u \<noteq> t \<Longrightarrow> pc s' u = pc s u" for u by (subst exec_pc [OF ex]) simp
  note dz = exec_drowsy [OF ex, of a]
  show "\<exists>u x. pc s' u = Pass P36 x a \<or> pc s' u = Pass P37 x a"
  proof (cases "threads_base_wait_sync_list s = Some a")
    case False
    then have "ring_step (pc s t)" using exec_links(1) [OF ex] hd by auto
    then consider (ins) b where "pc s t = Wait L64 b" | (rem) b where "pc s t = Wait L110 b"
      by (auto simp: ring_step_def)
    then show ?thesis
    proof cases
      case (ins b)
      from exec_insert [OF ex ins] obtain s1 where i: "wait_list_insert b s = Ret s1"
        and s': "s' = goto t (Wait L73 b) s1" by blast
      from wait_list_insert_head [OF i] False hd s' have "b = a" and p: "pc s' t = Wait L73 b"
        by (auto split: if_splits)
      with inv_ownD(4) [OF own' drowsy_owns [OF dr], of t] have "v = t" by simp
      with dr p show ?thesis by (auto simp: drowsy_def)
    next
      case (rem b)
      from exec_remove [OF ex rem] obtain n s1 where r: "wait_list_remove b s = Ret (n, s1)"
        and s': "s' = goto t (case n of None \<Rightarrow> Wait L119 b | Some c \<Rightarrow> Pass P36 b c) s1" by blast
      from wait_list_remove_head [OF r] False hd have "n = Some a" by (simp add: s' split: if_splits)
      then have "pc s' t = Pass P36 b a" by (simp add: s')
      then show ?thesis by blast
    qed
  next
    case True
    have dr0: "drowsy s v a"
    proof (cases "v = t")
      case True
      with dr consider "pc s' t = Wait L82n a" | "pc s' t = Wait L83 a" | "pc s' t = Wait L83w a"
        by (auto simp: drowsy_def)
      then show ?thesis
      proof cases
        case 1
        with dz(1) \<open>threads_base_wait_sync_list s = Some a\<close> show ?thesis by simp
      qed (simp_all add: True drowsy_def dz(2,3))
    next
      case False
      with dr frame exec_waiters [OF ex, of a] show ?thesis
        by (auto simp: drowsy_def dest: in_set_tl split: if_splits)
    qed
    with head True obtain u x where u: "pc s u = Pass P36 x a \<or> pc s u = Pass P37 x a"
      by (auto simp: inv_head_def)
    show ?thesis
    proof (cases "u = t \<and> pc s u = Pass P37 x a")
      case False
      with u frame exec_passing(1) [OF ex, of x a] show ?thesis by metis
    next
      case True
      then have p37: "pc s t = Pass P37 x a" by auto
      from exec_passing(2) [OF ex this] have ws: "waiters s' a = tl (waiters s a)" and p: "pc s' t = Pass P38 x a" by auto
      have nv: "v \<noteq> t" using dr p by (auto simp: drowsy_def)
      have "holds (pc s v) \<noteq> Some a" using holds_unique [OF lk, of v a t] p37 nv by auto
      with dr frame [OF nv] have "v \<in> set (tl (waiters s a))" by (auto simp: drowsy_def ws)
      moreover have "w = v" if "w \<in> set (waiters s a)" for w
        using inv_ownD(8) [OF own that] inv_ownD(4) [OF own _ drowsy_owns [OF dr0], of w] by simp
      ultimately have False
        using inv_ownD(7) [OF own, of a] by (cases "waiters s a") (auto dest: in_set_tl)
      then show ?thesis ..
    qed
  qed
qed

lemma inv_ring_exec:
  assumes "inv_ring s" "exec cfg t s = Ret s'"
  shows "inv_ring s'"
  using assms inv_cursor_exec [OF assms] inv_head_exec [OF assms]
  by (auto simp: inv_ring_def intro: inv_locks_exec inv_own_exec pending_exec)

lemma inv_ring_call:
  assumes inv: "inv_ring s" and st: "start_call cfg t c s = Some s'"
  shows "inv_ring s'"
proof -
  note fr = call_frame [OF st] and at = call_attrs [OF st]
  have frame: "u \<noteq> t \<Longrightarrow> pc s' u = pc s u" for u by (subst fr(6)) simp
  from inv obtain xs where pe: "pending s xs" by (auto simp: inv_ring_def)
  have on: "onlist (pc s u) = Some a \<Longrightarrow> onlist (pc s' u) = Some a" for u a
    using at(1) frame by (cases "u = t") auto
  have cur: "inv_cursor s" and head: "inv_head s" using inv by (auto simp: inv_ring_def)
  have vis: "visits (pc s' v) = Some a \<Longrightarrow> visits (pc s v) = Some a" for v a
    using at(3) frame by (cases "v = t") auto
  have pass: "pc s' v = Pass p a b \<Longrightarrow> pc s v = Pass p a b" for v p a b
    using at(8) frame by (cases "v = t") auto
  have dz: "drowsy s' v a \<Longrightarrow> drowsy s v a" for v a
    using at(2) frame fr(1) by (cases "v = t") (auto simp: drowsy_def)
  have np: "pc s t \<noteq> Pass p a b" for p a b using st by (cases c) (auto split: pc.splits if_splits)
  have "inv_cursor s'"
    unfolding inv_cursor_def using cur vis pass on fr(2) by (simp add: inv_cursor_def) blast
  moreover have "inv_head s'"
    unfolding inv_head_def using head dz fr(2) frame np by (simp add: inv_head_def) metis
  ultimately show ?thesis
    using inv pending_call [OF pe st] by (auto simp: inv_ring_def intro: inv_locks_call [OF _ st] inv_own_call [OF _ st])
qed

lemma inv_ring_spurious: "inv_ring s \<Longrightarrow> inv_ring (spurious t a s)"
proof -
  assume inv: "inv_ring s"
  have dz: "drowsy (spurious t a s) v b \<Longrightarrow> drowsy s v b" for v b
    by (auto simp: drowsy_def spurious_def dest: set_remove1_subset [THEN subsetD] split: if_splits)
  have fr: "pc (spurious t a s) = pc s"
    "threads_base_wait_sync_list (spurious t a s) = threads_base_wait_sync_list s"
    by (simp_all add: spurious_def)
  from inv have "inv_head s" "inv_cursor s" by (simp_all add: inv_ring_def)
  then have "inv_head (spurious t a s)" "inv_cursor (spurious t a s)"
    using dz by (simp_all add: inv_head_def inv_cursor_def fr) blast
  with inv show ?thesis
    by (auto simp: inv_ring_def intro: inv_locks_spurious inv_own_spurious pending_spurious)
qed

lemma inv_ring_init: "wait_init s \<Longrightarrow> inv_ring s"
proof -
  assume i: "wait_init s"
  then have "pending s []" by (auto simp: wait_init_def init_machine_def pending_def wait_list_def)
  with i inv_locks_init [OF i] inv_own_init [OF i] show ?thesis
    by (auto simp: inv_ring_def inv_cursor_def inv_head_def drowsy_def wait_init_def init_machine_def)
qed

lemma inv_ring_step: "inv_ring s \<Longrightarrow> wstep cfg client s s' \<Longrightarrow> inv_ring s'"
  by (erule wstep.cases) (auto intro: inv_ring_exec inv_ring_call inv_ring_spurious)

interpretation rg: inv_system wait_init "wstep cfg client" inv_ring for cfg client
  by unfold_locales (auto intro: inv_ring_init inv_ring_step)

end
