(* ===== verification/Wait_Safety.thy ===== *)
theory Wait_Safety
  imports Wait_Ring
begin

text \<open>
  What follows from the invariants for every caller: mutual exclusion, the ring, the
  promotion of the next thread, and freedom from deadlock, which is not obvious because the
  two kinds of lock are taken in both orders.
\<close>

section \<open>Schedules\<close>

text \<open>A run given as a list of steps, to exhibit reachable states.\<close>

datatype action = Run tid | Call tid call

fun act :: "wait_cfg \<Rightarrow> client \<Rightarrow> action \<Rightarrow> wait_machine \<Rightarrow> wait_machine option" where
  "act cfg client (Run t) s =
     (if t < cfg_threads cfg then (case exec cfg t s of Ret s' \<Rightarrow> Some s' | _ \<Rightarrow> None) else None)"
| "act cfg client (Call t c) s =
     (if t < cfg_threads cfg \<and> client s c then start_call cfg t c s else None)"

fun schedule :: "wait_cfg \<Rightarrow> client \<Rightarrow> action list \<Rightarrow> wait_machine \<Rightarrow> wait_machine option" where
  "schedule cfg client [] s = Some s"
| "schedule cfg client (x # xs) s =
     (case act cfg client x s of None \<Rightarrow> None | Some s' \<Rightarrow> schedule cfg client xs s')"

lemma act_step: "act cfg client x s = Some s' \<Longrightarrow> wstep cfg client s s'"
  by (cases x) (auto intro: wstep.intros split: if_splits outcome.splits)

lemma schedule_reach:
  "schedule cfg client xs s = Some s' \<Longrightarrow> reach wait_init (wstep cfg client) s \<Longrightarrow>
     reach wait_init (wstep cfg client) s'"
proof (induction xs arbitrary: s)
  case (Cons x xs)
  then obtain r where r: "act cfg client x s = Some r" "schedule cfg client xs r = Some s'"
    by (auto split: option.splits)
  show ?case by (rule Cons.IH [OF r(2) reach.reach_step [OF Cons.prems(2) act_step [OF r(1)]]])
qed simp

lemma schedule_init_reach:
  "schedule cfg client xs (init_machine c) = Some s' \<Longrightarrow> reach wait_init (wstep cfg client) s'"
  by (erule schedule_reach) (auto intro!: reach.reach_init simp: wait_init_def)

text \<open>
  A run of three threads: thread 0 waits on object 10 and drives progress, thread 1 waits on
  object 11 and sleeps, thread 2 completes object 10, and thread 0 leaves the ring and is
  about to wake thread 1.
\<close>

definition demo_schedule :: "action list" where
  "demo_schedule = Call 0 (CWait 10) # replicate 9 (Run 0) @ Call 1 (CWait 11) # replicate 9 (Run 1) @
     Call 2 (CUpdate 10 1 0) # Run 2 # replicate 4 (Run 0)"

definition demo_view :: "wait_machine \<Rightarrow> pc list \<times> addr option \<times> tid list" where
  "demo_view s = (map (pc s) [0, 1, 2], threads_base_wait_sync_list s, waiters s 11)"

lemma demo_reachable:
  "\<exists>s. reach wait_init (wstep demo_cfg any_client) s \<and>
     demo_view s = ([Pass P36 10 11, Wait L83w 11, Sig S52 10 KReturn], Some 11, [1])"
proof -
  have "map_option demo_view (schedule demo_cfg any_client demo_schedule (init_machine (\<lambda>_. 1)))
      = Some ([Pass P36 10 11, Wait L83w 11, Sig S52 10 KReturn], Some 11, [1])"
    by code_simp
  then show ?thesis by (auto dest: schedule_init_reach)
qed

section \<open>When a thread has to wait\<close>

fun at_rest :: "pc \<Rightarrow> bool" where
  "at_rest Idle = True"
| "at_rest (Returned a r) = True"
| "at_rest (Released a) = True"
| "at_rest (Rel r a) = (r = R34)"
| "at_rest _ = False"

fun wants :: "pc \<Rightarrow> addr option" where
  "wants (Wait l a) = (if l \<in> {L52, L83w} then Some a else None)"
| "wants (Pass p a b) = (if p = P36 then Some b else None)"
| "wants (Sig l a k) = (if l = S52 then Some a else None)"
| "wants _ = None"

fun wants_wsl :: "pc \<Rightarrow> bool" where
  "wants_wsl (Wait l a) = (l \<in> {L63, L109})"
| "wants_wsl (Glob g st) = (g = G17)"
| "wants_wsl _ = False"

lemma never_Block:
  "amutex_unlock t m \<noteq> Block" "acond_signal c \<noteq> Block" "acond_block t c \<noteq> Block"
  "acond_destroy c \<noteq> Block" "amutex_destroy m \<noteq> Block" "c_ssub x y \<noteq> Block"
  "thread_add_fetch_32 u L x y \<noteq> Block"
  "wait_list_insert a s \<noteq> Block" "wait_list_remove a s \<noteq> Block"
  by (auto simp: amutex_unlock_def acond_signal_def acond_block_def acond_destroy_def
      amutex_destroy_def c_ssub_def thread_add_fetch_32_def thread_op_fetch_def c_sadd_def
      obind_eq_Block wait_list_insert_def wait_list_remove_def Let_def split: option.splits)

lemma amutex_lock_Block: "amutex_lock t m = Block \<Longrightarrow> mx_owner m \<noteq> None"
  by (auto simp: amutex_lock_def split: option.splits if_splits)

lemma exec_block:
  assumes "exec cfg t s = Block"
  shows "at_rest (pc s t) \<or>
    (\<exists>a. wants (pc s t) = Some a \<and> mx_owner (w_lock (sync_at s a)) \<noteq> None) \<or>
    (wants_wsl (pc s t) \<and> mx_owner (wait_sync_lock s) \<noteq> None) \<or>
    (\<exists>a. pc s t = Wait L83w a \<and> t \<in> set (waiters s a))"
  using assms by (cases "pc s t" rule: pc_line_cases)
    (auto simp: exec_defs obind_eq_Block never_Block dest!: amutex_lock_Block split: if_splits option.splits)

section \<open>Threads of the machine\<close>

definition inv_tids :: "wait_cfg \<Rightarrow> wait_machine \<Rightarrow> bool" where
  "inv_tids cfg s \<longleftrightarrow> (\<forall>t. pc s t \<noteq> Idle \<longrightarrow> t < cfg_threads cfg)"

lemma inv_tids_step:
  assumes "inv_tids cfg s" "wstep cfg client s s'"
  shows "inv_tids cfg s'"
  using assms(2)
proof cases
  case (run t)
  with exec_pc [OF run(2)] assms(1) show ?thesis
    unfolding inv_tids_def by (metis fun_upd_other)
next
  case (call t c)
  with call_frame(6) [OF call(3)] assms(1) show ?thesis
    unfolding inv_tids_def by (metis fun_upd_other)
next
  case (wake t a)
  with assms(1) show ?thesis by (simp add: inv_tids_def spurious_def)
qed

lemma inv_tids_init: "wait_init s \<Longrightarrow> inv_tids cfg s"
  by (auto simp: inv_tids_def wait_init_def init_machine_def)

interpretation td: inv_system wait_init "wstep cfg client" "inv_tids cfg" for cfg client
  by unfold_locales (auto intro: inv_tids_step inv_tids_init)

section \<open>No deadlock\<close>

lemma blocked_holder:
  assumes "exec cfg v s = Block" "holds (pc s v) = Some b"
  shows "pc s v = Wait L63 b \<and> mx_owner (wait_sync_lock s) \<noteq> None"
  using exec_block [OF assms(1)] assms(2)
  by (cases "pc s v" rule: pc_line_cases) auto

lemma L63_not_pending:
  assumes "inv_own s" "pc s v = Wait L63 b"
  shows "onlist (pc s w) \<noteq> Some b"
proof
  assume w: "onlist (pc s w) = Some b"
  with inv_ownD(4) [OF assms(1) onlist_owns [OF w], of v] assms(2) have "w = v" by simp
  with w assms(2) show False by simp
qed

text \<open>
  A thread that cannot move: it is blocked, or it is in the loop that calls \<open>progress()\<close> until
  its object completes. When no thread can move all locks are free, and every thread inside
  a call sleeps or is in that loop.
\<close>

definition stalled :: "wait_cfg \<Rightarrow> wait_machine \<Rightarrow> tid \<Rightarrow> bool" where
  "stalled cfg s t \<longleftrightarrow> exec cfg t s = Block \<or> (\<exists>a. pc s t = Wait L101 a)"

lemma stalled_state:
  assumes inv: "inv_ring s" and tids: "inv_tids cfg s" and all: "\<forall>u<cfg_threads cfg. stalled cfg s u"
  shows "mx_owner (wait_sync_lock s) = None" "mx_owner (w_lock (sync_at s b)) = None"
    "\<not> at_rest (pc s t) \<Longrightarrow> \<exists>a. pc s t = Wait L101 a \<or> pc s t = Wait L83w a \<and> t \<in> set (waiters s a)"
proof -
  have stall: "stalled cfg s u" if "pc s u \<noteq> Idle" for u
    using that tids all by (auto simp: inv_tids_def)
  from inv have lk: "inv_locks s" and own: "inv_own s" and cur: "inv_cursor s" by (auto simp: inv_ring_def)
  from inv obtain xs where pe: "pending s xs" by (auto simp: inv_ring_def)
  have stuck: "pc s v = Wait L63 b \<and> mx_owner (wait_sync_lock s) \<noteq> None" if "holds (pc s v) = Some b" for v b
  proof -
    from that have "pc s v \<noteq> Idle" by auto
    with stall [of v] that have "exec cfg v s = Block" by (auto simp: stalled_def)
    from blocked_holder [OF this that] show ?thesis .
  qed
  show free: "mx_owner (wait_sync_lock s) = None"
  proof (rule ccontr)
    assume "mx_owner (wait_sync_lock s) \<noteq> None"
    then obtain u where u: "holds_wsl (pc s u)" using inv_locksD(6) [OF lk] by blast
    then have "pc s u \<noteq> Idle" by auto
    with stall [of u] u have "exec cfg u s = Block" by (auto simp: stalled_def)
    from exec_block [OF this] u obtain b where
      b: "wants (pc s u) = Some b" "mx_owner (w_lock (sync_at s b)) \<noteq> None"
      by (cases "pc s u" rule: pc_line_cases) auto
    from u b(1) have "(\<exists>p a. pc s u = Pass p a b) \<or> visits (pc s u) = Some b"
      by (cases "pc s u" rule: pc_line_cases) auto
    then obtain w where "onlist (pc s w) = Some b"
      using inv_cursorD [OF cur] pending_head [OF pe] by blast
    moreover from b(2) obtain v where "holds (pc s v) = Some b" using inv_locksD(5) [OF lk] by blast
    ultimately show False using stuck L63_not_pending [OF own] by blast
  qed
  show unlocked: "mx_owner (w_lock (sync_at s b)) = None" for b
    using stuck free inv_locksD(5) [OF lk, of _ b] by (cases "mx_owner (w_lock (sync_at s b))") auto
  assume "\<not> at_rest (pc s t)"
  moreover from this have "pc s t \<noteq> Idle" by auto
  ultimately show "\<exists>a. pc s t = Wait L101 a \<or> pc s t = Wait L83w a \<and> t \<in> set (waiters s a)"
    using stall [of t] exec_block [of cfg t s] free unlocked by (auto simp: stalled_def)
qed

text \<open>While a thread sleeps the owner of the head of the ring calls \<open>progress()\<close>.\<close>

lemma stalled_driver:
  assumes inv: "inv_ring s" and tids: "inv_tids cfg s" and all: "\<forall>u<cfg_threads cfg. stalled cfg s u"
    and t: "\<not> at_rest (pc s t)"
  shows "\<exists>h x. pc s h = Wait L101 x \<and> threads_base_wait_sync_list s = Some x"
proof -
  from inv have lk: "inv_locks s" and head: "inv_head s" by (auto simp: inv_ring_def)
  from inv obtain xs where pe: "pending s xs" by (auto simp: inv_ring_def)
  note st = stalled_state [OF inv tids all]
  from st(3) [OF t] obtain a where a: "onlist (pc s t) = Some a" by auto
  with pe obtain x where x: "threads_base_wait_sync_list s = Some x"
    unfolding pending_def wait_list_def by (metis head_of_eq_None list.set_cases option.exhaust list.distinct(1))
  with pending_head [OF pe] obtain h where h: "onlist (pc s h) = Some x" by blast
  then have "\<not> at_rest (pc s h)" by (cases "pc s h") auto
  from st(3) [OF this] h consider "pc s h = Wait L101 x" | "drowsy s h x" by (auto simp: drowsy_def)
  then show ?thesis
  proof cases
    case 2
    with head x obtain u y where "pc s u = Pass P36 y x \<or> pc s u = Pass P37 y x"
      unfolding inv_head_def by blast
    then have "holds_wsl (pc s u)" by auto
    with inv_locksD(6) [OF lk] st(1) show ?thesis by simp
  qed (use x in blast)
qed

lemma deadlock_free:
  assumes inv: "inv_ring s" and tids: "inv_tids cfg s" and t: "\<not> at_rest (pc s t)"
  shows "\<exists>u<cfg_threads cfg. exec cfg u s \<noteq> Block"
proof (rule ccontr)
  assume "\<not> ?thesis"
  then have all: "\<forall>u<cfg_threads cfg. exec cfg u s = Block" by blast
  then have "\<forall>u<cfg_threads cfg. stalled cfg s u" by (simp add: stalled_def)
  from stalled_driver [OF inv tids this t] obtain h x where h: "pc s h = Wait L101 x" by blast
  with tids all have "exec cfg h s = Block" by (auto simp: inv_tids_def)
  with h show False by (simp add: exec_def)
qed

section \<open>Properties\<close>

text \<open>
  C10. Whatever the callers do, in every reachable state the doubly linked ring represents a
  list of distinct objects, and its members are exactly the objects whose waiting threads
  are between linking and unlinking.
\<close>

theorem ring_always_consistent:
  assumes "reach wait_init (wstep cfg any_client) s"
  shows "\<exists>xs. wait_list s xs \<and> distinct xs \<and> (\<forall>a. a \<in> set xs \<longleftrightarrow> (\<exists>t. onlist (pc s t) = Some a))"
  using rg.reach_inv [OF assms] wq.rep_distinct unfolding inv_ring_def pending_def by blast

theorem ring_always_consistent_witness:
  "\<exists>s xs. demo_view s = ([Pass P36 10 11, Wait L83w 11, Sig S52 10 KReturn], Some 11, [1]) \<and>
     wait_list s xs \<and> distinct xs \<and> 11 \<in> set xs"
proof -
  from demo_reachable obtain s where s: "reach wait_init (wstep demo_cfg any_client) s"
    "demo_view s = ([Pass P36 10 11, Wait L83w 11, Sig S52 10 KReturn], Some 11, [1])" by blast
  then have "onlist (pc s 1) = Some 11" by (simp add: demo_view_def)
  with ring_always_consistent [OF s(1)] s(2) show ?thesis by blast
qed

text \<open>
  C15. No two threads are in the critical section of one object's lock, no two hold
  \<open>wait_sync_lock\<close>, and no two wait on one object.
\<close>

theorem wait_mutual_exclusion:
  assumes "reach wait_init (wstep cfg any_client) s" "t \<noteq> u"
  shows "\<not> (holds (pc s t) = Some a \<and> holds (pc s u) = Some a) \<and>
         \<not> (holds_wsl (pc s t) \<and> holds_wsl (pc s u)) \<and>
         \<not> (owns (pc s t) = Some a \<and> owns (pc s u) = Some a)"
  using rg.reach_inv [OF assms(1)] assms(2) holds_unique [of s t a u] wsl_unique [of s t u]
    inv_ownD(4) [of s t a u] unfolding inv_ring_def by blast

theorem wait_mutual_exclusion_witness:
  "\<exists>s. demo_view s = ([Pass P36 10 11, Wait L83w 11, Sig S52 10 KReturn], Some 11, [1]) \<and>
     \<not> (holds_wsl (pc s 0) \<and> holds_wsl (pc s 1))"
  using demo_reachable wait_mutual_exclusion [of demo_cfg _ 0 1] by (metis zero_neq_one)

text \<open>
  C11. The thread whose object is at the head of the ring is never left asleep: if it has
  decided to sleep, or sleeps without having been signalled, another thread is about to
  signal it and holds \<open>wait_sync_lock\<close> until it has.
\<close>

theorem head_never_left_asleep:
  assumes "reach wait_init (wstep cfg any_client) s"
    and "threads_base_wait_sync_list s = Some a" "drowsy s t a"
  shows "\<exists>u x. (pc s u = Pass P36 x a \<or> pc s u = Pass P37 x a) \<and> mx_owner (wait_sync_lock s) = Some u"
proof -
  from rg.reach_inv [OF assms(1)] have h: "inv_head s" and lk: "inv_locks s" by (auto simp: inv_ring_def)
  from h assms(2,3) obtain u x where u: "pc s u = Pass P36 x a \<or> pc s u = Pass P37 x a"
    unfolding inv_head_def by blast
  then have "holds_wsl (pc s u)" by auto
  with u inv_locksD(6) [OF lk] show ?thesis by blast
qed

theorem head_never_left_asleep_witness:
  "\<exists>s u. demo_view s = ([Pass P36 10 11, Wait L83w 11, Sig S52 10 KReturn], Some 11, [1]) \<and>
     mx_owner (wait_sync_lock s) = Some u"
proof -
  from demo_reachable obtain s where s: "reach wait_init (wstep demo_cfg any_client) s"
    "demo_view s = ([Pass P36 10 11, Wait L83w 11, Sig S52 10 KReturn], Some 11, [1])" by blast
  then have "threads_base_wait_sync_list s = Some 11" "drowsy s 1 11"
    by (simp_all add: demo_view_def drowsy_def)
  with head_never_left_asleep [OF s(1)] s(2) show ?thesis by blast
qed

text \<open>
  C9. No deadlock, whatever the callers do: whenever a thread is inside a wait, an update,
  a wake-up or the destruction of an object, some thread is not blocked. Locks are taken
  in both orders (an object's lock and then \<open>wait_sync_lock\<close> when linking, the reverse when
  passing ownership and in the wake-up), and this is still safe.
\<close>

theorem wait_deadlock_free:
  assumes "reach wait_init (wstep cfg any_client) s" "\<not> at_rest (pc s t)"
  shows "\<exists>u<cfg_threads cfg. exec cfg u s \<noteq> Block"
  using deadlock_free [OF rg.reach_inv [OF assms(1)] td.reach_inv [OF assms(1)] assms(2)] .

theorem wait_deadlock_free_witness:
  "\<exists>s. demo_view s = ([Pass P36 10 11, Wait L83w 11, Sig S52 10 KReturn], Some 11, [1]) \<and>
     (\<exists>u<3. exec demo_cfg u s \<noteq> Block)"
proof -
  from demo_reachable obtain s where s: "reach wait_init (wstep demo_cfg any_client) s"
    "demo_view s = ([Pass P36 10 11, Wait L83w 11, Sig S52 10 KReturn], Some 11, [1])" by blast
  then have "\<not> at_rest (pc s 1)" by (simp add: demo_view_def)
  with wait_deadlock_free [OF s(1)] s(2) show ?thesis by (auto simp: demo_cfg_def)
qed

end
