(* ===== verification/Wait_Exact.thy ===== *)
theory Wait_Exact
  imports Wait_Safety
begin

text \<open>
  What callers get that report every operation at most once and no error: the count of an
  object is the number of operations still to be reported, no completion is lost, a wait
  that returns has seen all its operations reported, and nothing is used after it has been
  destroyed. A caller that reports an error does not get the last of these: the final
  section exhibits the race.
\<close>

section \<open>Attributes of a position\<close>

text \<open>The positions such callers can reach.\<close>

fun calm :: "wait_cfg \<Rightarrow> pc \<Rightarrow> bool" where
  "calm cfg (Upd a u st k) \<longleftrightarrow> st = cfg_SUCCESS cfg \<and> k = KReturn \<and> 0 < sint u"
| "calm cfg (Sig l a k) \<longleftrightarrow> k = KReturn"
| "calm cfg (Swp a k) \<longleftrightarrow> False"
| "calm cfg (Glob g st) \<longleftrightarrow> False"
| "calm cfg (GlobAt st a) \<longleftrightarrow> False"
| "calm cfg _ \<longleftrightarrow> True"

text \<open>The operations an update is about to subtract, and the object it is about to.\<close>

fun pend :: "addr \<Rightarrow> pc \<Rightarrow> int" where
  "pend a (Upd b u st k) = (if a = b then sint u else 0)"
| "pend a _ = 0"

fun updates :: "pc \<Rightarrow> addr option" where
  "updates (Upd b u st k) = Some b"
| "updates _ = None"

text \<open>The object a thread is in \<open>WAIT_SYNC_SIGNAL\<close> for, and whether it has yet to signal.\<close>

fun signaller :: "pc \<Rightarrow> addr option" where
  "signaller (Sig l a k) = Some a"
| "signaller _ = None"

fun will_signal :: "pc \<Rightarrow> addr option" where
  "will_signal (Sig l a k) = (if l = S52 \<or> l = S53 then Some a else None)"
| "will_signal _ = None"

text \<open>
  Positions that rely on the count having been positive, and positions that rely on the
  operations being complete.
\<close>

fun hopeful :: "pc \<Rightarrow> addr option" where
  "hopeful (Wait l a) = (if l \<in> {L63, L64, L73, L82, L82n, L83, L83w} then Some a else None)"
| "hopeful _ = None"

fun past :: "pc \<Rightarrow> addr option" where
  "past (Wait l a) = (if l \<in> {L58, L92, L105, L109, L110, L119, L121} then Some a else None)"
| "past (Pass p a b) = Some a"
| "past (Returned a r) = Some a"
| "past (Rel r a) = Some a"
| "past (Released a) = Some a"
| "past _ = None"

lemma will_signal_signaller: "will_signal p = Some a \<Longrightarrow> signaller p = Some a"
  by (cases p) (auto split: if_splits)

lemma pend_updates: "updates p \<noteq> Some a \<Longrightarrow> pend a p = 0"
  by (cases p) auto

lemma pend_pos: "calm cfg p \<Longrightarrow> updates p = Some a \<Longrightarrow> 0 < pend a p"
  by (cases p) auto

lemma pend_nonneg: "calm cfg p \<Longrightarrow> 0 \<le> pend a p"
  by (cases p) auto

section \<open>What a step does\<close>

lemma thread_add_fetch_32_atomic:
  "atomic_lib_ok L \<Longrightarrow> thread_add_fetch_32 True L x d = Ret (x + d, x + d)"
  by (simp add: thread_add_fetch_32_def thread_op_fetch_def using_threads_def atomic_ok_defs)

lemma exec_calm_upd:
  assumes "exec cfg t s = Ret s'" "pc s t = Upd a u st k" "calm cfg (pc s t)"
    and "uses_threads s" "atomic_lib_ok (cfg_atomics cfg)"
  shows "s' = goto t (if w_count (sync_at s a) = u then Sig S52 a KReturn else Idle)
           (upd_sync a (\<lambda>w. w\<lparr>w_count := w_count w - u\<rparr>) s)"
  using assms by (auto simp: exec_def exec_upd_def thread_add_fetch_32_atomic c_ssub_def upd_sync_def
      split: if_splits)

lemma exec_calm_other:
  assumes "exec cfg t s = Ret s'" "updates (pc s t) = None" "calm cfg (pc s t)" "uses_threads s"
  shows "w_count (sync_at s' a) = w_count (sync_at s a)" "w_status (sync_at s' a) = w_status (sync_at s a)"
    "w_signaling (sync_at s' a) \<longleftrightarrow> w_signaling (sync_at s a) \<and> pc s t \<noteq> Sig S55 a KReturn"
    "calm cfg (pc s' t)" "updates (pc s' t) = None"
    "signaller (pc s' t) = (if \<exists>b. pc s t = Sig S55 b KReturn then None else signaller (pc s t))"
    "will_signal (pc s' t) = (if signals (pc s t) = will_signal (pc s t) then None else will_signal (pc s t))"
    "hopeful (pc s' t) = Some a \<Longrightarrow> hopeful (pc s t) = Some a \<or> \<not> completed s a"
    "past (pc s' t) = Some a \<Longrightarrow> past (pc s t) = Some a \<or> completed s a"
    "pc s' t = Returned a r \<Longrightarrow> r = (if w_status (sync_at s a) = 0 then SUCCESS else ERROR)"
    "pc s' t = Rel l a \<Longrightarrow> pc s t = Rel R34 a \<and> \<not> w_signaling (sync_at s a) \<or> pc s t = Rel R40 a"
  using assms by (cases "pc s t" rule: pc_line_cases;
    auto simp: exec_defs wait_result_def same_but_links_fields split: if_splits option.splits
      dest!: wait_list_insert_links wait_list_remove_links)+

section \<open>The invariant\<close>

definition unreported :: "wait_cfg \<Rightarrow> wait_machine \<Rightarrow> addr \<Rightarrow> int" where
  "unreported cfg s a = outstanding s a + (\<Sum>t<cfg_threads cfg. pend a (pc s t))"

definition inv_count :: "wait_cfg \<Rightarrow> wait_machine \<Rightarrow> bool" where
  "inv_count cfg s \<longleftrightarrow>
     (\<forall>t. calm cfg (pc s t)) \<and>
     (\<forall>a. sint (w_count (sync_at s a)) = unreported cfg s a) \<and>
     (\<forall>t a. updates (pc s t) = Some a \<longrightarrow> 0 \<le> outstanding s a) \<and>
     (\<forall>a. w_status (sync_at s a) = 0)"

definition inv_signal :: "wait_machine \<Rightarrow> bool" where
  "inv_signal s \<longleftrightarrow>
     (\<forall>t a. signaller (pc s t) = Some a \<longrightarrow> w_count (sync_at s a) = 0) \<and>
     (\<forall>t u a. signaller (pc s t) = Some a \<longrightarrow> signaller (pc s u) = Some a \<longrightarrow> t = u) \<and>
     (\<forall>a. w_signaling (sync_at s a) \<longleftrightarrow> w_count (sync_at s a) \<noteq> 0 \<or> (\<exists>t. signaller (pc s t) = Some a)) \<and>
     (\<forall>a. \<not> lock_live s a \<or> \<not> cond_live s a \<or> (\<exists>t. pc s t = Rel R40 a \<or> pc s t = Rel R41 a) \<longrightarrow>
        \<not> w_signaling (sync_at s a))"

text \<open>A thread that counts on a signal: it holds its lock on the way to sleep, or it sleeps.\<close>

definition sleepy :: "wait_machine \<Rightarrow> tid \<Rightarrow> addr \<Rightarrow> bool" where
  "sleepy s t a \<longleftrightarrow> hopeful (pc s t) = Some a \<and> (pc s t = Wait L83w a \<longrightarrow> t \<in> set (waiters s a))"

definition inv_done :: "wait_machine \<Rightarrow> bool" where
  "inv_done s \<longleftrightarrow>
     (\<forall>t a. sleepy s t a \<longrightarrow> completed s a \<longrightarrow> (\<exists>u. will_signal (pc s u) = Some a)) \<and>
     (\<forall>t a. past (pc s t) = Some a \<longrightarrow> completed s a) \<and>
     (\<forall>t a r. pc s t = Returned a r \<longrightarrow> r = SUCCESS)"

definition inv_exact :: "wait_cfg \<Rightarrow> wait_machine \<Rightarrow> bool" where
  "inv_exact cfg s \<longleftrightarrow> inv_ring s \<and> inv_tids cfg s \<and> inv_count cfg s \<and> inv_signal s \<and> inv_done s"

lemma inv_countD:
  assumes "inv_count cfg s"
  shows "calm cfg (pc s t)" "sint (w_count (sync_at s a)) = unreported cfg s a"
    "updates (pc s t) = Some a \<Longrightarrow> 0 \<le> outstanding s a" "w_status (sync_at s a) = 0"
  using assms unfolding inv_count_def by blast+

lemma inv_signalD:
  assumes "inv_signal s"
  shows "signaller (pc s t) = Some a \<Longrightarrow> w_count (sync_at s a) = 0"
    "signaller (pc s t) = Some a \<Longrightarrow> signaller (pc s u) = Some a \<Longrightarrow> t = u"
    "w_signaling (sync_at s a) \<longleftrightarrow> w_count (sync_at s a) \<noteq> 0 \<or> (\<exists>t. signaller (pc s t) = Some a)"
    "w_signaling (sync_at s a) \<Longrightarrow> lock_live s a" "w_signaling (sync_at s a) \<Longrightarrow> cond_live s a"
    "w_signaling (sync_at s a) \<Longrightarrow> pc s t \<noteq> Rel R40 a" "w_signaling (sync_at s a) \<Longrightarrow> pc s t \<noteq> Rel R41 a"
  using assms unfolding inv_signal_def by blast+

lemma inv_doneD:
  assumes "inv_done s"
  shows "sleepy s t a \<Longrightarrow> completed s a \<Longrightarrow> \<exists>u. will_signal (pc s u) = Some a"
    "past (pc s t) = Some a \<Longrightarrow> completed s a" "pc s t = Returned a r \<Longrightarrow> r = SUCCESS"
  using assms unfolding inv_done_def by blast+

text \<open>What an update about to be made subtracts does not exceed the count.\<close>

lemma pend_le_count:
  assumes inv: "inv_count cfg s" and t: "t < cfg_threads cfg" and up: "updates (pc s t) = Some a"
  shows "0 < pend a (pc s t)" "pend a (pc s t) \<le> sint (w_count (sync_at s a))"
proof -
  note d = inv_countD [OF inv]
  show "0 < pend a (pc s t)" by (rule pend_pos [OF d(1) up])
  have "pend a (pc s t) \<le> (\<Sum>u<cfg_threads cfg. pend a (pc s u))"
    by (rule member_le_sum) (use t pend_nonneg [OF d(1)] in auto)
  with d(2) [of a] d(3) [OF up] show "pend a (pc s t) \<le> sint (w_count (sync_at s a))"
    by (simp add: unreported_def)
qed

lemma unreported_step:
  assumes "pc s' = (pc s)(t := pc s' t)" "t < cfg_threads cfg"
  shows "unreported cfg s' a = outstanding s' a - outstanding s a + unreported cfg s a
           - pend a (pc s t) + pend a (pc s' t)"
  using sum_fun_upd [of "{..<cfg_threads cfg}" t "pend a" "pc s" "pc s' t"] assms
  by (simp add: unreported_def)

lemma sint_sub_count:
  fixes c u :: i32
  assumes "0 < sint u" "sint u \<le> sint c"
  shows "sint (c - u) = sint c - sint u"
proof (rule sint_diff_fits)
  have "fits TYPE(32) (sint c)" by (rule fits_sint)
  with assms show "fits TYPE(32) (sint c - sint u)" by (simp add: fits_def)
qed

section \<open>Updates\<close>

lemma update_effect:
  assumes inv: "inv_exact cfg s" and ok: "atomic_lib_ok (cfg_atomics cfg)" and t: "t < cfg_threads cfg"
    and ex: "exec cfg t s = Ret s'" and p: "pc s t = Upd a u st k"
  shows "0 < sint u" "sint u \<le> sint (w_count (sync_at s a))"
    "sint (w_count (sync_at s' a)) = sint (w_count (sync_at s a)) - sint u"
    "w_count (sync_at s' a) = 0 \<longleftrightarrow> w_count (sync_at s a) = u"
    "pc s' t = (if w_count (sync_at s a) = u then Sig S52 a KReturn else Idle)"
    "b \<noteq> a \<Longrightarrow> sync_at s' b = sync_at s b" "w_status (sync_at s' b) = w_status (sync_at s b)"
    "w_signaling (sync_at s' b) = w_signaling (sync_at s b)" "waiters s' b = waiters s b"
    "lock_live s' b = lock_live s b" "cond_live s' b = cond_live s b"
    "w_signaling (sync_at s a)"
proof -
  from inv have cnt: "inv_count cfg s" and sg: "inv_signal s" and th: "uses_threads s"
    by (auto simp: inv_exact_def inv_ring_def inv_locks_def)
  note s' = exec_calm_upd [OF ex p inv_countD(1) [OF cnt] th ok]
  from pend_le_count [OF cnt t, of a] p show u: "0 < sint u" "sint u \<le> sint (w_count (sync_at s a))"
    by simp_all
  show "sint (w_count (sync_at s' a)) = sint (w_count (sync_at s a)) - sint u"
    using sint_sub_count [OF u] by (simp add: s' upd_sync_def)
  show "w_count (sync_at s' a) = 0 \<longleftrightarrow> w_count (sync_at s a) = u" by (simp add: s' upd_sync_def)
  show "pc s' t = (if w_count (sync_at s a) = u then Sig S52 a KReturn else Idle)" by (simp add: s')
  show "b \<noteq> a \<Longrightarrow> sync_at s' b = sync_at s b" "w_status (sync_at s' b) = w_status (sync_at s b)"
    "w_signaling (sync_at s' b) = w_signaling (sync_at s b)" "waiters s' b = waiters s b"
    "lock_live s' b = lock_live s b" "cond_live s' b = cond_live s b"
    by (simp_all add: s' upd_sync_def)
  from u have "w_count (sync_at s a) \<noteq> 0" by auto
  with inv_signalD(3) [OF sg] show "w_signaling (sync_at s a)" by simp
qed

lemma inv_count_update:
  assumes inv: "inv_exact cfg s" and ok: "atomic_lib_ok (cfg_atomics cfg)" and t: "t < cfg_threads cfg"
    and ex: "exec cfg t s = Ret s'" and p: "pc s t = Upd a u st k"
  shows "inv_count cfg s'"
proof -
  from inv have cnt: "inv_count cfg s" by (simp add: inv_exact_def)
  note d = inv_countD [OF cnt] and e = update_effect [OF inv ok t ex p] and gh = exec_ghost [OF ex]
  have frame: "v \<noteq> t \<Longrightarrow> pc s' v = pc s v" for v by (subst exec_pc [OF ex]) simp
  have 1: "calm cfg (pc s' v)" for v using d(1) [of v] e(5) frame by (cases "v = t") auto
  have 2: "sint (w_count (sync_at s' b)) = unreported cfg s' b" for b
  proof (cases "b = a")
    case True
    with d(2) [of a] e(3) unreported_step [OF exec_pc [OF ex] t, of a] e(5) p gh(2) show ?thesis by simp
  next
    case False
    with d(2) [of b] e(6) unreported_step [OF exec_pc [OF ex] t, of b] e(5) p gh(2) show ?thesis by simp
  qed
  have 3: "0 \<le> outstanding s' b" if "updates (pc s' v) = Some b" for v b
    using that d(3) [of v b] e(5) frame gh(2) by (cases "v = t") (auto split: if_splits)
  show ?thesis unfolding inv_count_def using 1 2 3 d(4) e(7) by simp
qed

lemma inv_signal_update:
  assumes inv: "inv_exact cfg s" and ok: "atomic_lib_ok (cfg_atomics cfg)" and t: "t < cfg_threads cfg"
    and ex: "exec cfg t s = Ret s'" and p: "pc s t = Upd a u st k"
  shows "inv_signal s'"
proof -
  from inv have sg: "inv_signal s" by (simp add: inv_exact_def)
  note d = inv_signalD [OF sg] and e = update_effect [OF inv ok t ex p]
  have frame: "v \<noteq> t \<Longrightarrow> pc s' v = pc s v" for v by (subst exec_pc [OF ex]) simp
  have nosig: "signaller (pc s v) \<noteq> Some a" for v using d(1) [of v a] e(1,2) by auto
  have sg_iff: "signaller (pc s' v) = Some b \<longleftrightarrow>
      signaller (pc s v) = Some b \<or> v = t \<and> b = a \<and> w_count (sync_at s a) = u" for v b
    using e(5) frame p by (cases "v = t") auto
  have 1: "w_count (sync_at s' b) = 0" if "signaller (pc s' v) = Some b" for v b
    using that d(1) [of v b] e(4,6) nosig [of v] by (cases "b = a") (auto simp: sg_iff)
  have 2: "v = w" if "signaller (pc s' v) = Some b" "signaller (pc s' w) = Some b" for v w b
    using that d(2) [of v b w] nosig by (auto simp: sg_iff)
  have 3: "w_signaling (sync_at s' b) \<longleftrightarrow> w_count (sync_at s' b) \<noteq> 0 \<or> (\<exists>v. signaller (pc s' v) = Some b)" for b
    using d(3) [of b] e(4,6,8,12) by (cases "b = a") (auto simp: sg_iff)
  have 4: "\<not> w_signaling (sync_at s' b)"
    if "\<not> lock_live s' b \<or> \<not> cond_live s' b \<or> pc s' v = Rel R40 b \<or> pc s' v = Rel R41 b" for v b
    using that d(4-7) [of b] e(5,8,10,11) frame by (cases "v = t") (auto split: if_splits)
  show ?thesis unfolding inv_signal_def using 1 2 3 4 by blast
qed

lemma inv_done_update:
  assumes inv: "inv_exact cfg s" and ok: "atomic_lib_ok (cfg_atomics cfg)" and t: "t < cfg_threads cfg"
    and ex: "exec cfg t s = Ret s'" and p: "pc s t = Upd a u st k"
  shows "inv_done s'"
proof -
  from inv have dn: "inv_done s" by (simp add: inv_exact_def)
  note d = inv_doneD [OF dn] and e = update_effect [OF inv ok t ex p]
  have frame: "v \<noteq> t \<Longrightarrow> pc s' v = pc s v" for v by (subst exec_pc [OF ex]) simp
  have 1: "\<exists>w. will_signal (pc s' w) = Some b" if "sleepy s' v b" "completed s' b" for v b
  proof (cases "b = a")
    case True
    with that(2) e(2,3) have "sint (w_count (sync_at s a)) = sint u" by (simp add: completed_def)
    then have "w_count (sync_at s a) = u" by (rule signed_word_eqI)
    with True e(5) show ?thesis by (intro exI [of _ t]) simp
  next
    case False
    have "v \<noteq> t" using that(1) e(5) by (auto simp: sleepy_def split: if_splits)
    with that False frame e(6,9) d(1) [of v b] obtain w where "will_signal (pc s w) = Some b"
      by (auto simp: sleepy_def completed_def)
    with p frame show ?thesis by (intro exI [of _ w]) (cases "w = t", auto)
  qed
  have 2: "completed s' b" if "past (pc s' v) = Some b" for v b
    using that d(2) [of v b] e(1,3,5,6) frame
    by (cases "v = t"; cases "b = a") (auto simp: completed_def split: if_splits)
  have 3: "r = SUCCESS" if "pc s' v = Returned b r" for v b r
    using that d(3) [of v b r] e(5) frame by (cases "v = t") (auto split: if_splits)
  show ?thesis unfolding inv_done_def using 1 2 3 by blast
qed
section \<open>Other steps\<close>

lemma other_effect:
  assumes inv: "inv_exact cfg s" and ex: "exec cfg t s = Ret s'" and up: "updates (pc s t) = None"
  shows "w_count (sync_at s' b) = w_count (sync_at s b)" "w_status (sync_at s' b) = w_status (sync_at s b)"
    "w_signaling (sync_at s' b) \<longleftrightarrow> w_signaling (sync_at s b) \<and> pc s t \<noteq> Sig S55 b KReturn"
    "calm cfg (pc s' t)" "updates (pc s' t) = None"
    "signaller (pc s' v) = Some b \<longleftrightarrow> signaller (pc s v) = Some b \<and> \<not> (v = t \<and> pc s t = Sig S55 b KReturn)"
    "completed s' b = completed s b"
proof -
  from inv have th: "uses_threads s" and cm: "calm cfg (pc s t)"
    by (auto simp: inv_exact_def inv_ring_def inv_locks_def inv_count_def)
  note e = exec_calm_other [OF ex up cm th]
  have frame: "v \<noteq> t \<Longrightarrow> pc s' v = pc s v" for v by (subst exec_pc [OF ex]) simp
  show "w_count (sync_at s' b) = w_count (sync_at s b)" "w_status (sync_at s' b) = w_status (sync_at s b)"
    "w_signaling (sync_at s' b) \<longleftrightarrow> w_signaling (sync_at s b) \<and> pc s t \<noteq> Sig S55 b KReturn"
    "calm cfg (pc s' t)" "updates (pc s' t) = None" by (rule e)+
  show "signaller (pc s' v) = Some b \<longleftrightarrow> signaller (pc s v) = Some b \<and> \<not> (v = t \<and> pc s t = Sig S55 b KReturn)"
    using e(6) frame by (cases "v = t") (auto split: if_splits)
  show "completed s' b = completed s b" by (simp add: completed_def e(1))
qed

lemma inv_count_other:
  assumes inv: "inv_exact cfg s" and t: "t < cfg_threads cfg"
    and ex: "exec cfg t s = Ret s'" and up: "updates (pc s t) = None"
  shows "inv_count cfg s'"
proof -
  from inv have cnt: "inv_count cfg s" by (simp add: inv_exact_def)
  note d = inv_countD [OF cnt] and e = other_effect [OF inv ex up] and gh = exec_ghost [OF ex]
  have frame: "v \<noteq> t \<Longrightarrow> pc s' v = pc s v" for v by (subst exec_pc [OF ex]) simp
  have 1: "calm cfg (pc s' v)" for v using d(1) [of v] e(4) frame by (cases "v = t") auto
  have 2: "sint (w_count (sync_at s' b)) = unreported cfg s' b" for b
    using d(2) [of b] e(1) unreported_step [OF exec_pc [OF ex] t, of b] gh(2)
      pend_updates [of "pc s t" b] pend_updates [of "pc s' t" b] up e(5) by simp
  have 3: "0 \<le> outstanding s' b" if "updates (pc s' v) = Some b" for v b
    using that d(3) [of v b] e(5) frame gh(2) by (cases "v = t") auto
  show ?thesis unfolding inv_count_def using 1 2 3 d(4) e(2) by simp
qed

lemma inv_signal_other:
  assumes inv: "inv_exact cfg s" and ex: "exec cfg t s = Ret s'" and up: "updates (pc s t) = None"
  shows "inv_signal s'"
proof -
  from inv have sg: "inv_signal s" and th: "uses_threads s" and cm: "calm cfg (pc s t)" and lk: "inv_locks s"
    by (auto simp: inv_exact_def inv_ring_def inv_locks_def inv_count_def)
  note d = inv_signalD [OF sg] and e = other_effect [OF inv ex up] and c = exec_calm_other [OF ex up cm th]
    and live = exec_live [OF ex lk]
  have frame: "v \<noteq> t \<Longrightarrow> pc s' v = pc s v" for v by (subst exec_pc [OF ex]) simp
  have 1: "w_count (sync_at s' b) = 0" if "signaller (pc s' v) = Some b" for v b
    using that d(1) [of v b] e(1,6) by auto
  have 2: "v = w" if "signaller (pc s' v) = Some b" "signaller (pc s' w) = Some b" for v w b
    using that d(2) [of v b w] e(6) by auto
  have 3: "w_signaling (sync_at s' b) \<longleftrightarrow> w_count (sync_at s' b) \<noteq> 0 \<or> (\<exists>v. signaller (pc s' v) = Some b)" for b
  proof (cases "pc s t = Sig S55 b KReturn")
    case True
    then have "signaller (pc s t) = Some b" by simp
    with True d(1,2) e(1,3,6) show ?thesis by metis
  next
    case False
    with d(3) [of b] e(1,3,6) show ?thesis by auto
  qed
  have 4: "\<not> w_signaling (sync_at s' b)"
    if "\<not> lock_live s' b \<or> \<not> cond_live s' b \<or> pc s' v = Rel R40 b \<or> pc s' v = Rel R41 b" for v b
  proof
    assume "w_signaling (sync_at s' b)"
    then have s: "w_signaling (sync_at s b)" by (simp add: e(3))
    have "\<not> (pc s' v = Rel R40 b \<or> pc s' v = Rel R41 b)"
      using d(6,7) [OF s] c(11) [of _ b] s frame by (cases "v = t") auto
    with that live [of b] d(4-7) [OF s] show False by blast
  qed
  show ?thesis unfolding inv_signal_def using 1 2 3 4 by blast
qed

text \<open>Only the thread that waits on an object sleeps on it, so one signal wakes it.\<close>

lemma signalled_awake:
  assumes own: "inv_own s" and ex: "exec cfg u s = Ret s'" and sg: "signals (pc s u) = Some a"
  shows "t \<notin> set (waiters s' a)"
proof -
  note d = inv_ownD [OF own]
  have one: "v = w" if "v \<in> set (waiters s a)" "w \<in> set (waiters s a)" for v w
    using d(4) [of v a w] d(8) [OF that(1)] d(8) [OF that(2)] by simp
  have "set (tl (waiters s a)) = {}"
  proof (cases "waiters s a")
    case (Cons x xs)
    have "xs = []"
    proof (cases xs)
      case (Cons y ys)
      with one [of x y] d(7) [of a] \<open>waiters s a = x # xs\<close> show ?thesis by simp
    qed
    with Cons show ?thesis by simp
  qed simp
  moreover have "pc s u \<noteq> Wait L83 a" using sg by auto
  ultimately show ?thesis using exec_waiters [OF ex, of a] sg by simp
qed

lemma inv_done_other:
  assumes inv: "inv_exact cfg s" and ex: "exec cfg t s = Ret s'" and up: "updates (pc s t) = None"
  shows "inv_done s'"
proof -
  from inv have dn: "inv_done s" and th: "uses_threads s" and cm: "calm cfg (pc s t)" and own: "inv_own s"
    and lk: "inv_locks s" and st: "w_status (sync_at s a) = 0" for a
    by (auto simp: inv_exact_def inv_ring_def inv_locks_def inv_count_def)
  note d = inv_doneD [OF dn] and e = other_effect [OF inv ex up] and c = exec_calm_other [OF ex up cm th]
  have frame: "v \<noteq> t \<Longrightarrow> pc s' v = pc s v" for v by (subst exec_pc [OF ex]) simp
  have 1: "\<exists>w. will_signal (pc s' w) = Some b" if sl: "sleepy s' v b" and "completed s' b" for v b
  proof -
    from that(2) e(7) have cb: "completed s b" by simp
    have hope: "hopeful (pc s v) = Some b"
      using sl c(8) [of b] cb frame by (cases "v = t") (auto simp: sleepy_def)
    have "sleepy s v b"
      unfolding sleepy_def
    proof (intro conjI impI hope)
      assume w: "pc s v = Wait L83w b"
      show "v \<in> set (waiters s b)"
      proof (cases "v = t")
        case True
        with w ex sl show ?thesis by (auto simp: exec_defs sleepy_def)
      next
        case False
        with w sl frame have "v \<in> set (waiters s' b)" by (simp add: sleepy_def)
        then have "v \<in> set (waiters s b) \<or> v = t"
          by (auto simp: exec_waiters [OF ex] dest: in_set_tl split: if_splits)
        with False show ?thesis by simp
      qed
    qed
    from d(1) [OF this cb] obtain w where w: "will_signal (pc s w) = Some b" by blast
    have "\<not> (w = t \<and> signals (pc s t) = will_signal (pc s t))"
    proof
      assume a: "w = t \<and> signals (pc s t) = will_signal (pc s t)"
      with w have sg: "signals (pc s t) = Some b" by simp
      have tv: "v \<noteq> t" using hope sg by (cases "pc s t") auto
      have "holds (pc s t) = Some b" using sg by (cases "pc s t") (auto split: if_splits)
      with lk tv have "holds (pc s v) \<noteq> Some b" using holds_unique by blast
      with hope have "pc s v = Wait L83w b" by (cases "pc s v") (auto split: if_splits)
      with sl tv frame have "v \<in> set (waiters s' b)" by (simp add: sleepy_def)
      with signalled_awake [OF own ex sg] show False by blast
    qed
    with w c(7) frame show ?thesis by (intro exI [of _ w]) (cases "w = t", auto)
  qed
  have 2: "completed s' b" if "past (pc s' v) = Some b" for v b
    using that d(2) [of v b] c(9) [of b] e(7) frame by (cases "v = t") auto
  have 3: "r = SUCCESS" if "pc s' v = Returned b r" for v b r
    using that d(3) [of v b r] c(10) [of b r] st frame by (cases "v = t") auto
  show ?thesis unfolding inv_done_def using 1 2 3 by blast
qed

section \<open>Calls\<close>

lemma exact_call:
  assumes "start_call cfg t c s = Some s'" "exact_client cfg s c" "calm cfg (pc s t)"
  shows "calm cfg (pc s' t)" "signaller (pc s' t) = None" "hopeful (pc s' t) = None" "signaller (pc s t) = None"
    "pc s' t \<noteq> Returned a r" "pc s' t \<noteq> Rel R40 a" "pc s' t \<noteq> Rel R41 a" "pend a (pc s t) = 0"
    "outstanding s' a = outstanding s a - pend a (pc s' t)"
    "updates (pc s' t) = Some a \<Longrightarrow> 0 \<le> outstanding s' a"
    "past (pc s' t) = Some a \<Longrightarrow> past (pc s t) = Some a"
  using assms by (cases c; auto split: if_splits pc.splits)+

lemma inv_count_call:
  assumes inv: "inv_count cfg s" and t: "t < cfg_threads cfg"
    and st: "start_call cfg t c s = Some s'" and cl: "exact_client cfg s c"
  shows "inv_count cfg s'"
proof -
  note d = inv_countD [OF inv] and e = exact_call [OF st cl inv_countD(1) [OF inv]] and fr = call_frame [OF st]
  have frame: "v \<noteq> t \<Longrightarrow> pc s' v = pc s v" for v by (subst fr(6)) simp
  have 1: "calm cfg (pc s' v)" for v using d(1) [of v] e(1) frame by (cases "v = t") auto
  have 2: "sint (w_count (sync_at s' b)) = unreported cfg s' b" for b
    using d(2) [of b] unreported_step [OF fr(6) t, of b] e(8,9) [of b] by (simp add: fr(1))
  have 3: "0 \<le> outstanding s' b" if "updates (pc s' v) = Some b" for v b
  proof (cases "updates (pc s' t) = Some b")
    case False
    with that frame have "updates (pc s v) = Some b" by (cases "v = t") auto
    with d(3) e(9) [of b] pend_updates [OF False] show ?thesis by simp
  qed (rule e(10))
  show ?thesis unfolding inv_count_def using 1 2 3 d(4) fr(1) by simp
qed

lemma inv_signal_call:
  assumes inv: "inv_signal s" and st: "start_call cfg t c s = Some s'" and cl: "exact_client cfg s c"
    and cm: "calm cfg (pc s t)"
  shows "inv_signal s'"
proof -
  note d = inv_signalD [OF inv] and e = exact_call [OF st cl cm] and fr = call_frame [OF st]
  have frame: "v \<noteq> t \<Longrightarrow> pc s' v = pc s v" for v by (subst fr(6)) simp
  have sg: "signaller (pc s' v) = signaller (pc s v)" for v
    using e(2,4) frame by (cases "v = t") auto
  have rel: "(pc s' v = Rel R40 a \<or> pc s' v = Rel R41 a) \<Longrightarrow> (pc s v = Rel R40 a \<or> pc s v = Rel R41 a)" for v a
    using e(6,7) frame by (cases "v = t") auto
  from inv rel show ?thesis unfolding inv_signal_def sg fr(1) by blast
qed

lemma inv_done_call:
  assumes inv: "inv_done s" and st: "start_call cfg t c s = Some s'" and cl: "exact_client cfg s c"
    and cm: "calm cfg (pc s t)"
  shows "inv_done s'"
proof -
  note d = inv_doneD [OF inv] and e = exact_call [OF st cl cm] and fr = call_frame [OF st]
  have frame: "v \<noteq> t \<Longrightarrow> pc s' v = pc s v" for v by (subst fr(6)) simp
  have co: "completed s' = completed s" by (intro ext) (simp add: completed_def fr(1))
  have 1: "\<exists>u. will_signal (pc s' u) = Some a" if "sleepy s' v a" "completed s' a" for v a
  proof -
    have "v \<noteq> t" using that(1) e(3) by (auto simp: sleepy_def)
    with that frame co d(1) [of v a] fr(1) obtain u where u: "will_signal (pc s u) = Some a"
      by (auto simp: sleepy_def)
    with e(4) will_signal_signaller [OF u] have "u \<noteq> t" by auto
    with u frame show ?thesis by metis
  qed
  have 2: "completed s' a" if "past (pc s' v) = Some a" for v a
    using that d(2) [of v a] e(11) frame co by (cases "v = t") auto
  have 3: "r = SUCCESS" if "pc s' v = Returned a r" for v a r
    using that d(3) e(5) frame by (cases "v = t") auto
  show ?thesis unfolding inv_done_def using 1 2 3 by blast
qed

lemma inv_exact_spurious:
  assumes "inv_exact cfg s" "inv_ring (spurious t a s)" "inv_tids cfg (spurious t a s)"
  shows "inv_exact cfg (spurious t a s)"
proof -
  let ?s = "spurious t a s"
  have same: "pc ?s = pc s" "outstanding ?s = outstanding s" "w_count (sync_at ?s b) = w_count (sync_at s b)"
    "w_status (sync_at ?s b) = w_status (sync_at s b)" "w_signaling (sync_at ?s b) = w_signaling (sync_at s b)"
    "lock_live ?s b = lock_live s b" "cond_live ?s b = cond_live s b" for b
    by (simp_all add: spurious_def)
  have co: "completed ?s = completed s" by (intro ext) (simp add: completed_def same)
  have un: "unreported cfg ?s = unreported cfg s" by (intro ext) (simp add: unreported_def same)
  have sl: "sleepy ?s v b \<Longrightarrow> sleepy s v b" for v b
    by (auto simp: sleepy_def spurious_def dest: set_remove1_subset [THEN subsetD] split: if_splits)
  from assms(1) have i: "inv_count cfg s" "inv_signal s" "inv_done s" by (simp_all add: inv_exact_def)
  from i(1) have "inv_count cfg ?s" unfolding inv_count_def same un .
  moreover from i(2) have "inv_signal ?s" unfolding inv_signal_def same .
  moreover from i(3) sl have "inv_done ?s" unfolding inv_done_def same co by blast
  ultimately show ?thesis using assms(2,3) by (simp add: inv_exact_def)
qed

lemma inv_exact_init: "wait_init s \<Longrightarrow> inv_exact cfg s"
  using rg.inv_init [of s] inv_tids_init [of s cfg]
  by (auto simp: inv_exact_def wait_init_def init_machine_def inv_count_def inv_signal_def inv_done_def
      unreported_def sleepy_def amutex_init_def acond_init_def)

lemma inv_exact_step:
  assumes inv: "inv_exact cfg s" and ok: "atomic_lib_ok (cfg_atomics cfg)"
    and st: "wstep cfg (exact_client cfg) s s'"
  shows "inv_exact cfg s'"
proof -
  have r: "inv_ring s'" and i: "inv_tids cfg s'"
    using rg.inv_step [OF _ st] inv_tids_step [OF _ st] inv by (auto simp: inv_exact_def)
  from st show ?thesis
  proof cases
    case (run t)
    show ?thesis
    proof (cases "updates (pc s t)")
      case None
      with inv_count_other [OF inv run] inv_signal_other [OF inv run(2)] inv_done_other [OF inv run(2)] r i
      show ?thesis by (simp add: inv_exact_def)
    next
      case (Some a)
      then obtain u st k where p: "pc s t = Upd a u st k" by (cases "pc s t") auto
      show ?thesis unfolding inv_exact_def
        using inv_count_update [OF inv ok run p] inv_signal_update [OF inv ok run p]
          inv_done_update [OF inv ok run p] r i by blast
    qed
  next
    case (call t c)
    from inv have cm: "calm cfg (pc s t)" and d: "inv_count cfg s" "inv_signal s" "inv_done s"
      by (auto simp: inv_exact_def inv_count_def)
    from inv_count_call [OF d(1) call(1,3,2)] inv_signal_call [OF d(2) call(3,2) cm]
      inv_done_call [OF d(3) call(3,2) cm] r i show ?thesis by (simp add: inv_exact_def)
  next
    case (wake t a)
    with inv r i show ?thesis by (simp add: inv_exact_spurious)
  qed
qed

interpretation ex: inv_system wait_init "wstep cfg (exact_client cfg)"
  "\<lambda>s. atomic_lib_ok (cfg_atomics cfg) \<longrightarrow> inv_exact cfg s" for cfg
  by unfold_locales (auto intro: inv_exact_init inv_exact_step)

section \<open>Nothing undefined happens\<close>

lemma lock_defined:
  "wf_lock m \<Longrightarrow> mx_live m \<Longrightarrow> amutex_lock t m \<noteq> UB" "mx_live m \<Longrightarrow> amutex_lock t m \<noteq> AssertFail"
  "mx_live m \<Longrightarrow> mx_owner m = Some t \<Longrightarrow> \<exists>m'. amutex_unlock t m = Ret m'"
  by (auto simp: amutex_lock_def amutex_unlock_def wf_lock_def split: option.splits)

lemma negate_positive: "0 < sint u \<Longrightarrow> c_ssub 0 u = Ret (- u)" for u :: i32
  using fits_sint [of u] by (simp add: c_ssub_def fits_def)

lemma head_live:
  assumes inv: "inv_ring s" and p: "pc s t = Pass l a b"
  shows "lock_live s b" "cond_live s b"
proof -
  from inv have own: "inv_own s" and cur: "inv_cursor s" by (auto simp: inv_ring_def)
  from inv obtain xs where "pending s xs" by (auto simp: inv_ring_def)
  from pending_head [OF this inv_cursorD(2) [OF cur p]] obtain u where u: "onlist (pc s u) = Some b" by blast
  then have "pc s u \<noteq> Rel R41 b" by auto
  with inv_ownD(2,3) [OF own onlist_owns [OF u]] show "lock_live s b" "cond_live s b" by auto
qed

lemma list_ops_defined:
  assumes inv: "inv_ring s"
  shows "pc s t = Wait L64 a \<Longrightarrow> \<exists>s'. wait_list_insert a s = Ret s'"
    "pc s t = Wait L110 a \<Longrightarrow> \<exists>n s'. wait_list_remove a s = Ret (n, s')"
proof -
  from inv have own: "inv_own s" by (simp add: inv_ring_def)
  from inv obtain xs where wl: "wait_list s xs"
    and mem: "\<And>b. b \<in> set xs \<longleftrightarrow> (\<exists>t. onlist (pc s t) = Some b)" by (auto simp: inv_ring_def pending_def)
  show "\<exists>s'. wait_list_insert a s = Ret s'" if p: "pc s t = Wait L64 a"
  proof -
    have "a \<notin> set xs"
    proof
      assume "a \<in> set xs"
      with mem obtain u where u: "onlist (pc s u) = Some a" by blast
      with inv_ownD(4) [OF own onlist_owns [OF u], of t] p show False by auto
    qed
    with wq.insert_q [OF wl] show ?thesis by blast
  qed
  show "\<exists>n s'. wait_list_remove a s = Ret (n, s')" if p: "pc s t = Wait L110 a"
  proof -
    have "a \<in> set xs" unfolding mem by (intro exI [of _ t]) (simp add: p)
    with wq.remove_q [OF wl] show ?thesis by blast
  qed
qed

lemma release_defined:
  assumes inv: "inv_exact cfg s" and p: "pc s t = Rel R40 a \<or> pc s t = Rel R41 a"
  shows "waiters s a = []" "mx_owner (w_lock (sync_at s a)) = None"
proof -
  from inv have own: "inv_own s" and lk: "inv_locks s" and sg: "inv_signal s" and cur: "inv_cursor s"
    by (auto simp: inv_exact_def inv_ring_def)
  from inv obtain xs where pe: "pending s xs" by (auto simp: inv_exact_def inv_ring_def)
  have ot: "owns (pc s t) = Some a" using p by auto
  have other: "u = t" if "owns (pc s u) = Some a" for u by (rule inv_ownD(4) [OF own that ot])
  have "u \<notin> set (waiters s a)" for u
    using inv_ownD(8) [OF own, of u a] other [of u] p by auto
  then show "waiters s a = []" by (metis last_in_set)
  show "mx_owner (w_lock (sync_at s a)) = None"
  proof (rule ccontr)
    assume "mx_owner (w_lock (sync_at s a)) \<noteq> None"
    then obtain u where u: "holds (pc s u) = Some a" using inv_locksD(5) [OF lk] by blast
    have ns: "\<not> w_signaling (sync_at s a)" using inv_signalD(6,7) [OF sg] p by blast
    from u consider l where "pc s u = Wait l a" | l x where "pc s u = Pass l x a" | l k where "pc s u = Sig l a k"
      by (cases "pc s u") (auto split: if_splits)
    then show False
    proof cases
      case 1 with other [of u] p show False by auto
    next
      case 2
      with inv_cursorD(2) [OF cur] pending_head [OF pe] obtain v where v: "onlist (pc s v) = Some a" by blast
      with other [OF onlist_owns [OF v]] p show False by auto
    next
      case 3 with ns inv_signalD(3) [OF sg, of a] show False by (metis signaller.simps(1))
    qed
  qed
qed

lemma exact_defined:
  assumes inv: "inv_exact cfg s" and ok: "atomic_lib_ok (cfg_atomics cfg)"
  shows "exec cfg t s \<noteq> UB \<and> exec cfg t s \<noteq> AssertFail"
proof -
  from inv have rg: "inv_ring s" and own: "inv_own s" and lk: "inv_locks s" and sg: "inv_signal s"
    and cm: "calm cfg (pc s t)" and th: "uses_threads s" by (auto simp: inv_exact_def inv_ring_def inv_count_def inv_locks_def)
  have h: "holds (pc s t) = Some a \<Longrightarrow> mx_owner (w_lock (sync_at s a)) = Some t"
    "holds_wsl (pc s t) \<Longrightarrow> mx_owner (wait_sync_lock s) = Some t"
    "mx_live (wait_sync_lock s)" for a using inv_locksD(2,5,6) [OF lk] by blast+
  have wf: "amutex_lock t (w_lock (sync_at s a)) = UB \<Longrightarrow> \<not> lock_live s a"
    "amutex_lock t (wait_sync_lock s) = UB \<Longrightarrow> False" for a
    using lock_defined(1) h(3) lk by (auto simp: inv_locks_def)
  have o: "owns (pc s t) = Some a \<Longrightarrow> lock_live s a"
    "owns (pc s t) = Some a \<Longrightarrow> pc s t \<noteq> Rel R41 a \<Longrightarrow> cond_live s a" for a
    using inv_ownD(2,3) [OF own] by blast+
  have g: "signaller (pc s t) = Some a \<Longrightarrow> lock_live s a" "signaller (pc s t) = Some a \<Longrightarrow> cond_live s a" for a
    using inv_signalD(3-5) [OF sg, of a] by blast+
  note facts = h wf o g head_live [OF rg, of t] list_ops_defined [OF rg, of t] release_defined [OF inv, of t]
  show ?thesis
    using cm th ok facts by (cases "pc s t" rule: pc_line_cases)
      (auto simp: exec_defs obind_eq_UB obind_eq_AssertFail thread_add_fetch_32_atomic negate_positive
        acond_block_def acond_signal_def acond_destroy_def amutex_destroy_def 
        dest: lock_defined(2,3) split: if_splits option.splits)
qed

section \<open>The number of threads in progress\<close>

fun progressing :: "pc \<Rightarrow> int" where
  "progressing (Wait l a) = (if l = L101 \<or> l = L105 then 1 else 0)"
| "progressing _ = 0"

lemma progressing_other [simp]: "progressing (cont_pc a k) = 0" "progressing (glob_next st c) = 0"
  by (cases k; simp) (simp add: glob_next_def split: option.split)

definition inv_progress :: "wait_cfg \<Rightarrow> wait_machine \<Rightarrow> bool" where
  "inv_progress cfg s \<longleftrightarrow> uses_threads s \<and>
     num_thread_in_progress s = word_of_int (\<Sum>t<cfg_threads cfg. progressing (pc s t))"

lemma exec_progressing:
  assumes "exec cfg t s = Ret s'" "uses_threads s" "atomic_lib_ok (cfg_atomics cfg)"
  shows "num_thread_in_progress s' =
    num_thread_in_progress s + word_of_int (progressing (pc s' t) - progressing (pc s t))"
  using assms by (cases "pc s t" rule: pc_line_cases)
    (auto simp: exec_defs thread_add_fetch_32_atomic same_but_links_fields(3,4) split: if_splits option.splits
      dest!: wait_list_insert_links wait_list_remove_links)

lemma inv_progress_step:
  assumes inv: "inv_progress cfg s" and ok: "atomic_lib_ok (cfg_atomics cfg)" and st: "wstep cfg client s s'"
  shows "inv_progress cfg s'"
proof -
  have upd: "(\<Sum>u<cfg_threads cfg. progressing (pc s' u)) =
      (\<Sum>u<cfg_threads cfg. progressing (pc s u)) - progressing (pc s t) + progressing (pc s' t)"
    if "pc s' = (pc s)(t := pc s' t)" "t < cfg_threads cfg" for t
    using sum_fun_upd [of "{..<cfg_threads cfg}" t progressing "pc s" "pc s' t"] that by simp
  from st show ?thesis
  proof cases
    case (run t)
    with upd [OF exec_pc [OF run(2)] run(1)] exec_progressing [OF run(2) _ ok] inv exec_ghost(3) [OF run(2)]
    show ?thesis by (simp add: inv_progress_def)
  next
    case (call t c)
    have "progressing (pc s t) = 0" using call_attrs(9) [OF call(3)] by (cases "pc s t") auto
    moreover have "progressing (pc s' t) = 0"
      using call(3) by (cases c) (auto split: if_splits pc.splits)
    ultimately show ?thesis
      using upd [OF call_frame(6) [OF call(3)] call(1)] call_frame(4,5) [OF call(3)] inv
      by (simp add: inv_progress_def)
  next
    case (wake t a)
    with inv show ?thesis by (simp add: inv_progress_def spurious_def)
  qed
qed

lemma inv_progress_init: "wait_init s \<Longrightarrow> inv_progress cfg s"
  by (auto simp: wait_init_def init_machine_def inv_progress_def)

interpretation pr: inv_system wait_init "wstep cfg client"
  "\<lambda>s. atomic_lib_ok (cfg_atomics cfg) \<longrightarrow> inv_progress cfg s" for cfg client
  by unfold_locales (auto intro: inv_progress_step inv_progress_init)

lemma sum_progressing: "(\<Sum>t<n. progressing (f t)) = int (card {t. t < n \<and> (\<exists>a. f t = Wait L101 a \<or> f t = Wait L105 a)})"
  for n :: nat
proof -
  have p: "progressing q = (if \<exists>a. q = Wait L101 a \<or> q = Wait L105 a then 1 else 0)" for q
    by (cases q) auto
  have "{t. t < n \<and> (\<exists>a. f t = Wait L101 a \<or> f t = Wait L105 a)} =
      {..<n} \<inter> {t. \<exists>a. f t = Wait L101 a \<or> f t = Wait L105 a}" by auto
  then show ?thesis unfolding p by (subst sum.If_cases) simp_all
qed

lemma returned_complete:
  assumes "inv_exact cfg s" "pc s t = Returned a r"
  shows "r = SUCCESS \<and> outstanding s a \<le> 0 \<and> (\<forall>u<cfg_threads cfg. updates (pc s u) \<noteq> Some a)"
proof -
  from assms(1) have cnt: "inv_count cfg s" and dn: "inv_done s" by (auto simp: inv_exact_def)
  have c: "sint (w_count (sync_at s a)) \<le> 0"
    using inv_doneD(2) [OF dn, of t a] assms(2) by (simp add: completed_def)
  have up: "updates (pc s u) \<noteq> Some a" if "u < cfg_threads cfg" for u
    using pend_le_count [OF cnt that, of a] c by auto
  then have "(\<Sum>u<cfg_threads cfg. pend a (pc s u)) = 0" by (intro sum.neutral) (auto intro: pend_updates)
  with c inv_countD(2) [OF cnt, of a] inv_doneD(3) [OF dn assms(2)] up show ?thesis
    by (simp add: unreported_def)
qed

section \<open>Runs\<close>

text \<open>
  A thread asleep on a complete object with the signal on its way, and a wait that has
  returned before the signalling thread is done.
\<close>

definition exact_schedule :: "action list" where
  "exact_schedule = Call 0 (CWait 10) # replicate 9 (Run 0) @ Call 1 (CWait 11) # replicate 9 (Run 1) @
     Call 2 (CUpdate 11 1 0) # [Run 2]"

definition full_schedule :: "action list" where
  "full_schedule = Call 0 (CWait 10) # replicate 9 (Run 0) @ [Call 2 (CUpdate 10 1 0), Run 2] @
     replicate 6 (Run 0)"

lemma exact_reachable:
  "\<exists>s. reach wait_init (wstep demo_cfg (exact_client demo_cfg)) s \<and>
     demo_view s = ([Wait L101 10, Wait L83w 11, Sig S52 11 KReturn], Some 10, [1]) \<and> w_count (sync_at s 11) = 0"
proof -
  have "map_option (\<lambda>s. (demo_view s, w_count (sync_at s 11)))
        (schedule demo_cfg (exact_client demo_cfg) exact_schedule (init_machine (\<lambda>_. 1)))
      = Some (([Wait L101 10, Wait L83w 11, Sig S52 11 KReturn], Some 10, [1]), 0)"
    by code_simp
  then show ?thesis by (auto dest: schedule_init_reach)
qed

lemma exact_returned:
  "\<exists>s. reach wait_init (wstep demo_cfg (exact_client demo_cfg)) s \<and>
     map (pc s) [0, 1, 2] = [Returned 10 SUCCESS, Idle, Sig S52 10 KReturn]"
proof -
  have "map_option (\<lambda>s. map (pc s) [0, 1, 2])
        (schedule demo_cfg (exact_client demo_cfg) full_schedule (init_machine (\<lambda>_. 1)))
      = Some [Returned 10 SUCCESS, Idle, Sig S52 10 KReturn]"
    by code_simp
  then show ?thesis by (auto dest: schedule_init_reach)
qed

lemma demo_atomics_ok: "atomic_lib_ok (cfg_atomics demo_cfg)"
  by (simp add: demo_cfg_def ref_atomics_ok)

lemma exact_releasing:
  "\<exists>s. reach wait_init (wstep demo_cfg (exact_client demo_cfg)) s \<and> pc s 0 = Rel R34 10 \<and>
     w_signaling (sync_at s 10) \<and> outstanding s 10 = 0 \<and> uses_threads s"
proof -
  have "map_option (\<lambda>s. (pc s 0, w_signaling (sync_at s 10), outstanding s 10, uses_threads s))
        (schedule demo_cfg (exact_client demo_cfg) (full_schedule @ [Call 0 (CRelease 10)]) (init_machine (\<lambda>_. 1)))
      = Some (Rel R34 10, True, 0, True)"
    by code_simp
  then show ?thesis by (auto dest: schedule_init_reach)
qed

text \<open>
  Callers that report each operation at most once, but may report that it failed: without
  failures they are the callers above.

  Thread 0 waits on object 10, which has two operations, and both fail. Thread 1 reports the
  first failure and is about to signal; thread 2 reports the second one, signals and clears
  \<open>signaling\<close>; thread 0 returns and releases the object. Thread 1 then locks a destroyed lock.
\<close>

fun error_client :: "wait_cfg \<Rightarrow> ('c, 'm, 'g) machine \<Rightarrow> call \<Rightarrow> bool" where
  "error_client cfg s (CUpdate a u st) \<longleftrightarrow> 0 < sint u \<and> sint u \<le> outstanding s a"
| "error_client cfg s (CWakeup st) \<longleftrightarrow> False"
| "error_client cfg s c \<longleftrightarrow> True"

lemma exact_iff_no_error:
  "exact_client cfg s c \<longleftrightarrow> error_client cfg s c \<and> (\<forall>a u st. c = CUpdate a u st \<longrightarrow> st = cfg_SUCCESS cfg)"
  by (cases c) auto

definition race_schedule :: "action list" where
  "race_schedule = Call 0 (CWait 10) # replicate 9 (Run 0) @ [Call 1 (CUpdate 10 1 7), Run 1, Run 1] @
     Call 2 (CUpdate 10 1 7) # replicate 6 (Run 2) @ replicate 6 (Run 0) @ Call 0 (CRelease 10) # replicate 3 (Run 0)"

section \<open>Properties\<close>

text \<open>
  C12. In every reachable state the count of an object is the number of operations that have
  not been reported plus those that a running \<open>wait_sync_update\<close> is about to subtract: no
  report is lost or counted twice, whatever the interleaving.
\<close>

theorem count_is_unreported:
  assumes "reach wait_init (wstep cfg (exact_client cfg)) s" "atomic_lib_ok (cfg_atomics cfg)"
  shows "sint (w_count (sync_at s a)) = outstanding s a + (\<Sum>t<cfg_threads cfg. pend a (pc s t))"
  using ex.reach_inv [OF assms(1)] assms(2) inv_countD(2) by (auto simp: inv_exact_def unreported_def)

theorem count_is_unreported_witness:
  "\<exists>s. demo_view s = ([Wait L101 10, Wait L83w 11, Sig S52 11 KReturn], Some 10, [1]) \<and>
     sint (w_count (sync_at s 10)) = outstanding s 10 + (\<Sum>t<3. pend 10 (pc s t))"
  using exact_reachable count_is_unreported [OF _ demo_atomics_ok, of _ 10] by (auto simp: demo_cfg_def)

text \<open>
  C13. A wait that has returned reports success, all its operations have been reported, and
  no thread is about to report another.
\<close>

theorem exact_wait_returns_complete:
  assumes "reach wait_init (wstep cfg (exact_client cfg)) s" "atomic_lib_ok (cfg_atomics cfg)"
    and "pc s t = Returned a r"
  shows "r = SUCCESS \<and> outstanding s a \<le> 0 \<and> (\<forall>u<cfg_threads cfg. updates (pc s u) \<noteq> Some a)"
  using returned_complete ex.reach_inv [OF assms(1)] assms(2,3) by blast

theorem exact_wait_returns_complete_witness:
  "\<exists>s :: wait_machine. pc s 0 = Returned 10 SUCCESS \<and> outstanding s 10 \<le> 0"
proof -
  from exact_returned obtain s where s: "reach wait_init (wstep demo_cfg (exact_client demo_cfg)) s"
    "pc s 0 = Returned 10 SUCCESS" by auto
  with exact_wait_returns_complete [OF s(1) demo_atomics_ok s(2)] show ?thesis by blast
qed

text \<open>
  C7. No completion is lost. When a thread is asleep on its object, or holds the object's
  lock on its way to sleep, and the object is complete, another thread has yet to signal it.
\<close>

theorem no_lost_completion:
  assumes "reach wait_init (wstep cfg (exact_client cfg)) s" "atomic_lib_ok (cfg_atomics cfg)"
    and "sleepy s t a" "completed s a"
  shows "\<exists>u<cfg_threads cfg. will_signal (pc s u) = Some a"
proof -
  from ex.reach_inv [OF assms(1)] assms(2) have dn: "inv_done s" and td: "inv_tids cfg s"
    by (auto simp: inv_exact_def)
  from inv_doneD(1) [OF dn assms(3,4)] obtain u where u: "will_signal (pc s u) = Some a" by blast
  then have "pc s u \<noteq> Idle" by auto
  with td u show ?thesis by (auto simp: inv_tids_def)
qed

theorem no_lost_completion_witness:
  "\<exists>s. pc s 1 = Wait L83w 11 \<and> waiters s 11 = [1] \<and> (\<exists>u<3. will_signal (pc s u) = Some 11)"
proof -
  from exact_reachable obtain s where s: "reach wait_init (wstep demo_cfg (exact_client demo_cfg)) s"
    "demo_view s = ([Wait L101 10, Wait L83w 11, Sig S52 11 KReturn], Some 10, [1])" "w_count (sync_at s 11) = 0"
    by blast
  then have "sleepy s 1 11" "completed s 11" by (simp_all add: demo_view_def sleepy_def completed_def)
  with no_lost_completion [OF s(1) demo_atomics_ok] s(2) show ?thesis
    by (auto simp: demo_view_def demo_cfg_def)
qed

text \<open>
  C8. Nothing undefined happens: no thread uses a lock or a condition variable that has been
  destroyed, unlocks a lock it does not hold, destroys a lock that is held or a condition
  somebody sleeps on, follows a null link or overflows the count.
\<close>

theorem exact_never_undefined:
  assumes "reach wait_init (wstep cfg (exact_client cfg)) s" "atomic_lib_ok (cfg_atomics cfg)"
  shows "exec cfg t s \<noteq> UB \<and> exec cfg t s \<noteq> AssertFail"
  using ex.reach_inv [OF assms(1)] assms(2) exact_defined by blast

theorem exact_never_undefined_witness:
  "\<exists>s. pc s 2 = Sig S52 11 KReturn \<and> exec demo_cfg 2 s \<noteq> UB"
  using exact_reachable exact_never_undefined [OF _ demo_atomics_ok, of _ 2] by (auto simp: demo_view_def)

text \<open>
  C16. For callers that report each operation at most once and no error: when
  \<open>WAIT_SYNC_RELEASE\<close> spins, either a signalling thread is still at work on the object and some
  thread of the machine can take a step, or the object was initialised with a negative
  count.
\<close>

theorem release_waits_for_signaller:
  assumes "reach wait_init (wstep cfg (exact_client cfg)) s" "atomic_lib_ok (cfg_atomics cfg)"
    and "pc s t = Rel R34 a" "exec cfg t s = Block"
  shows "(\<exists>u. signaller (pc s u) = Some a) \<and> (\<exists>v s'. v < cfg_threads cfg \<and> exec cfg v s = Ret s') \<or> outstanding s a < 0"
proof (cases "outstanding s a < 0")
  case False
  from ex.reach_inv [OF assms(1)] assms(2) have rg: "inv_ring s" and td: "inv_tids cfg s"
    and cnt: "inv_count cfg s" and sg: "inv_signal s" and dn: "inv_done s" by (auto simp: inv_exact_def)
  have "sint (w_count (sync_at s a)) \<le> 0"
    using inv_doneD(2) [OF dn, of t a] assms(3) by (simp add: completed_def)
  moreover have "0 \<le> (\<Sum>u<cfg_threads cfg. pend a (pc s u))"
    by (intro sum_nonneg pend_nonneg [OF inv_countD(1) [OF cnt]])
  ultimately have "sint (w_count (sync_at s a)) = 0"
    using inv_countD(2) [OF cnt, of a] False by (simp add: unreported_def)
  moreover have "w_signaling (sync_at s a)"
    using assms(3,4) by (auto simp: exec_defs split: if_splits)
  ultimately obtain u where u: "signaller (pc s u) = Some a"
    using inv_signalD(3) [OF sg, of a] signed_eq_0_iff by blast
  then have "\<not> at_rest (pc s u)" by (cases "pc s u") auto
  with deadlock_free [OF rg td] obtain v where v: "v < cfg_threads cfg" "exec cfg v s \<noteq> Block" by blast
  with ex.reach_inv [OF assms(1)] assms(2) exact_defined [of cfg s v] obtain s' where "exec cfg v s = Ret s'"
    by (cases "exec cfg v s") auto
  with u v(1) show ?thesis by blast
qed simp

theorem release_waits_for_signaller_witness:
  "\<exists>s. pc s 0 = Rel R34 10 \<and> (\<exists>u. signaller (pc s u) = Some 10) \<and> (\<exists>v s'. v < 3 \<and> exec demo_cfg v s = Ret s')"
proof -
  from exact_releasing obtain s where s: "reach wait_init (wstep demo_cfg (exact_client demo_cfg)) s"
    "pc s 0 = Rel R34 10" "w_signaling (sync_at s 10)" "outstanding s 10 = 0" "uses_threads s" by blast
  then have "exec demo_cfg 0 s = Block" by (simp add: exec_def using_threads_def)
  with release_waits_for_signaller [OF s(1) demo_atomics_ok s(2)] s have
    "(\<exists>u. signaller (pc s u) = Some 10) \<and> (\<exists>v s'. v < cfg_threads demo_cfg \<and> exec demo_cfg v s = Ret s')" by simp
  moreover have "cfg_threads demo_cfg = 3" by (simp add: demo_cfg_def)
  ultimately show ?thesis using s(2) by auto
qed

text \<open>
  C27. Whatever the callers do, \<open>num_thread_in_progress\<close> is the number of threads that are
  between its increment and its decrement.
\<close>

theorem num_thread_in_progress_exact:
  assumes "reach wait_init (wstep cfg any_client) s" "atomic_lib_ok (cfg_atomics cfg)"
    and "cfg_threads cfg < 2 ^ 31"
  shows "sint (num_thread_in_progress s) =
    int (card {t. t < cfg_threads cfg \<and> (\<exists>a. pc s t = Wait L101 a \<or> pc s t = Wait L105 a)})"
proof -
  let ?C = "{t. t < cfg_threads cfg \<and> (\<exists>a. pc s t = Wait L101 a \<or> pc s t = Wait L105 a)}"
  from pr.reach_inv [OF assms(1)] assms(2) have
    n: "num_thread_in_progress s = word_of_int (\<Sum>t<cfg_threads cfg. progressing (pc s t))"
    by (auto simp only: inv_progress_def)
  have "card ?C \<le> card {..<cfg_threads cfg}" by (rule card_mono) auto
  with assms(3) have "fits TYPE(32) (int (card ?C))" by (simp add: fits_def)
  then show ?thesis unfolding n sum_progressing by (rule sint_of_fits)
qed

theorem num_thread_in_progress_exact_witness:
  "\<exists>s :: wait_machine. pc s 0 = Pass P36 10 11 \<and> sint (num_thread_in_progress s) =
     int (card {t. t < 3 \<and> (\<exists>a. pc s t = Wait L101 a \<or> pc s t = Wait L105 a)})"
proof -
  from demo_reachable obtain s where s: "reach wait_init (wstep demo_cfg any_client) s"
    "pc s 0 = Pass P36 10 11" by (auto simp: demo_view_def)
  have n: "cfg_threads demo_cfg = 3" by (simp add: demo_cfg_def)
  from num_thread_in_progress_exact [OF s(1) demo_atomics_ok] s(2) show ?thesis unfolding n by auto
qed

section \<open>The race of an error with the release\<close>

text \<open>
  C28. Callers that report each operation at most once, some as failed: if two operations of
  an object fail, both updates signal, the protection by \<open>signaling\<close> fails, and there is a
  reachable state in which the status of the object is the error, the waiting thread has
  destroyed the object and a signalling thread is about to lock its destroyed lock. Callers
  that differ from these only in reporting no error never get to an undefined step.
\<close>

theorem error_races_with_release:
  "\<exists>s. reach wait_init (wstep demo_cfg (error_client demo_cfg)) s \<and> w_status (sync_at s 10) \<noteq> cfg_SUCCESS demo_cfg \<and>
       pc s 0 = Released 10 \<and> pc s 1 = Sig S52 10 KReturn \<and> exec demo_cfg 1 s = UB"
proof -
  let ?f = "\<lambda>s. (pc s 0, pc s 1, mx_live (w_lock (sync_at s 10)), uses_threads s, w_status (sync_at s 10) \<noteq> cfg_SUCCESS demo_cfg)"
  have "map_option ?f (schedule demo_cfg (error_client demo_cfg) race_schedule (init_machine (\<lambda>_. 2)))
      = Some (Released 10, Sig S52 10 KReturn, False, True, True)"
    by code_simp
  then obtain s where s: "reach wait_init (wstep demo_cfg (error_client demo_cfg)) s"
    and v: "?f s = (Released 10, Sig S52 10 KReturn, False, True, True)" by (auto dest: schedule_init_reach)
  then have "exec demo_cfg 1 s = UB" by (simp add: exec_defs amutex_lock_def)
  with s v show ?thesis by auto
qed

end
