(* ===== verification/Wait_Settle.thy ===== *)
theory Wait_Settle
  imports Wait_Exact
begin

text \<open>
  Every wait ends. Once the callers make no further calls the machine of \<open>Wait_Machine\<close>
  comes to rest after a bounded number of steps, whatever the schedule and whatever the
  callers did before, and then the threads still inside a call sleep or call \<open>progress()\<close>. If
  the callers report each operation at most once and no error, each wait that is still open
  waits for an operation that nobody has reported.
\<close>

section \<open>Steps that change the state\<close>

text \<open>
  The one step that changes nothing is a round of the loop that calls \<open>progress()\<close>: what
  \<open>progress()\<close> does is done by other threads of the machine. \<open>moves cfg s n s'\<close>: a run of
  \<open>n\<close> steps from \<open>s\<close> to \<open>s'\<close>, each by some thread and each changing the state.
\<close>

inductive moves :: "wait_cfg \<Rightarrow> wait_machine \<Rightarrow> nat \<Rightarrow> wait_machine \<Rightarrow> bool" for cfg where
  moves_none: "moves cfg s 0 s"
| moves_step: "moves cfg s n s1 \<Longrightarrow> t < cfg_threads cfg \<Longrightarrow> exec cfg t s1 = Ret s2 \<Longrightarrow> s2 \<noteq> s1 \<Longrightarrow>
    moves cfg s (Suc n) s2"

definition at_fixpoint :: "wait_cfg \<Rightarrow> wait_machine \<Rightarrow> bool" where
  "at_fixpoint cfg s \<longleftrightarrow> (\<forall>t<cfg_threads cfg. exec cfg t s = Block \<or> exec cfg t s = Ret s)"

lemma moves_reach:
  "moves cfg s n s' \<Longrightarrow> reach wait_init (wstep cfg client) s \<Longrightarrow> reach wait_init (wstep cfg client) s'"
  by (induction rule: moves.induct) (auto intro: reach.intros wstep.run)

lemma moves_outstanding: "moves cfg s n s' \<Longrightarrow> outstanding s' = outstanding s"
  by (induction rule: moves.induct) (auto simp: exec_ghost(2))

lemma goto_here: "pc s t = p \<Longrightarrow> goto t p s = s"
  by (simp add: goto_def fun_upd_idem)

lemma exec_changes_pc:
  assumes "exec cfg t s = Ret s'" "pc s' t = pc s t"
  shows "\<exists>a. pc s t = Wait L101 a \<and> \<not> completed s a \<and> s' = s"
proof -
  have "cont_pc a k \<noteq> Upd b u st k'" "cont_pc a k \<noteq> Sig l b k'" "glob_next st x \<noteq> GlobAt st' y"
    "glob_next st x \<noteq> Glob G18 st'" for a k b u st k' l st' x y
    by (cases k; simp add: glob_next_def split: option.splits)+
  with assms show ?thesis
    by (cases "pc s t" rule: pc_line_cases)
      (auto simp: exec_defs goto_here split: if_splits option.splits)
qed

section \<open>Work left\<close>

text \<open>
  How many steps a thread is from the end of its call. Only a signal sends another thread
  back to work, from sleep to at most five steps further from its next sleep, so a signal
  is worth five steps more. A global wake-up takes twelve for every object it has yet to
  visit: \<open>after xs a\<close> is the number of objects that come after \<open>a\<close> in the ring \<open>xs\<close>, and before
  it has read the ring there are at most \<open>N\<close>, the number of threads.
\<close>

definition after :: "addr list \<Rightarrow> addr \<Rightarrow> nat" where
  "after xs a = length (tl (dropWhile (\<lambda>x. x \<noteq> a) xs))"

fun line_work :: "wline \<Rightarrow> nat" where
  "line_work L47 = 26" | "line_work L52 = 25" | "line_work L57 = 24" | "line_work L58 = 2"
| "line_work L63 = 23" | "line_work L64 = 22" | "line_work L73 = 21" | "line_work L82 = 20"
| "line_work L82n = 19" | "line_work L83 = 18" | "line_work L83w = 17" | "line_work L91 = 21"
| "line_work L92 = 13" | "line_work L98 = 16" | "line_work L100 = 15" | "line_work L101 = 14"
| "line_work L105 = 13" | "line_work L109 = 12" | "line_work L110 = 11" | "line_work L119 = 2"
| "line_work L121 = 1"

fun cont_work :: "addr list \<Rightarrow> addr \<Rightarrow> cont \<Rightarrow> nat" where
  "cont_work xs a KReturn = 0"
| "cont_work xs a (KWakeup st) = 2 + 12 * after xs a"

fun pc_work :: "nat \<Rightarrow> addr list \<Rightarrow> pc \<Rightarrow> nat" where
  "pc_work N xs (Wait l a) = line_work l"
| "pc_work N xs (Pass p a b) = (case p of P36 \<Rightarrow> 10 | P37 \<Rightarrow> 9 | P38 \<Rightarrow> 3)"
| "pc_work N xs (Upd a u st k) = 11 + cont_work xs a k"
| "pc_work N xs (Swp a k) = 10 + cont_work xs a k"
| "pc_work N xs (Sig l a k) = (case l of S52 \<Rightarrow> 9 | S53 \<Rightarrow> 8 | S54 \<Rightarrow> 2 | S55 \<Rightarrow> 1) + cont_work xs a k"
| "pc_work N xs (Glob g st) = (case g of G17 \<Rightarrow> 3 + 12 * N | G18 \<Rightarrow> 2 + 12 * N | G29 \<Rightarrow> 1)"
| "pc_work N xs (GlobAt st a) = 2 + 12 * after xs a"
| "pc_work N xs (Rel r a) = (case r of R34 \<Rightarrow> 3 | R40 \<Rightarrow> 2 | R41 \<Rightarrow> 1)"
| "pc_work N xs _ = 0"

fun awake :: "wait_machine \<Rightarrow> tid \<Rightarrow> bool" where
  "awake s t \<longleftrightarrow> (\<exists>a. pc s t = Wait L83w a \<and> t \<notin> set (waiters s a))"

definition thread_work :: "nat \<Rightarrow> addr list \<Rightarrow> wait_machine \<Rightarrow> tid \<Rightarrow> nat" where
  "thread_work N xs s t = pc_work N xs (pc s t) + (if awake s t then 5 else 0)"

definition work :: "wait_cfg \<Rightarrow> addr list \<Rightarrow> wait_machine \<Rightarrow> nat" where
  "work cfg xs s = (\<Sum>t<cfg_threads cfg. thread_work (cfg_threads cfg) xs s t)"

lemma after_split: "a \<notin> set as \<Longrightarrow> after (as @ a # bs) a = length bs"
  by (induction as) (auto simp: after_def)

lemma after_le: "after xs a \<le> length xs"
  using length_dropWhile_le [of "\<lambda>x. x \<noteq> a" xs] by (simp add: after_def)

lemma thread_work_le:
  assumes "length xs \<le> N"
  shows "thread_work N xs s t \<le> 26 + 12 * N"
proof -
  have af: "after xs a \<le> N" for a using after_le [of xs a] assms by simp
  have cw: "c \<ge> 2 \<Longrightarrow> cont_work xs a k \<le> c + 12 * N" for a k c using af [of a] by (cases k) auto
  have gw: "12 * after xs a \<le> c + 12 * N" for a c using af [of a] by simp
  have "pc_work N xs p \<le> 26 + 12 * N" if "\<And>a. p \<noteq> Wait L83w a" for p
    using that by (cases p rule: pc_line_cases) (auto simp: cw gw)
  then show ?thesis by (cases "\<exists>a. pc s t = Wait L83w a") (auto simp: thread_work_def)
qed

lemma pc_work_cong: "visits p = None \<Longrightarrow> pc_work N ys p = pc_work N xs p"
proof -
  have "\<not> in_wakeup k \<Longrightarrow> cont_work xs a k = 0" for xs a k by (cases k) simp_all
  then show "visits p = None \<Longrightarrow> pc_work N ys p = pc_work N xs p" by (cases p) (auto split: if_splits)
qed

lemma calm_work_le: "calm cfg (pc s t) \<Longrightarrow> thread_work N xs s t \<le> 26"
  by (cases "pc s t" rule: pc_line_cases) (auto simp: thread_work_def)

lemma work_le:
  assumes "\<And>t. thread_work (cfg_threads cfg) xs s t \<le> K"
  shows "work cfg xs s \<le> K * cfg_threads cfg"
  using sum_bounded_above [of "{..<cfg_threads cfg}" "thread_work (cfg_threads cfg) xs s" K] assms
  by (simp add: work_def mult.commute)

text \<open>The ring has at most one object per thread, and a wake-up goes through it in order.\<close>

lemma pending_length:
  assumes pe: "pending s xs" and tids: "inv_tids cfg s"
  shows "length xs \<le> cfg_threads cfg"
proof -
  have d: "distinct xs" using pe wq.rep_distinct by (auto simp: pending_def)
  have "set xs \<subseteq> (\<lambda>t. the (onlist (pc s t))) ` {..<cfg_threads cfg}"
  proof
    fix a
    assume "a \<in> set xs"
    then obtain t where t: "onlist (pc s t) = Some a" using pe by (auto simp: pending_def)
    then have "pc s t \<noteq> Idle" by auto
    then have "t < cfg_threads cfg" using tids by (auto simp: inv_tids_def)
    with t show "a \<in> (\<lambda>t. the (onlist (pc s t))) ` {..<cfg_threads cfg}" by force
  qed
  from surj_card_le [OF _ this] distinct_card [OF d] show ?thesis by simp
qed

lemma after_head:
  assumes "pending s xs" "threads_base_wait_sync_list s = Some a"
  shows "Suc (after xs a) = length xs"
proof -
  from assms obtain bs where "xs = a # bs" by (cases xs) (auto simp: pending_def wait_list_def)
  with after_split [of a "[]" bs] show ?thesis by simp
qed

lemma after_next:
  assumes pe: "pending s xs" and a: "a \<in> set xs" and nx: "w_next (sync_at s a) = Some b"
    "w_next (sync_at s a) \<noteq> threads_base_wait_sync_list s"
  shows "Suc (after xs b) = after xs a"
proof -
  from pe have wl: "wait_list s xs" by (simp add: pending_def)
  from wait_list_split [OF wl a] obtain as bs where
    xs: "xs = as @ a # bs" "a \<notin> set as" "a \<notin> set bs" "ring s (a # bs @ as)" .
  from ring_next [of s "[]" a "bs @ as"] xs(4) nx(1) have b: "b = hd ((bs @ as) @ [a])" by simp
  have "threads_base_wait_sync_list s = Some (hd (as @ [a]))" using wl xs(1) by (cases as) (auto simp: wait_list_def)
  with nx b obtain cs where cs: "bs = b # cs" by (cases bs) auto
  have "distinct xs" using wq.rep_distinct [OF wl] .
  then have "after xs b = length cs" using after_split [of b "as @ [a]" cs] xs(1) cs by auto
  then show ?thesis using after_split [OF xs(2), of bs] xs(1) cs by simp
qed

text \<open>
  The thread that steps has less to do, by six when it signals. A step that changes the ring
  may be measured against another ring, for no wake-up is under way then.
\<close>

lemma own_work:
  assumes ex: "exec cfg t s = Ret s'" and ch: "pc s' t \<noteq> pc s t" and pe: "pending s xs" and len: "length xs \<le> N"
    and cur: "inv_cursor s" and ys: "\<not> ring_step (pc s t) \<Longrightarrow> ys = xs"
  shows "thread_work N ys s' t + (if signals (pc s t) = None then 0 else 5) < thread_work N xs s t"
proof -
  have w: "waiters s' a = (if pc s t = Wait L83 a then waiters s a @ [t]
      else if signals (pc s t) = Some a then tl (waiters s a) else waiters s a)" for a
    by (rule exec_waiters [OF ex])
  have c: "pc_work N xs (cont_pc a k) = cont_work xs a k" "cont_pc a k \<noteq> Wait l b" for a k l b by (cases k; simp)+
  have g: "pc_work N xs (glob_next st (threads_base_wait_sync_list s)) < Suc (Suc (12 * N))"
    "glob_next st x \<noteq> Wait l b" for st x l b
    using after_head [OF pe] len by (auto simp: glob_next_def split: option.split)
  have n: "pc_work N xs (glob_next st (w_next (sync_at s a))) < Suc (Suc (12 * after xs a))"
    if "pc s t = GlobAt st a" "w_next (sync_at s a) \<noteq> threads_base_wait_sync_list s" for st a
  proof -
    have "a \<in> set xs" using inv_cursorD(1) [OF cur, of t a] that(1) pe by (simp add: pending_def)
    from after_next [OF pe this _ that(2)] show ?thesis by (force simp: glob_next_def split: option.split)
  qed
  from ex ch ys show ?thesis
    by (cases "pc s t" rule: pc_line_cases)
      (auto simp: exec_defs ring_step_def thread_work_def w c g n same_but_links_fields split: if_splits option.splits
        dest!: wait_list_insert_links wait_list_remove_links)
qed

text \<open>Of the others at most the thread that is signalled has more to do, by five.\<close>

lemma other_work:
  assumes ex: "exec cfg t s = Ret s'" and u: "u \<noteq> t" and lk: "inv_locks s"
    and ys: "\<not> ring_step (pc s t) \<Longrightarrow> ys = xs"
  shows "thread_work N ys s' u \<le> thread_work N xs s u +
    (case signals (pc s t) of None \<Rightarrow> 0 | Some a \<Rightarrow> if u = hd (waiters s a) then 5 else 0)"
proof -
  have p: "pc s' u = pc s u" using exec_pc [OF ex] u by (metis fun_upd_other)
  have same: "pc_work N ys (pc s u) = pc_work N xs (pc s u)"
  proof (cases "ring_step (pc s t)")
    case True
    with wsl_unique [OF lk visits_wsl ring_step_wsl, of u _ t] u have "visits (pc s u) = None" by fastforce
    then show ?thesis by (rule pc_work_cong)
  qed (simp add: ys)
  have "u \<in> set (waiters s a) \<Longrightarrow> u \<notin> set (waiters s' a) \<Longrightarrow>
      signals (pc s t) = Some a \<and> u = hd (waiters s a)" for a
    by (cases "waiters s a") (auto simp: exec_waiters [OF ex] split: if_splits)
  then show ?thesis by (fastforce simp: thread_work_def p same)
qed

lemma work_decreases:
  assumes inv: "inv_ring s" and tids: "inv_tids cfg s" and pe: "pending s xs"
    and ex: "exec cfg t s = Ret s'" and ch: "s' \<noteq> s" and t: "t < cfg_threads cfg"
  shows "\<exists>ys. pending s' ys \<and> work cfg ys s' < work cfg xs s"
proof -
  let ?N = "cfg_threads cfg"
  let ?T = "{..<?N} - {t}" and ?d = "if signals (pc s t) = None then 0 else 5 :: nat"
  let ?more = "\<lambda>u. case signals (pc s t) of None \<Rightarrow> 0 | Some a \<Rightarrow> (if u = hd (waiters s a) then 5 else (0 :: nat))"
  from inv have lk: "inv_locks s" and own: "inv_own s" and cur: "inv_cursor s" by (auto simp: inv_ring_def)
  from pending_exec [OF pe own ex] pending_kept [OF pe ex] obtain ys where
    pe': "pending s' ys" and ys: "\<not> ring_step (pc s t) \<Longrightarrow> ys = xs" by blast
  have "pc s' t \<noteq> pc s t" using exec_changes_pc [OF ex] ch by blast
  from own_work [OF ex this pe pending_length [OF pe tids] cur ys]
  have ow: "thread_work ?N ys s' t + ?d < thread_work ?N xs s t" .
  have "(\<Sum>u\<in>?T. thread_work ?N ys s' u) \<le> (\<Sum>u\<in>?T. thread_work ?N xs s u + ?more u)"
    by (rule sum_mono) (use other_work [OF ex _ lk ys] in auto)
  also have "\<dots> \<le> (\<Sum>u\<in>?T. thread_work ?N xs s u) + ?d"
    by (auto simp: sum.distrib sum.delta split: option.split)
  finally have "work cfg ys s' < work cfg xs s" using ow t by (simp add: work_def sum.remove [of _ t] del: if_split)
  with pe' show ?thesis by blast
qed

lemma moves_bound:
  assumes "moves cfg s n s'" "reach wait_init (wstep cfg client) s" "pending s xs"
  shows "\<exists>ys. pending s' ys \<and> n + work cfg ys s' \<le> work cfg xs s"
  using assms
proof (induction rule: moves.induct)
  case (moves_step s n s1 t s2)
  then obtain ys where ys: "pending s1 ys" "n + work cfg ys s1 \<le> work cfg xs s" by blast
  have "reach wait_init (wstep cfg client) s1" by (rule moves_reach [OF moves_step.hyps(1) moves_step.prems(1)])
  with rg.reach_inv td.reach_inv have "inv_ring s1" "inv_tids cfg s1" by blast+
  from work_decreases [OF this ys(1) moves_step.hyps(3,4,2)] ys(2) show ?case by force
qed auto

lemma moves_le:
  assumes "moves cfg s n s'" "reach wait_init (wstep cfg client) s"
    and "\<And>xs t. length xs \<le> cfg_threads cfg \<Longrightarrow> thread_work (cfg_threads cfg) xs s t \<le> K"
  shows "n \<le> K * cfg_threads cfg"
proof -
  from assms(2) have "inv_ring s" "inv_tids cfg s" using rg.reach_inv td.reach_inv by blast+
  moreover from this obtain xs where xs: "pending s xs" by (auto simp: inv_ring_def)
  ultimately have "work cfg xs s \<le> K * cfg_threads cfg" using work_le assms(3) pending_length by blast
  with moves_bound [OF assms(1,2) xs] show ?thesis by force
qed

text \<open>So any run is at most so long, and a longest one ends where nobody can move.\<close>

lemma any_moves_le:
  assumes "moves cfg s n s'" "reach wait_init (wstep cfg client) s"
  shows "n \<le> (26 + 12 * cfg_threads cfg) * cfg_threads cfg"
  by (rule moves_le [OF assms thread_work_le])

lemma exact_moves_le:
  assumes "moves cfg s n s'" "reach wait_init (wstep cfg (exact_client cfg)) s" "atomic_lib_ok (cfg_atomics cfg)"
  shows "n \<le> 26 * cfg_threads cfg"
proof (rule moves_le [OF assms(1,2)])
  fix xs t
  have "inv_count cfg s" using ex.reach_inv [OF assms(2)] assms(3) by (auto simp: inv_exact_def)
  from calm_work_le [OF inv_countD(1) [OF this]] show "thread_work (cfg_threads cfg) xs s t \<le> 26" .
qed

definition settled :: "wait_cfg \<Rightarrow> wait_machine \<Rightarrow> bool" where
  "settled cfg s \<longleftrightarrow> (\<forall>t<cfg_threads cfg. \<forall>s'. exec cfg t s = Ret s' \<longrightarrow> s' = s)"

lemma run_to_settled:
  assumes "reach wait_init (wstep cfg client) s"
  shows "\<exists>n s'. moves cfg s n s' \<and> settled cfg s'"
proof -
  let ?run = "\<lambda>n. \<exists>s'. moves cfg s n s'"
  have bound: "?run n \<Longrightarrow> n \<le> (26 + 12 * cfg_threads cfg) * cfg_threads cfg" for n
    using any_moves_le [OF _ assms] by blast
  have "?run (Greatest ?run)" using GreatestI_nat [of ?run 0, OF _ bound] moves_none by blast
  then obtain s' where m: "moves cfg s (Greatest ?run) s'" ..
  have "\<not> moves cfg s (Suc (Greatest ?run)) s2" for s2
    using Greatest_le_nat [of ?run "Suc (Greatest ?run)", OF _ bound] by auto
  then have "settled cfg s'" unfolding settled_def using moves_step [OF m] by blast
  with m show ?thesis by blast
qed

section \<open>At rest\<close>

lemma at_fixpoint_stalled:
  assumes "at_fixpoint cfg s" "t < cfg_threads cfg"
  shows "stalled cfg s t \<and> (\<forall>a. pc s t = Wait L101 a \<longrightarrow> \<not> completed s a)"
proof (cases "exec cfg t s = Block")
  case True
  then have "pc s t \<noteq> Wait L101 a" for a by (auto simp: exec_def)
  with True show ?thesis by (simp add: stalled_def)
next
  case False
  with assms have "exec cfg t s = Ret s" by (auto simp: at_fixpoint_def)
  from exec_changes_pc [OF this] show ?thesis by (auto simp: stalled_def)
qed

text \<open>At rest no update and no signal is under way, so the count is what has not been reported.\<close>

lemma at_rest_count:
  assumes inv: "inv_exact cfg s" and fp: "at_fixpoint cfg s"
  shows "sint (w_count (sync_at s a)) = outstanding s a" "signaller (pc s t) \<noteq> Some a"
    "\<not> at_rest (pc s t) \<Longrightarrow> \<exists>a. (pc s t = Wait L101 a \<or> pc s t = Wait L83w a) \<and> 0 < outstanding s a"
proof -
  from inv have rg: "inv_ring s" and td: "inv_tids cfg s" and cnt: "inv_count cfg s" and dn: "inv_done s"
    by (auto simp: inv_exact_def)
  from at_fixpoint_stalled [OF fp] have all: "\<forall>u<cfg_threads cfg. stalled cfg s u" by blast
  have busy: "\<not> completed s a" if "pc s u = Wait L101 a" for u a
    using at_fixpoint_stalled [OF fp, of u] td that by (auto simp: inv_tids_def)
  note st = stalled_state(3) [OF rg td all]
  have upd: "updates (pc s u) = None" for u using st [of u] by (cases "pc s u") auto
  then show cn: "sint (w_count (sync_at s a)) = outstanding s a" for a
    using inv_countD(2) [OF cnt, of a] by (simp add: unreported_def pend_updates)
  show sg: "signaller (pc s t) \<noteq> Some a" for t a using st [of t] by (cases "pc s t") auto
  assume "\<not> at_rest (pc s t)"
  from st [OF this] obtain a where
    a: "pc s t = Wait L101 a \<or> pc s t = Wait L83w a \<and> t \<in> set (waiters s a)" by blast
  have "\<not> completed s a"
  proof
    assume c: "completed s a"
    with a busy have "sleepy s t a" by (auto simp: sleepy_def)
    from inv_doneD(1) [OF dn this c] obtain u where "will_signal (pc s u) = Some a" by blast
    with sg [of u a] will_signal_signaller show False by blast
  qed
  with a show "\<exists>a. (pc s t = Wait L101 a \<or> pc s t = Wait L83w a) \<and> 0 < outstanding s a"
    by (auto simp: completed_def cn)
qed

text \<open>Who is still inside a call at rest.\<close>

lemma settled_state:
  assumes inv: "inv_exact cfg s" and fp: "at_fixpoint cfg s"
  shows "\<not> at_rest (pc s t) \<Longrightarrow>
      (\<exists>a. (pc s t = Wait L101 a \<or> pc s t = Wait L83w a) \<and> 0 < outstanding s a) \<and> (\<exists>u b. pc s u = Wait L101 b)"
    "pc s t = Rel R34 a \<Longrightarrow> outstanding s a < 0"
proof -
  from inv have rg: "inv_ring s" and td: "inv_tids cfg s" and sg: "inv_signal s" and dn: "inv_done s"
    by (auto simp: inv_exact_def)
  note c = at_rest_count [OF inv fp]
  have all: "\<forall>u<cfg_threads cfg. stalled cfg s u" using at_fixpoint_stalled [OF fp] by blast
  show "\<not> at_rest (pc s t) \<Longrightarrow>
      (\<exists>a. (pc s t = Wait L101 a \<or> pc s t = Wait L83w a) \<and> 0 < outstanding s a) \<and> (\<exists>u b. pc s u = Wait L101 b)"
    using c(3) stalled_driver [OF rg td all] by blast
  assume t: "pc s t = Rel R34 a"
  from t td fp have "exec cfg t s = Block \<or> exec cfg t s = Ret s" by (auto simp: inv_tids_def at_fixpoint_def)
  with t exec_changes_pc [of cfg t s s] have "exec cfg t s = Block" by auto
  with t have "w_signaling (sync_at s a)" by (auto simp: exec_defs split: if_splits)
  then have "w_count (sync_at s a) \<noteq> 0" using inv_signalD(3) [OF sg, of a] c(2) by simp
  then have "sint (w_count (sync_at s a)) \<noteq> 0" using signed_eq_0_iff by blast
  moreover have "completed s a" using inv_doneD(2) [OF dn, of t a] t by simp
  ultimately show "outstanding s a < 0" using c(1) [of a] by (simp add: completed_def)
qed

text \<open>Of exact callers no step fails, so where nobody can move every thread waits.\<close>

lemma run_to_rest:
  assumes r: "reach wait_init (wstep cfg (exact_client cfg)) s" and ok: "atomic_lib_ok (cfg_atomics cfg)"
  shows "\<exists>n s'. moves cfg s n s' \<and> at_fixpoint cfg s'"
proof -
  from run_to_settled [OF r] obtain n s' where n: "moves cfg s n s'" "settled cfg s'" by blast
  have "inv_exact cfg s'" using ex.reach_inv [OF moves_reach [OF n(1) r]] ok by blast
  with exact_defined [OF this ok] n(2) have "at_fixpoint cfg s'"
    unfolding at_fixpoint_def settled_def by (metis outcome.exhaust)
  with n(1) show ?thesis by blast
qed

text \<open>
  A run with an error: thread 0 drives progress for object 10, thread 1 sleeps on object 11,
  and thread 2 wakes all waiting threads with status 5.
\<close>

definition wakeup_schedule :: "action list" where
  "wakeup_schedule = Call 0 (CWait 10) # replicate 9 (Run 0) @ Call 1 (CWait 11) # replicate 9 (Run 1) @
     Call 2 (CWakeup 5) # replicate 3 (Run 2)"

section \<open>Properties\<close>

text \<open>
  C2. The machine settles. From any reachable state, once no further calls are made, every
  schedule can take at most 26 steps per thread that change the state, and there is a run to
  a state in which no thread can change anything.
\<close>

theorem wait_machine_settles:
  assumes "reach wait_init (wstep cfg (exact_client cfg)) s" "atomic_lib_ok (cfg_atomics cfg)"
  shows "(\<forall>n s'. moves cfg s n s' \<longrightarrow> n \<le> 26 * cfg_threads cfg) \<and> (\<exists>n s'. moves cfg s n s' \<and> at_fixpoint cfg s')"
proof (intro conjI allI impI)
  fix n s'
  assume "moves cfg s n s'"
  from exact_moves_le [OF this assms] show "n \<le> 26 * cfg_threads cfg" .
qed (rule run_to_rest [OF assms])

theorem wait_machine_settles_witness:
  "\<exists>s n s'. pc s 2 = Sig S52 11 KReturn \<and> moves demo_cfg s n s' \<and> at_fixpoint demo_cfg s' \<and> n \<le> 78"
proof -
  from exact_reachable obtain s where s: "reach wait_init (wstep demo_cfg (exact_client demo_cfg)) s"
    "pc s 2 = Sig S52 11 KReturn" by (auto simp: demo_view_def)
  have "cfg_threads demo_cfg = 3" by (simp add: demo_cfg_def)
  with wait_machine_settles [OF s(1) demo_atomics_ok] s(2) show ?thesis by fastforce
qed

text \<open>
  C1. Every wait returns. When the machine has settled, each thread still inside a call waits
  for operations that nobody has reported, asleep or in the loop that calls \<open>progress()\<close>, and
  then some thread is in that loop; so no wait stays open on an object all of whose
  operations have been reported, and nobody sleeps while no one makes progress. A thread
  spins in \<open>WAIT_SYNC_RELEASE\<close> only on an object that was initialised with a negative count.
\<close>

theorem every_wait_returns:
  assumes "reach wait_init (wstep cfg (exact_client cfg)) s" "atomic_lib_ok (cfg_atomics cfg)"
    and "moves cfg s n s'" "at_fixpoint cfg s'"
  shows "(\<forall>t. \<not> at_rest (pc s' t) \<longrightarrow>
       (\<exists>a. (pc s' t = Wait L101 a \<or> pc s' t = Wait L83w a) \<and> 0 < outstanding s a) \<and> (\<exists>u b. pc s' u = Wait L101 b)) \<and>
    (\<forall>t a. pc s' t = Rel R34 a \<longrightarrow> outstanding s a < 0)"
proof -
  have inv: "inv_exact cfg s'" using ex.reach_inv [OF moves_reach [OF assms(3,1)]] assms(2) by blast
  from settled_state [OF this assms(4)] show ?thesis by (simp add: moves_outstanding [OF assms(3), symmetric])
qed

theorem every_wait_returns_witness:
  "\<exists>(s :: wait_machine) s'. pc s 2 = Sig S52 11 KReturn \<and> at_fixpoint demo_cfg s' \<and>
     (\<forall>t. \<not> at_rest (pc s' t) \<longrightarrow> (\<exists>a. (pc s' t = Wait L101 a \<or> pc s' t = Wait L83w a) \<and> 0 < outstanding s a))"
proof -
  from exact_reachable obtain s where s: "reach wait_init (wstep demo_cfg (exact_client demo_cfg)) s"
    "pc s 2 = Sig S52 11 KReturn" by (auto simp: demo_view_def)
  from run_to_rest [OF s(1) demo_atomics_ok] obtain n s' where
    m: "moves demo_cfg s n s'" "at_fixpoint demo_cfg s'" by blast
  from every_wait_returns [OF s(1) demo_atomics_ok m] s(2) m(2) show ?thesis by blast
qed

text \<open>
  C3. Whatever the callers do, errors and global wake-ups included, the machine settles: once
  no further calls are made, every schedule can take at most 26 steps per thread that change
  the state and twelve more per thread and object of the ring, and there is a run to a state
  in which no step changes anything. If each step there is a wait or the loop that calls
  \<open>progress()\<close>, then every thread still inside a call is in that loop or asleep, and the
  thread whose object is at the head of the ring is in that loop.
\<close>

theorem wait_machine_always_settles:
  assumes "reach wait_init (wstep cfg any_client) s"
  shows "(\<forall>n s'. moves cfg s n s' \<longrightarrow> n \<le> (26 + 12 * cfg_threads cfg) * cfg_threads cfg) \<and>
    (\<exists>n s'. moves cfg s n s' \<and> settled cfg s') \<and>
    (\<forall>n s' t. moves cfg s n s' \<longrightarrow> at_fixpoint cfg s' \<longrightarrow> \<not> at_rest (pc s' t) \<longrightarrow>
      (\<exists>a. pc s' t = Wait L101 a \<or> pc s' t = Wait L83w a \<and> t \<in> set (waiters s' a)) \<and>
      (\<exists>u b. pc s' u = Wait L101 b \<and> threads_base_wait_sync_list s' = Some b))"
proof (intro conjI allI impI)
  fix n s'
  assume m: "moves cfg s n s'"
  show "n \<le> (26 + 12 * cfg_threads cfg) * cfg_threads cfg" by (rule any_moves_le [OF m assms])
  fix t
  assume fp: "at_fixpoint cfg s'" and t: "\<not> at_rest (pc s' t)"
  have inv: "inv_ring s'" "inv_tids cfg s'"
    using rg.reach_inv [OF moves_reach [OF m assms]] td.reach_inv [OF moves_reach [OF m assms]] .
  have all: "\<forall>u<cfg_threads cfg. stalled cfg s' u" using at_fixpoint_stalled [OF fp] by blast
  show "\<exists>a. pc s' t = Wait L101 a \<or> pc s' t = Wait L83w a \<and> t \<in> set (waiters s' a)"
    "\<exists>u b. pc s' u = Wait L101 b \<and> threads_base_wait_sync_list s' = Some b"
    using stalled_state(3) [OF inv all t] stalled_driver [OF inv all t] by blast+
qed (rule run_to_settled [OF assms])

theorem wait_machine_always_settles_witness:
  "\<exists>s n s'. demo_view s = ([Wait L101 10, Wait L83w 11, Swp 10 (KWakeup 5)], Some 10, [1]) \<and>
     moves demo_cfg s n s' \<and> settled demo_cfg s' \<and> n \<le> 186"
proof -
  have "map_option demo_view (schedule demo_cfg any_client wakeup_schedule (init_machine (\<lambda>_. 1)))
      = Some ([Wait L101 10, Wait L83w 11, Swp 10 (KWakeup 5)], Some 10, [1])"
    by code_simp
  then obtain s where s: "reach wait_init (wstep demo_cfg any_client) s"
    "demo_view s = ([Wait L101 10, Wait L83w 11, Swp 10 (KWakeup 5)], Some 10, [1])"
    by (auto dest: schedule_init_reach)
  have "cfg_threads demo_cfg = 3" by (simp add: demo_cfg_def)
  with wait_machine_always_settles [OF s(1)] s(2) show ?thesis by fastforce
qed

end
