(* ===== verification/Backend_Spec.thy ===== *)
theory Backend_Spec
  imports Sync_Spec
begin

text \<open>
  The interface between the portable code and the backends: the operations
  \<open>thread_internal_mutex_*\<close> as a record, the contract of these operations as a locale, and
  the documented behaviour of the thread libraries the backends call, which are not part of
  the repository.
\<close>

section \<open>Operations of a backend\<close>

text \<open>
  What a backend does besides changing the mutex: it prints a help text, yields, or
  initialises its library. The events belong to calls that return; what a call has printed
  before one of its assertions fails is not recorded, as the program ends there.
\<close>

datatype event = ShowHelp string | Yield | QthreadInitialize | ArgobotsInit

type_synonym 'a logged = "('a \<times> event list) outcome"

text \<open>
  Initialisation is given the memory of the mutex, which it may leave as it was. A call
  that returns a code and changes its mutex returns both.
\<close>

record 'm mutex_ops =
  ti_mutex_init :: "bool \<Rightarrow> 'm \<Rightarrow> (rc \<times> 'm) logged"
  ti_mutex_lock :: "tid \<Rightarrow> 'm \<Rightarrow> 'm logged"
  ti_mutex_trylock :: "tid \<Rightarrow> 'm \<Rightarrow> (int \<times> 'm) logged"
  ti_mutex_unlock :: "tid \<Rightarrow> 'm \<Rightarrow> 'm logged"
  ti_mutex_destroy :: "'m \<Rightarrow> 'm logged"

text \<open>
  Waiting on a condition variable is two steps: up to the point where the caller is queued
  and has released the mutex, and from being awake to holding the mutex again.
\<close>

record ('c, 'm) cond_ops =
  ti_cond_init :: "'c \<Rightarrow> (rc \<times> 'c) logged"
  ti_cond_wait_enter :: "tid \<Rightarrow> 'c \<Rightarrow> 'm \<Rightarrow> ('c \<times> 'm) logged"
  ti_cond_wait_leave :: "tid \<Rightarrow> 'c \<Rightarrow> 'm \<Rightarrow> ('c \<times> 'm) logged"
  ti_cond_signal :: "tid \<Rightarrow> 'c \<Rightarrow> 'c logged"
  ti_cond_broadcast :: "tid \<Rightarrow> 'c \<Rightarrow> 'c logged"
  ti_cond_destroy :: "'c \<Rightarrow> 'c logged"

text \<open>\<open>assert\<close> of a debug build, and the print of a help text in one.\<close>

definition c_assert :: "bool \<Rightarrow> bool \<Rightarrow> 'a outcome \<Rightarrow> 'a outcome" where
  "c_assert debug p k = (if debug \<and> \<not> p then AssertFail else k)"

lemma c_assert_True [simp]: "c_assert debug True k = k"
  by (simp add: c_assert_def)

definition help_if :: "bool \<Rightarrow> string \<Rightarrow> event list" where
  "help_if p msg = (if p then [ShowHelp msg] else [])"

lemma help_if_False [simp]: "help_if False msg = []"
  by (simp add: help_if_def)

text \<open>An outcome without the events.\<close>

definition drop_log :: "'a logged \<Rightarrow> 'a outcome" where
  "drop_log r = obind r (\<lambda>(x, _). Ret x)"

lemma matches_drop_log:
  assumes "\<And>a. ra = Ret a \<Longrightarrow> \<exists>x ev. rc = Ret (x, ev) \<and> R x a" "ra = Block \<Longrightarrow> rc = Block"
  shows "matches R ra (drop_log rc)"
  using assms by (cases ra) (force simp: drop_log_def)+

lemma never_waits: "amutex_unlock t m \<noteq> Block" "amutex_destroy m \<noteq> Block" "acond_signal c \<noteq> Block"
  "acond_wait_begin t c m \<noteq> Block" "acond_destroy c \<noteq> Block"
  by (auto simp: amutex_unlock_def amutex_destroy_def acond_signal_def acond_destroy_def acond_wait_begin_def
      acond_block_def obind_eq_Block)

section \<open>What the thread libraries document\<close>

text \<open>
  A library function that locks returns its success code once the mutex is acquired and
  waits while another thread holds it; what it does when the caller already holds a plain
  mutex, or a recursive one as often as the library allows, is left open. A try never waits: it acquires the mutex, or returns another code.
\<close>

definition lib_lock_ok :: "int \<Rightarrow> ('m \<Rightarrow> amutex) \<Rightarrow> (tid \<Rightarrow> 'm \<Rightarrow> (int \<times> 'm) outcome) \<Rightarrow> bool" where
  "lib_lock_ok success rep lock \<longleftrightarrow>
     (\<forall>t m a. amutex_lock t (rep m) = Ret a \<longrightarrow> (\<exists>m'. lock t m = Ret (success, m') \<and> rep m' = a)) \<and>
     (\<forall>t m. amutex_lock t (rep m) = Block \<longrightarrow> mx_owner (rep m) \<noteq> Some t \<longrightarrow> lock t m = Block)"

definition lib_trylock_ok :: "int \<Rightarrow> ('m \<Rightarrow> amutex) \<Rightarrow> (tid \<Rightarrow> 'm \<Rightarrow> (int \<times> 'm) outcome) \<Rightarrow> bool" where
  "lib_trylock_ok success rep trylock \<longleftrightarrow>
     (\<forall>t m a. amutex_lock t (rep m) = Ret a \<longrightarrow> (\<exists>m'. trylock t m = Ret (success, m') \<and> rep m' = a)) \<and>
     (\<forall>t m. amutex_lock t (rep m) = Block \<longrightarrow>
        (\<exists>r m'. trylock t m = Ret (r, m') \<and> r \<noteq> success \<and> rep m' = rep m))"

definition lib_unlock_ok :: "int \<Rightarrow> ('m \<Rightarrow> amutex) \<Rightarrow> (tid \<Rightarrow> 'm \<Rightarrow> (int \<times> 'm) outcome) \<Rightarrow> bool" where
  "lib_unlock_ok success rep unlock \<longleftrightarrow>
     (\<forall>t m a. amutex_unlock t (rep m) = Ret a \<longrightarrow> (\<exists>m'. unlock t m = Ret (success, m') \<and> rep m' = a))"

lemmas lib_ok_defs = lib_lock_ok_def lib_trylock_ok_def lib_unlock_ok_def

lemma lib_okD:
  "lib_lock_ok s rep f \<Longrightarrow> amutex_lock t (rep m) = Ret a \<Longrightarrow> \<exists>m'. f t m = Ret (s, m') \<and> rep m' = a"
  "lib_lock_ok s rep f \<Longrightarrow> amutex_lock t (rep m) = Block \<Longrightarrow> mx_owner (rep m) \<noteq> Some t \<Longrightarrow> f t m = Block"
  "lib_trylock_ok s rep g \<Longrightarrow> amutex_lock t (rep m) = Ret a \<Longrightarrow> \<exists>m'. g t m = Ret (s, m') \<and> rep m' = a"
  "lib_trylock_ok s rep g \<Longrightarrow> amutex_lock t (rep m) = Block \<Longrightarrow>
     \<exists>r m'. g t m = Ret (r, m') \<and> r \<noteq> s \<and> rep m' = rep m"
  "lib_unlock_ok s rep h \<Longrightarrow> amutex_unlock t (rep m) = Ret a \<Longrightarrow> \<exists>m'. h t m = Ret (s, m') \<and> rep m' = a"
  unfolding lib_ok_defs by blast+

text \<open>A library that behaves so, on abstract mutexes.\<close>

definition ref_lock :: "tid \<Rightarrow> amutex \<Rightarrow> (int \<times> amutex) outcome" where
  "ref_lock t m = obind (amutex_lock t m) (\<lambda>m'. Ret (0, m'))"

definition ref_trylock :: "int \<Rightarrow> tid \<Rightarrow> amutex \<Rightarrow> (int \<times> amutex) outcome" where
  "ref_trylock busy t m = obind (amutex_trylock t m) (\<lambda>(got, m'). Ret (if got then 0 else busy, m'))"

definition ref_unlock :: "tid \<Rightarrow> amutex \<Rightarrow> (int \<times> amutex) outcome" where
  "ref_unlock t m = obind (amutex_unlock t m) (\<lambda>m'. Ret (0, m'))"

lemma ref_lib_ok:
  "lib_lock_ok 0 id ref_lock" "busy \<noteq> 0 \<Longrightarrow> lib_trylock_ok 0 id (ref_trylock busy)" "lib_unlock_ok 0 id ref_unlock"
  by (auto simp: lib_ok_defs ref_lock_def ref_trylock_def ref_unlock_def amutex_trylock_def)

section \<open>The contract of a backend\<close>

lemma amutex_lock_live: "amutex_lock t m = Ret m' \<Longrightarrow> mx_live m'"
  by (auto simp: amutex_lock_def split: option.splits if_splits)

lemma amutex_lock_cases:
  assumes "mx_live m" "\<not> at_limit t m"
  obtains a where "amutex_lock t m = Ret a" | "amutex_lock t m = Block"
  using assms by (cases "amutex_lock t m") (auto simp: amutex_lock_def split: option.splits if_splits)

text \<open>
  For a backend over a library \<open>L\<close> whose mutexes represent abstract ones by \<open>rep\<close>: its
  operations do what the abstract mutex does. \<open>init_ok\<close> says when initialisation can be
  relied on.
\<close>

locale mutex_backend =
  fixes ops :: "'l \<Rightarrow> 'm mutex_ops" and ok :: "'l \<Rightarrow> ('m \<Rightarrow> amutex) \<Rightarrow> bool"
    and init_ok :: "'l \<Rightarrow> bool \<Rightarrow> bool"
  assumes init_law: "ok L rep \<Longrightarrow> init_ok L r \<Longrightarrow>
      ti_mutex_init (ops L) r m0 = Ret ((SUCCESS, m), ev) \<Longrightarrow> fresh_mutex r (rep m)"
    and lock_law: "ok L rep \<Longrightarrow> amutex_lock t (rep m) = Ret a \<Longrightarrow>
      \<exists>m' ev. ti_mutex_lock (ops L) t m = Ret (m', ev) \<and> rep m' = a"
    and lock_waits: "ok L rep \<Longrightarrow> amutex_lock t (rep m) = Block \<Longrightarrow> mx_owner (rep m) \<noteq> Some t \<Longrightarrow>
      ti_mutex_lock (ops L) t m = Block"
    and trylock_law: "ok L rep \<Longrightarrow> amutex_lock t (rep m) = Ret a \<Longrightarrow>
      \<exists>m' ev. ti_mutex_trylock (ops L) t m = Ret ((0, m'), ev) \<and> rep m' = a"
    and trylock_busy: "ok L rep \<Longrightarrow> amutex_lock t (rep m) = Block \<Longrightarrow>
      \<exists>m' ev. ti_mutex_trylock (ops L) t m = Ret ((1, m'), ev) \<and> rep m' = rep m"
    and unlock_law: "ok L rep \<Longrightarrow> amutex_unlock t (rep m) = Ret a \<Longrightarrow>
      \<exists>m' ev. ti_mutex_unlock (ops L) t m = Ret (m', ev) \<and> rep m' = a"
    and destroy_law: "ok L rep \<Longrightarrow> amutex_destroy (rep m) = Ret a \<Longrightarrow>
      \<exists>m' ev. ti_mutex_destroy (ops L) m = Ret (m', ev)"
begin

text \<open>Locking and unlocking again restores the mutex, whatever its kind and depth.\<close>

lemma lock_unlock:
  assumes ok: "ok L rep" and wf: "amutex_wf (rep m)" and lock: "amutex_lock t (rep m) = Ret a"
  shows "\<exists>m1 e1 m2 e2. ti_mutex_lock (ops L) t m = Ret (m1, e1) \<and>
    ti_mutex_unlock (ops L) t m1 = Ret (m2, e2) \<and> rep m2 = rep m"
proof -
  from lock_law [OF ok lock] obtain m1 e1 where
    1: "ti_mutex_lock (ops L) t m = Ret (m1, e1)" "rep m1 = a" by blast
  with amutex_lock_unlock [OF wf lock] have "amutex_unlock t (rep m1) = Ret (rep m)" by simp
  from unlock_law [OF ok this] 1 show ?thesis by blast
qed

text \<open>A try on a live mutex returns 0 exactly when it has acquired the mutex, and else 1.\<close>

lemma trylock_result:
  assumes ok: "ok L rep" and live: "mx_live (rep m)" "\<not> at_limit t (rep m)"
  shows "\<exists>r m' ev. ti_mutex_trylock (ops L) t m = Ret ((r, m'), ev) \<and> r \<in> {0, 1} \<and>
    (r = 0 \<longleftrightarrow> (\<exists>a. amutex_lock t (rep m) = Ret a)) \<and>
    amutex_trylock t (rep m) = Ret (r = 0, rep m')"
proof -
  from live show ?thesis
  proof (cases rule: amutex_lock_cases [of "rep m" t])
    case 1
    with trylock_law [OF ok 1] show ?thesis by (force simp: amutex_trylock_def)
  next
    case 2
    with trylock_busy [OF ok 2] show ?thesis by (force simp: amutex_trylock_def)
  qed
qed

text \<open>While one thread holds a mutex every other thread waits or fails to acquire it.\<close>

lemma exclusion:
  assumes ok: "ok L rep" and wf: "amutex_wf (rep m)"
    and lock: "ti_mutex_lock (ops L) t m = Ret (m', ev)" "amutex_lock t (rep m) = Ret a" and tu: "u \<noteq> t"
  shows "ti_mutex_lock (ops L) u m' = Block \<and>
    (\<exists>m'' ev'. ti_mutex_trylock (ops L) u m' = Ret ((1, m''), ev') \<and> rep m'' = rep m')"
proof -
  from lock_law [OF ok lock(2)] lock(1) have a: "rep m' = a" by auto
  have o: "mx_owner (rep m') = Some t" using amutex_lock_owner [OF lock(2)] a by simp
  have "mx_live (rep m')" using amutex_lock_live [OF lock(2)] a by simp
  then have b: "amutex_lock u (rep m') = Block"
    using amutex_lock_excludes [OF _ _ o tu] amutex_wf_lock [OF wf lock(2)] a by simp
  from lock_waits [OF ok b] trylock_busy [OF ok b] o tu show ?thesis by simp
qed

end

section \<open>Condition variables\<close>

text \<open>
  Waking is specified as the libraries document it: a signal wakes at least one of the
  waiting threads, if there are any, and no order is promised.
\<close>

definition wakes_one :: "acond \<Rightarrow> acond \<Rightarrow> bool" where
  "wakes_one c c' \<longleftrightarrow> cv_live c' \<and> set (cv_waiters c') \<subseteq> set (cv_waiters c) \<and>
     (cv_waiters c \<noteq> [] \<longrightarrow> set (cv_waiters c') \<noteq> set (cv_waiters c))"

lemma acond_signal_wakes_one:
  "distinct (cv_waiters c) \<Longrightarrow> acond_signal c = Ret c' \<Longrightarrow> wakes_one c c'"
  by (cases "cv_waiters c") (auto simp: acond_signal_def wakes_one_def split: if_splits)

text \<open>
  \<open>tracks repc t c\<close>: the memory of \<open>c\<close> tells thread \<open>t\<close>, which is inside a wait, whether it is
  still queued. It holds from the moment \<open>t\<close> is queued, and no operation of another thread
  breaks it. Where the library keeps the queue itself it holds always; the Qthreads backend
  keeps a flag for each waiter. A thread leaves the wait when it is no longer queued and the
  mutex is free, and waits while it is queued or another thread holds the mutex. A condition
  variable that nobody waits on can be destroyed.
\<close>

locale cond_backend =
  fixes ops :: "'l \<Rightarrow> ('c, 'm) cond_ops"
    and ok :: "'l \<Rightarrow> ('c \<Rightarrow> acond) \<Rightarrow> ('m \<Rightarrow> amutex) \<Rightarrow> bool"
    and tracks :: "('c \<Rightarrow> acond) \<Rightarrow> tid \<Rightarrow> 'c \<Rightarrow> bool"
  assumes cond_init_law: "ok L repc rep \<Longrightarrow>
      ti_cond_init (ops L) c0 = Ret ((SUCCESS, c), ev) \<Longrightarrow> repc c = acond_init"
    and wait_enter_law: "ok L repc rep \<Longrightarrow> t \<notin> set (cv_waiters (repc c)) \<Longrightarrow>
      acond_wait_begin t (repc c) (rep m) = Ret (a, b) \<Longrightarrow>
      \<exists>c' m' ev. ti_cond_wait_enter (ops L) t c m = Ret ((c', m'), ev) \<and> repc c' = a \<and> rep m' = b \<and>
        tracks repc t c' \<and> (\<forall>v. v \<noteq> t \<longrightarrow> tracks repc v c \<longrightarrow> tracks repc v c')"
    and wait_leave_law: "ok L repc rep \<Longrightarrow> tracks repc t c \<Longrightarrow> cv_live (repc c) \<Longrightarrow>
      acond_wait_end t (repc c) (rep m) = Ret b \<Longrightarrow>
      \<exists>c' m' ev. ti_cond_wait_leave (ops L) t c m = Ret ((c', m'), ev) \<and> repc c' = repc c \<and> rep m' = b \<and>
        (\<forall>v. tracks repc v c \<longrightarrow> tracks repc v c')"
    and wait_leave_waits: "ok L repc rep \<Longrightarrow> tracks repc t c \<Longrightarrow> cv_live (repc c) \<Longrightarrow>
      acond_wait_end t (repc c) (rep m) = Block \<Longrightarrow> mx_live (rep m) \<Longrightarrow>
      mx_owner (rep m) \<noteq> Some t \<Longrightarrow> ti_cond_wait_leave (ops L) t c m = Block"
    and signal_law: "ok L repc rep \<Longrightarrow> cv_live (repc c) \<Longrightarrow> distinct (cv_waiters (repc c)) \<Longrightarrow>
      \<exists>c' ev. ti_cond_signal (ops L) u c = Ret (c', ev) \<and> wakes_one (repc c) (repc c') \<and>
        (\<forall>v. tracks repc v c \<longrightarrow> tracks repc v c')"
    and broadcast_law: "ok L repc rep \<Longrightarrow> acond_broadcast (repc c) = Ret a \<Longrightarrow>
      \<exists>c' ev. ti_cond_broadcast (ops L) u c = Ret (c', ev) \<and> repc c' = a \<and>
        (\<forall>v. tracks repc v c \<longrightarrow> tracks repc v c')"
    and cond_destroy_law: "ok L repc rep \<Longrightarrow> acond_destroy (repc c) = Ret a \<Longrightarrow>
      \<exists>c' ev. ti_cond_destroy (ops L) c = Ret (c', ev)"
begin

text \<open>
  A thread that waits on a condition variable nobody else waits on leaves with the mutex
  after one signal.
\<close>

lemma wait_signal_leave:
  assumes ok: "ok L repc rep" and c: "cv_live (repc c)" "cv_waiters (repc c) = []"
    and m: "plain (rep m)" "mx_owner (rep m) = Some t"
  shows "\<exists>c1 m1 e1 c2 e2 c3 m3 e3. ti_cond_wait_enter (ops L) t c m = Ret ((c1, m1), e1) \<and>
    ti_cond_signal (ops L) u c1 = Ret (c2, e2) \<and>
    ti_cond_wait_leave (ops L) t c2 m1 = Ret ((c3, m3), e3) \<and> mx_owner (rep m3) = Some t"
proof -
  let ?a = "(repc c)\<lparr>cv_waiters := [t]\<rparr>" and ?b = "(rep m)\<lparr>mx_owner := None, mx_depth := 0\<rparr>"
  have "acond_wait_begin t (repc c) (rep m) = Ret (?a, ?b)"
    using c m by (simp add: acond_wait_begin_def acond_block_def amutex_unlock_plain)
  from wait_enter_law [OF ok _ this] c(2) obtain c1 m1 e1 where
    1: "ti_cond_wait_enter (ops L) t c m = Ret ((c1, m1), e1)" "repc c1 = ?a" "rep m1 = ?b" "tracks repc t c1"
    by auto
  with signal_law [OF ok, of c1 u] c(1) obtain c2 e2 where
    2: "ti_cond_signal (ops L) u c1 = Ret (c2, e2)" "tracks repc t c2"
    and w: "wakes_one (repc c1) (repc c2)" by auto
  from w 1(2) have "set (cv_waiters (repc c2)) \<subseteq> {t}" "set (cv_waiters (repc c2)) \<noteq> {t}"
    by (simp_all add: wakes_one_def)
  then have "cv_waiters (repc c2) = []" using subset_singletonD by force
  then have "acond_wait_end t (repc c2) (rep m1) = Ret (?b\<lparr>mx_owner := Some t, mx_depth := 1\<rparr>)"
    using m(1) by (simp add: acond_wait_end_def amutex_lock_plain 1(3))
  from wait_leave_law [OF ok 2(2) _ this] w 1(1) 2(1) show ?thesis by (fastforce simp: wakes_one_def)
qed

end

end
