(* ===== verification/Pthreads.thy ===== *)
theory Pthreads
  imports Backend_Spec
begin

text \<open>
  The pthreads backend, \<open>impl/pthreads/threads_pthreads_mutex.h\<close>. The POSIX functions are
  the fields of a record; what POSIX documents of them is \<open>pthread_ok\<close>. The flag \<open>debug\<close> is
  \<open>ENABLE_DEBUG\<close>.
\<close>

section \<open>The library\<close>

record ('m, 'c, 'attr) pthread_lib =
  EDEADLK :: int
  EAGAIN :: int
  pthread_mutexattr_init :: "int \<times> 'attr"
  pthread_mutexattr_settype_recursive :: "'attr \<Rightarrow> int \<times> 'attr"
  pthread_mutexattr_destroy :: "'attr \<Rightarrow> int"
  pthread_mutex_init :: "'attr option \<Rightarrow> 'm \<Rightarrow> int \<times> 'm"
  pthread_mutex_lock :: "tid \<Rightarrow> 'm \<Rightarrow> (int \<times> 'm) outcome"
  pthread_mutex_trylock :: "tid \<Rightarrow> 'm \<Rightarrow> (int \<times> 'm) outcome"
  pthread_mutex_unlock :: "tid \<Rightarrow> 'm \<Rightarrow> (int \<times> 'm) outcome"
  pthread_mutex_destroy :: "'m \<Rightarrow> (int \<times> 'm) outcome"
  pthread_cond_init :: "'c \<Rightarrow> int \<times> 'c"
  pthread_cond_wait_enter :: "tid \<Rightarrow> 'c \<Rightarrow> 'm \<Rightarrow> ('c \<times> 'm) outcome"
  pthread_cond_wait_leave :: "tid \<Rightarrow> 'c \<Rightarrow> 'm \<Rightarrow> (int \<times> 'c \<times> 'm) outcome"
  pthread_cond_signal :: "'c \<Rightarrow> (int \<times> 'c) outcome"
  pthread_cond_broadcast :: "'c \<Rightarrow> (int \<times> 'c) outcome"
  pthread_cond_destroy :: "'c \<Rightarrow> (int \<times> 'c) outcome"

text \<open>
  A mutex initialised without attributes is plain, one initialised with attributes has the
  type they were given, and the default type is not recursive. A lock of a recursive mutex
  beyond the limit returns \<open>EAGAIN\<close> and does not acquire it.
\<close>

definition pthread_mutex_ok :: "('m, 'c, 'attr) pthread_lib \<Rightarrow> ('m \<Rightarrow> amutex) \<Rightarrow> bool" where
  "pthread_mutex_ok L rep \<longleftrightarrow>
     lib_lock_ok 0 rep (pthread_mutex_lock L) \<and> lib_trylock_ok 0 rep (pthread_mutex_trylock L) \<and>
     lib_unlock_ok 0 rep (pthread_mutex_unlock L) \<and> EAGAIN L \<noteq> 0 \<and> EAGAIN L \<noteq> EDEADLK L \<and>
     (\<forall>t m. at_limit t (rep m) \<longrightarrow> (\<exists>m'. pthread_mutex_lock L t m = Ret (EAGAIN L, m') \<and> rep m' = rep m)) \<and>
     (\<forall>m a. amutex_destroy (rep m) = Ret a \<longrightarrow> (\<exists>m'. pthread_mutex_destroy L m = Ret (0, m') \<and> rep m' = a)) \<and>
     (\<forall>m m'. pthread_mutex_init L None m = (0, m') \<longrightarrow> rep m' = amutex_init False) \<and>
     (\<exists>recursive.
        (\<forall>a m m'. pthread_mutex_init L (Some a) m = (0, m') \<longrightarrow> fresh_mutex (recursive a) (rep m')) \<and>
        (\<forall>a. pthread_mutexattr_init L = (0, a) \<longrightarrow> \<not> recursive a) \<and>
        (\<forall>a r a'. pthread_mutexattr_settype_recursive L a = (r, a') \<longrightarrow>
           recursive a' = (if r = 0 then True else recursive a)))"

definition pthread_cond_ok :: "('m, 'c, 'attr) pthread_lib \<Rightarrow> ('c \<Rightarrow> acond) \<Rightarrow> ('m \<Rightarrow> amutex) \<Rightarrow> bool" where
  "pthread_cond_ok L repc rep \<longleftrightarrow>
     (\<forall>c c'. pthread_cond_init L c = (0, c') \<longrightarrow> repc c' = acond_init) \<and>
     (\<forall>t c m a b. acond_wait_begin t (repc c) (rep m) = Ret (a, b) \<longrightarrow>
        (\<exists>c' m'. pthread_cond_wait_enter L t c m = Ret (c', m') \<and> repc c' = a \<and> rep m' = b)) \<and>
     (\<forall>t c m b. acond_wait_end t (repc c) (rep m) = Ret b \<longrightarrow>
        (\<exists>c' m'. pthread_cond_wait_leave L t c m = Ret (0, c', m') \<and> repc c' = repc c \<and> rep m' = b)) \<and>
     (\<forall>t c m. acond_wait_end t (repc c) (rep m) = Block \<longrightarrow> mx_owner (rep m) \<noteq> Some t \<longrightarrow>
        pthread_cond_wait_leave L t c m = Block) \<and>
     (\<forall>c a. acond_destroy (repc c) = Ret a \<longrightarrow> (\<exists>c'. pthread_cond_destroy L c = Ret (0, c'))) \<and>
     (\<forall>c. cv_live (repc c) \<longrightarrow> distinct (cv_waiters (repc c)) \<longrightarrow>
        (\<exists>c'. pthread_cond_signal L c = Ret (0, c') \<and> wakes_one (repc c) (repc c'))) \<and>
     (\<forall>c a. acond_broadcast (repc c) = Ret a \<longrightarrow> (\<exists>c'. pthread_cond_broadcast L c = Ret (0, c') \<and> repc c' = a))"

section \<open>Mutexes\<close>

definition thread_internal_mutex_init_pt ::
  "bool \<Rightarrow> ('m, 'c, 'attr) pthread_lib \<Rightarrow> bool \<Rightarrow> 'm \<Rightarrow> (rc \<times> 'm) logged" where
  "thread_internal_mutex_init_pt debug L recursive m =
     (if debug then
        if recursive then
          (let (ret, attr) = pthread_mutexattr_init L in
           if ret \<noteq> 0 then Ret ((ERR_IN_ERRNO, m), [])
           else let (ret, attr) = pthread_mutexattr_settype_recursive L attr in
             if ret \<noteq> 0 then c_assert debug (pthread_mutexattr_destroy L attr = 0) (Ret ((ERR_IN_ERRNO, m), []))
             else let (ret, m) = pthread_mutex_init L (Some attr) m in
               if ret \<noteq> 0 then c_assert debug (pthread_mutexattr_destroy L attr = 0) (Ret ((ERR_IN_ERRNO, m), []))
               else let ret = pthread_mutexattr_destroy L attr in
                 c_assert debug (ret = 0) (Ret ((if ret = 0 then SUCCESS else ERR_IN_ERRNO, m), [])))
        else (let (ret, m) = pthread_mutex_init L None m in
              Ret ((if ret = 0 then SUCCESS else ERR_IN_ERRNO, m), []))
      else
        if recursive then
          (let (ret, attr) = pthread_mutexattr_init L in
           if ret \<noteq> 0 then Ret ((ERR_IN_ERRNO, m), [])
           else let attr = snd (pthread_mutexattr_settype_recursive L attr);
                    (ret, m) = pthread_mutex_init L (Some attr) m
                in Ret ((if ret = 0 then SUCCESS else ERR_IN_ERRNO, m), []))
        else (let (ret, m) = pthread_mutex_init L None m in
              Ret ((if ret = 0 then SUCCESS else ERR_IN_ERRNO, m), [])))"

definition thread_internal_mutex_lock_pt ::
  "bool \<Rightarrow> ('m, 'c, 'attr) pthread_lib \<Rightarrow> tid \<Rightarrow> 'm \<Rightarrow> 'm logged" where
  "thread_internal_mutex_lock_pt debug L t m =
     obind (pthread_mutex_lock L t m) (\<lambda>(ret, m).
       c_assert debug (ret = 0) (Ret (m, help_if (debug \<and> ret = EDEADLK L) ''mutex lock failed'')))"

definition thread_internal_mutex_trylock_pt ::
  "('m, 'c, 'attr) pthread_lib \<Rightarrow> tid \<Rightarrow> 'm \<Rightarrow> (int \<times> 'm) logged" where
  "thread_internal_mutex_trylock_pt L t m =
     obind (pthread_mutex_trylock L t m) (\<lambda>(ret, m). Ret ((if ret = 0 then 0 else 1, m), []))"

definition thread_internal_mutex_unlock_pt ::
  "bool \<Rightarrow> ('m, 'c, 'attr) pthread_lib \<Rightarrow> tid \<Rightarrow> 'm \<Rightarrow> 'm logged" where
  "thread_internal_mutex_unlock_pt debug L t m =
     obind (pthread_mutex_unlock L t m) (\<lambda>(ret, m). c_assert debug (ret = 0) (Ret (m, [])))"

definition thread_internal_mutex_destroy_pt ::
  "bool \<Rightarrow> ('m, 'c, 'attr) pthread_lib \<Rightarrow> 'm \<Rightarrow> 'm logged" where
  "thread_internal_mutex_destroy_pt debug L m =
     obind (pthread_mutex_destroy L m) (\<lambda>(ret, m). c_assert debug (ret = 0) (Ret (m, [])))"

definition pthreads_mutex_ops :: "bool \<Rightarrow> ('m, 'c, 'attr) pthread_lib \<Rightarrow> 'm mutex_ops" where
  "pthreads_mutex_ops debug L =
     \<lparr>ti_mutex_init = thread_internal_mutex_init_pt debug L, ti_mutex_lock = thread_internal_mutex_lock_pt debug L,
      ti_mutex_trylock = thread_internal_mutex_trylock_pt L,
      ti_mutex_unlock = thread_internal_mutex_unlock_pt debug L,
      ti_mutex_destroy = thread_internal_mutex_destroy_pt debug L\<rparr>"

section \<open>Condition variables\<close>

definition thread_internal_cond_init_pt :: "('m, 'c, 'attr) pthread_lib \<Rightarrow> 'c \<Rightarrow> (rc \<times> 'c) logged" where
  "thread_internal_cond_init_pt L c =
     (let (ret, c) = pthread_cond_init L c in Ret ((if ret = 0 then SUCCESS else ERR_IN_ERRNO, c), []))"

text \<open>\<open>thread_internal_cond_wait\<close>, before and after it blocks.\<close>

definition thread_internal_cond_wait_enter_pt ::
  "('m, 'c, 'attr) pthread_lib \<Rightarrow> tid \<Rightarrow> 'c \<Rightarrow> 'm \<Rightarrow> ('c \<times> 'm) logged" where
  "thread_internal_cond_wait_enter_pt L t c m =
     obind (pthread_cond_wait_enter L t c m) (\<lambda>cm. Ret (cm, []))"

definition thread_internal_cond_wait_leave_pt ::
  "bool \<Rightarrow> ('m, 'c, 'attr) pthread_lib \<Rightarrow> tid \<Rightarrow> 'c \<Rightarrow> 'm \<Rightarrow> ('c \<times> 'm) logged" where
  "thread_internal_cond_wait_leave_pt debug L t c m =
     obind (pthread_cond_wait_leave L t c m) (\<lambda>(ret, cm). c_assert debug (ret = 0) (Ret (cm, [])))"

definition thread_internal_cond_broadcast_pt :: "bool \<Rightarrow> ('m, 'c, 'attr) pthread_lib \<Rightarrow> 'c \<Rightarrow> 'c logged" where
  "thread_internal_cond_broadcast_pt debug L c =
     obind (pthread_cond_broadcast L c) (\<lambda>(ret, c). c_assert debug (ret = 0) (Ret (c, [])))"

definition thread_internal_cond_signal_pt :: "bool \<Rightarrow> ('m, 'c, 'attr) pthread_lib \<Rightarrow> 'c \<Rightarrow> 'c logged" where
  "thread_internal_cond_signal_pt debug L c =
     obind (pthread_cond_signal L c) (\<lambda>(ret, c). c_assert debug (ret = 0) (Ret (c, [])))"

definition thread_internal_cond_destroy_pt :: "bool \<Rightarrow> ('m, 'c, 'attr) pthread_lib \<Rightarrow> 'c \<Rightarrow> 'c logged" where
  "thread_internal_cond_destroy_pt debug L c =
     obind (pthread_cond_destroy L c) (\<lambda>(ret, c). c_assert debug (ret = 0) (Ret (c, [])))"

definition pthreads_cond_ops :: "bool \<Rightarrow> ('m, 'c, 'attr) pthread_lib \<Rightarrow> ('c, 'm) cond_ops" where
  "pthreads_cond_ops debug L =
     \<lparr>ti_cond_init = thread_internal_cond_init_pt L, ti_cond_wait_enter = thread_internal_cond_wait_enter_pt L,
      ti_cond_wait_leave = thread_internal_cond_wait_leave_pt debug L,
      ti_cond_signal = (\<lambda>_. thread_internal_cond_signal_pt debug L),
      ti_cond_broadcast = (\<lambda>_. thread_internal_cond_broadcast_pt debug L),
      ti_cond_destroy = thread_internal_cond_destroy_pt debug L\<rparr>"

section \<open>The contracts\<close>

text \<open>
  In a release build a recursive mutex is only as good as \<open>pthread_mutexattr_settype\<close>, whose
  result the code drops.
\<close>

definition pt_init_ok :: "bool \<Rightarrow> ('m, 'c, 'attr) pthread_lib \<Rightarrow> bool \<Rightarrow> bool" where
  "pt_init_ok debug L recursive \<longleftrightarrow>
     debug \<or> \<not> recursive \<or> (\<forall>a. fst (pthread_mutexattr_settype_recursive L a) = 0)"

lemma pt_mutex_init_law:
  assumes "pthread_mutex_ok L rep" "pt_init_ok debug L r"
    and "thread_internal_mutex_init_pt debug L r m0 = Ret ((SUCCESS, m), ev)"
  shows "fresh_mutex r (rep m)"
proof -
  from assms(1) obtain recursive where
    n: "\<And>m m'. pthread_mutex_init L None m = (0, m') \<Longrightarrow> rep m' = amutex_init False"
    and i: "\<And>a m m'. pthread_mutex_init L (Some a) m = (0, m') \<Longrightarrow> fresh_mutex (recursive a) (rep m')"
    and s: "\<And>a r a'. pthread_mutexattr_settype_recursive L a = (r, a') \<Longrightarrow>
           recursive a' = (if r = 0 then True else recursive a)"
    unfolding pthread_mutex_ok_def by blast
  obtain r0 a where a: "pthread_mutexattr_init L = (r0, a)" by fastforce
  obtain r1 a' where a': "pthread_mutexattr_settype_recursive L a = (r1, a')" by fastforce
  obtain r2 m2 where m2: "pthread_mutex_init L (Some a') m0 = (r2, m2)" by fastforce
  obtain r3 m3 where m3: "pthread_mutex_init L None m0 = (r3, m3)" by fastforce
  have "r1 = 0" if "\<not> debug" "r" using assms(2) that a' by (auto simp: pt_init_ok_def dest: spec [of _ a])
  with assms(3) a a' m2 m3 n [of m0 m3] i [of a' m0 m2] s [OF a'] show ?thesis
    by (auto simp: thread_internal_mutex_init_pt_def c_assert_def Let_def split: if_splits)
qed

lemmas pt_mutex_defs = thread_internal_mutex_lock_pt_def thread_internal_mutex_trylock_pt_def
  thread_internal_mutex_unlock_pt_def thread_internal_mutex_destroy_pt_def

lemma pthread_mutex_okD:
  assumes "pthread_mutex_ok L rep"
  shows "amutex_lock t (rep m) = Ret a \<Longrightarrow> \<exists>m'. pthread_mutex_lock L t m = Ret (0, m') \<and> rep m' = a"
    "amutex_unlock t (rep m) = Ret a \<Longrightarrow> \<exists>m'. pthread_mutex_unlock L t m = Ret (0, m') \<and> rep m' = a"
    "at_limit t (rep m) \<Longrightarrow> \<exists>m'. pthread_mutex_lock L t m = Ret (EAGAIN L, m') \<and> rep m' = rep m"
    "EAGAIN L \<noteq> 0" "EAGAIN L \<noteq> EDEADLK L"
  using assms lib_okD(1,5) unfolding pthread_mutex_ok_def by metis+

text \<open>
  Beyond the limit of a recursive mutex a debug build fails its assertion, and a release build
  returns without having acquired the mutex once more.
\<close>

lemma pt_lock_at_limit:
  assumes "pthread_mutex_ok L rep" "at_limit t (rep m)"
  shows "thread_internal_mutex_lock_pt True L t m = AssertFail"
    "\<exists>m'. thread_internal_mutex_lock_pt False L t m = Ret (m', []) \<and> rep m' = rep m"
  using pthread_mutex_okD(3) [OF assms] pthread_mutex_okD(4) [OF assms(1)]
  by (auto simp: thread_internal_mutex_lock_pt_def c_assert_def)

interpretation pt: mutex_backend "pthreads_mutex_ops debug" pthread_mutex_ok "pt_init_ok debug" for debug
proof (unfold_locales, goal_cases)
  case (1 L rep r m0 m ev)
  then show ?case using pt_mutex_init_law by (auto simp: pthreads_mutex_ops_def)
next
  case (2 L rep t m a)
  from pthread_mutex_okD(1) [OF this] show ?case by (auto simp: pthreads_mutex_ops_def pt_mutex_defs)
next
  case (3 L rep t m)
  then show ?case by (auto simp: pthreads_mutex_ops_def pt_mutex_defs pthread_mutex_ok_def lib_lock_ok_def)
next
  case (4 L rep t m a)
  then show ?case by (fastforce simp: pthreads_mutex_ops_def pt_mutex_defs pthread_mutex_ok_def lib_trylock_ok_def)
next
  case (5 L rep t m)
  then show ?case by (fastforce simp: pthreads_mutex_ops_def pt_mutex_defs pthread_mutex_ok_def lib_trylock_ok_def)
next
  case (6 L rep t m a)
  from pthread_mutex_okD(2) [OF this] show ?case by (auto simp: pthreads_mutex_ops_def pt_mutex_defs)
next
  case (7 L rep m a)
  then show ?case by (fastforce simp: pthreads_mutex_ops_def pt_mutex_defs pthread_mutex_ok_def)
qed

lemmas pt_cond_defs = thread_internal_cond_init_pt_def thread_internal_cond_wait_enter_pt_def
  thread_internal_cond_wait_leave_pt_def thread_internal_cond_broadcast_pt_def thread_internal_cond_signal_pt_def

interpretation ptc: cond_backend "pthreads_cond_ops debug" pthread_cond_ok "\<lambda>_ _ _. True" for debug
proof (unfold_locales, goal_cases)
  case (1 L repc rep c0 c ev)
  then show ?case by (auto simp: pthreads_cond_ops_def pt_cond_defs pthread_cond_ok_def split: prod.splits if_splits)
next
  case (2 L repc rep t c m a b)
  then show ?case by (fastforce simp: pthreads_cond_ops_def pt_cond_defs pthread_cond_ok_def)
next
  case (3 L repc rep t c m b)
  then show ?case by (fastforce simp: pthreads_cond_ops_def pt_cond_defs pthread_cond_ok_def)
next
  case (4 L repc rep t c m)
  then show ?case by (simp add: pthreads_cond_ops_def pt_cond_defs pthread_cond_ok_def)
next
  case (5 L repc rep c u)
  then show ?case by (fastforce simp: pthreads_cond_ops_def pt_cond_defs pthread_cond_ok_def)
next
  case (6 L repc rep c a u)
  then show ?case by (fastforce simp: pthreads_cond_ops_def pt_cond_defs pthread_cond_ok_def)
next
  case (7 L repc rep c a)
  then show ?case by (fastforce simp: pthreads_cond_ops_def thread_internal_cond_destroy_pt_def pthread_cond_ok_def)
qed

section \<open>A library to run on\<close>

text \<open>
  POSIX on abstract mutexes; attributes are the flag \<open>recursive\<close>, and setting it succeeds or
  fails.
\<close>

definition ref_pthreads :: "bool \<Rightarrow> (amutex, acond, bool) pthread_lib" where
  "ref_pthreads settype_ok =
     \<lparr>EDEADLK = 35, EAGAIN = 11, pthread_mutexattr_init = (0, False),
      pthread_mutexattr_settype_recursive = (\<lambda>a. if settype_ok then (0, True) else (22, a)),
      pthread_mutexattr_destroy = (\<lambda>_. 0),
      pthread_mutex_init = (\<lambda>attr _. (0, ref_mutex (case attr of None \<Rightarrow> False | Some r \<Rightarrow> r))),
      pthread_mutex_lock = (\<lambda>t m. if at_limit t m then Ret (11, m) else ref_lock t m), pthread_mutex_trylock = ref_trylock 16, pthread_mutex_unlock = ref_unlock,
      pthread_mutex_destroy = (\<lambda>m. obind (amutex_destroy m) (\<lambda>m. Ret (0, m))),
      pthread_cond_init = (\<lambda>_. (0, acond_init)), pthread_cond_wait_enter = acond_wait_begin,
      pthread_cond_wait_leave = (\<lambda>t c m. obind (acond_wait_end t c m) (\<lambda>m. Ret (0, c, m))),
      pthread_cond_signal = (\<lambda>c. obind (acond_signal c) (\<lambda>c. Ret (0, c))),
      pthread_cond_broadcast = (\<lambda>c. obind (acond_broadcast c) (\<lambda>c. Ret (0, c))),
      pthread_cond_destroy = (\<lambda>c. obind (acond_destroy c) (\<lambda>c. Ret (0, c)))\<rparr>"

lemma ref_pthreads_ok: "pthread_mutex_ok (ref_pthreads b) id"
proof -
  have "lib_lock_ok 0 id (\<lambda>t m. if at_limit t m then Ret (11, m) else ref_lock t m)"
    using ref_lib_ok(1) by (auto simp: lib_lock_ok_def amutex_lock_at_limit)
  then show "pthread_mutex_ok (ref_pthreads b) id" unfolding pthread_mutex_ok_def
    by (intro conjI exI [of _ id]) (auto simp: ref_pthreads_def ref_lib_ok split: if_splits)
qed

lemma ref_pthreads_cond_ok: "pthread_cond_ok (ref_pthreads b) id id"
  unfolding pthread_cond_ok_def
  by (intro conjI) (auto simp: ref_pthreads_def acond_signal_def dest: acond_signal_wakes_one split: if_splits)

section \<open>Properties\<close>

text \<open>
  C37. A recursive mutex whose attributes cannot be made recursive: a debug build reports the
  error, a release build returns success with a mutex that is not recursive.
\<close>

theorem pthreads_recursive_init_failure:
  assumes "pthread_mutex_ok L rep" "pthread_mutexattr_init L = (0, a)" "pthread_mutexattr_destroy L a' = 0"
    and "pthread_mutexattr_settype_recursive L a = (r, a')" "r \<noteq> 0" "pthread_mutex_init L (Some a') m = (0, m')"
  shows "thread_internal_mutex_init_pt True L True m = Ret ((ERR_IN_ERRNO, m), []) \<and>
    thread_internal_mutex_init_pt False L True m = Ret ((SUCCESS, m'), []) \<and> rep m' = amutex_init False"
proof -
  from assms(1) obtain recursive where
    "\<And>a m m'. pthread_mutex_init L (Some a) m = (0, m') \<Longrightarrow> fresh_mutex (recursive a) (rep m')"
    and "\<And>a. pthread_mutexattr_init L = (0, a) \<Longrightarrow> \<not> recursive a"
    and "\<And>a r a'. pthread_mutexattr_settype_recursive L a = (r, a') \<Longrightarrow>
           recursive a' = (if r = 0 then True else recursive a)"
    unfolding pthread_mutex_ok_def by blast
  from this(1) [OF assms(6)] this(2) [OF assms(2)] this(3) [OF assms(4)] assms(5)
  have "rep m' = amutex_init False" by simp
  with assms(2-6) show ?thesis by (simp add: thread_internal_mutex_init_pt_def)
qed

theorem pthreads_recursive_init_failure_witness:
  "thread_internal_mutex_init_pt False (ref_pthreads False) True (amutex_init True)
     = Ret ((SUCCESS, amutex_init False), [])"
  using pthreads_recursive_init_failure [OF ref_pthreads_ok, of False False False 22 "amutex_init True" "amutex_init False"]
  by (simp add: ref_pthreads_def)

end
