(* ===== verification/Argobots.thy ===== *)
theory Argobots
  imports Backend_Spec
begin

text \<open>
  The Argobots backend, \<open>impl/argobots/threads_argobots_mutex.h\<close>. A handle obtained from the
  memory of a mutex or of a condition variable stands for that memory, so the model passes
  the memory itself.
\<close>

section \<open>The library\<close>

record ('m, 'c) abt_lib =
  ABT_SUCCESS :: int
  ABT_ERR_MUTEX_LOCKED :: int
  ABT_MUTEX_INITIALIZER :: 'm
  ABT_RECURSIVE_MUTEX_INITIALIZER :: 'm
  ABT_COND_INITIALIZER :: 'c
  ABT_mutex_lock :: "tid \<Rightarrow> 'm \<Rightarrow> (int \<times> 'm) outcome"
  ABT_mutex_trylock :: "tid \<Rightarrow> 'm \<Rightarrow> (int \<times> 'm) outcome"
  ABT_mutex_unlock :: "tid \<Rightarrow> 'm \<Rightarrow> (int \<times> 'm) outcome"
  ABT_cond_wait_enter :: "tid \<Rightarrow> 'c \<Rightarrow> 'm \<Rightarrow> ('c \<times> 'm) outcome"
  ABT_cond_wait_leave :: "tid \<Rightarrow> 'c \<Rightarrow> 'm \<Rightarrow> (int \<times> 'c \<times> 'm) outcome"
  ABT_cond_signal :: "'c \<Rightarrow> (int \<times> 'c) outcome"
  ABT_cond_broadcast :: "'c \<Rightarrow> (int \<times> 'c) outcome"

definition abt_mutex_ok :: "('m, 'c) abt_lib \<Rightarrow> ('m \<Rightarrow> amutex) \<Rightarrow> bool" where
  "abt_mutex_ok L rep \<longleftrightarrow>
     ABT_ERR_MUTEX_LOCKED L \<noteq> ABT_SUCCESS L \<and>
     rep (ABT_MUTEX_INITIALIZER L) = amutex_init False \<and>
     fresh_mutex True (rep (ABT_RECURSIVE_MUTEX_INITIALIZER L)) \<and>
     lib_lock_ok (ABT_SUCCESS L) rep (ABT_mutex_lock L) \<and>
     lib_trylock_ok (ABT_SUCCESS L) rep (ABT_mutex_trylock L) \<and>
     lib_unlock_ok (ABT_SUCCESS L) rep (ABT_mutex_unlock L)"

definition abt_cond_ok :: "('m, 'c) abt_lib \<Rightarrow> ('c \<Rightarrow> acond) \<Rightarrow> ('m \<Rightarrow> amutex) \<Rightarrow> bool" where
  "abt_cond_ok L repc rep \<longleftrightarrow>
     repc (ABT_COND_INITIALIZER L) = acond_init \<and>
     (\<forall>t c m a b. acond_wait_begin t (repc c) (rep m) = Ret (a, b) \<longrightarrow>
        (\<exists>c' m'. ABT_cond_wait_enter L t c m = Ret (c', m') \<and> repc c' = a \<and> rep m' = b)) \<and>
     (\<forall>t c m b. acond_wait_end t (repc c) (rep m) = Ret b \<longrightarrow>
        (\<exists>c' m'. ABT_cond_wait_leave L t c m = Ret (ABT_SUCCESS L, c', m') \<and> repc c' = repc c \<and> rep m' = b)) \<and>
     (\<forall>t c m. acond_wait_end t (repc c) (rep m) = Block \<longrightarrow> mx_owner (rep m) \<noteq> Some t \<longrightarrow>
        ABT_cond_wait_leave L t c m = Block) \<and>
     (\<forall>c. cv_live (repc c) \<longrightarrow> distinct (cv_waiters (repc c)) \<longrightarrow>
        (\<exists>c'. ABT_cond_signal L c = Ret (ABT_SUCCESS L, c') \<and> wakes_one (repc c) (repc c'))) \<and>
     (\<forall>c a. acond_broadcast (repc c) = Ret a \<longrightarrow>
        (\<exists>c'. ABT_cond_broadcast L c = Ret (ABT_SUCCESS L, c') \<and> repc c' = a))"

text \<open>\<open>threads_argobots_ensure_init\<close>, given the result of \<open>ABT_initialized\<close>.\<close>

definition threads_argobots_ensure_init :: "int \<Rightarrow> int \<Rightarrow> event list" where
  "threads_argobots_ensure_init abt_success abt_initialized =
     (if abt_success \<noteq> abt_initialized then [ArgobotsInit] else [])"

section \<open>Mutexes\<close>

definition thread_internal_mutex_init_abt :: "('m, 'c) abt_lib \<Rightarrow> bool \<Rightarrow> 'm \<Rightarrow> (rc \<times> 'm) logged" where
  "thread_internal_mutex_init_abt L recursive m =
     Ret ((SUCCESS, if recursive then ABT_RECURSIVE_MUTEX_INITIALIZER L else ABT_MUTEX_INITIALIZER L), [])"

definition thread_internal_mutex_lock_abt :: "bool \<Rightarrow> ('m, 'c) abt_lib \<Rightarrow> tid \<Rightarrow> 'm \<Rightarrow> 'm logged" where
  "thread_internal_mutex_lock_abt debug L t m =
     obind (ABT_mutex_lock L t m) (\<lambda>(ret, m).
       Ret (m, help_if (debug \<and> ret \<noteq> ABT_SUCCESS L) ''mutex lock failed''))"

definition thread_internal_mutex_trylock_abt :: "bool \<Rightarrow> ('m, 'c) abt_lib \<Rightarrow> tid \<Rightarrow> 'm \<Rightarrow> (int \<times> 'm) logged" where
  "thread_internal_mutex_trylock_abt debug L t m =
     obind (ABT_mutex_trylock L t m) (\<lambda>(ret, m).
       if ret = ABT_ERR_MUTEX_LOCKED L then Ret ((1, m), [])
       else if ret \<noteq> ABT_SUCCESS L then Ret ((1, m), help_if debug ''mutex trylock failed'')
       else Ret ((0, m), []))"

definition thread_internal_mutex_unlock_abt :: "bool \<Rightarrow> ('m, 'c) abt_lib \<Rightarrow> tid \<Rightarrow> 'm \<Rightarrow> 'm logged" where
  "thread_internal_mutex_unlock_abt debug L t m =
     obind (ABT_mutex_unlock L t m) (\<lambda>(ret, m).
       Ret (m, help_if (debug \<and> ret \<noteq> ABT_SUCCESS L) ''mutex unlock failed'' @ [Yield]))"

definition thread_internal_mutex_destroy_abt :: "'m \<Rightarrow> 'm logged" where
  "thread_internal_mutex_destroy_abt m = Ret (m, [])"

definition argobots_mutex_ops :: "bool \<Rightarrow> ('m, 'c) abt_lib \<Rightarrow> 'm mutex_ops" where
  "argobots_mutex_ops debug L =
     \<lparr>ti_mutex_init = thread_internal_mutex_init_abt L, ti_mutex_lock = thread_internal_mutex_lock_abt debug L,
      ti_mutex_trylock = thread_internal_mutex_trylock_abt debug L,
      ti_mutex_unlock = thread_internal_mutex_unlock_abt debug L,
      ti_mutex_destroy = thread_internal_mutex_destroy_abt\<rparr>"

section \<open>Condition variables\<close>

definition thread_internal_cond_init_abt :: "('m, 'c) abt_lib \<Rightarrow> 'c \<Rightarrow> (rc \<times> 'c) logged" where
  "thread_internal_cond_init_abt L c = Ret ((SUCCESS, ABT_COND_INITIALIZER L), [])"

definition thread_internal_cond_wait_enter_abt :: "('m, 'c) abt_lib \<Rightarrow> tid \<Rightarrow> 'c \<Rightarrow> 'm \<Rightarrow> ('c \<times> 'm) logged" where
  "thread_internal_cond_wait_enter_abt L t c m = obind (ABT_cond_wait_enter L t c m) (\<lambda>cm. Ret (cm, []))"

definition thread_internal_cond_wait_leave_abt ::
  "bool \<Rightarrow> ('m, 'c) abt_lib \<Rightarrow> tid \<Rightarrow> 'c \<Rightarrow> 'm \<Rightarrow> ('c \<times> 'm) logged" where
  "thread_internal_cond_wait_leave_abt debug L t c m =
     obind (ABT_cond_wait_leave L t c m) (\<lambda>(ret, cm). c_assert debug (ret = ABT_SUCCESS L) (Ret (cm, [])))"

definition thread_internal_cond_broadcast_abt :: "bool \<Rightarrow> ('m, 'c) abt_lib \<Rightarrow> 'c \<Rightarrow> 'c logged" where
  "thread_internal_cond_broadcast_abt debug L c =
     obind (ABT_cond_broadcast L c) (\<lambda>(ret, c). c_assert debug (ret = ABT_SUCCESS L) (Ret (c, [])))"

definition thread_internal_cond_signal_abt :: "bool \<Rightarrow> ('m, 'c) abt_lib \<Rightarrow> 'c \<Rightarrow> 'c logged" where
  "thread_internal_cond_signal_abt debug L c =
     obind (ABT_cond_signal L c) (\<lambda>(ret, c). c_assert debug (ret = ABT_SUCCESS L) (Ret (c, [])))"

definition thread_internal_cond_destroy_abt :: "'c \<Rightarrow> 'c logged" where
  "thread_internal_cond_destroy_abt c = Ret (c, [])"

definition argobots_cond_ops :: "bool \<Rightarrow> ('m, 'c) abt_lib \<Rightarrow> ('c, 'm) cond_ops" where
  "argobots_cond_ops debug L =
     \<lparr>ti_cond_init = thread_internal_cond_init_abt L, ti_cond_wait_enter = thread_internal_cond_wait_enter_abt L,
      ti_cond_wait_leave = thread_internal_cond_wait_leave_abt debug L,
      ti_cond_signal = (\<lambda>_. thread_internal_cond_signal_abt debug L),
      ti_cond_broadcast = (\<lambda>_. thread_internal_cond_broadcast_abt debug L),
      ti_cond_destroy = thread_internal_cond_destroy_abt\<rparr>"

section \<open>The contracts\<close>

lemmas abt_mutex_defs = argobots_mutex_ops_def thread_internal_mutex_init_abt_def thread_internal_mutex_lock_abt_def
  thread_internal_mutex_trylock_abt_def thread_internal_mutex_unlock_abt_def thread_internal_mutex_destroy_abt_def
  abt_mutex_ok_def

interpretation abt: mutex_backend "argobots_mutex_ops debug" abt_mutex_ok "\<lambda>_ _. True" for debug
proof (unfold_locales, goal_cases)
  case (1 L rep r m0 m ev)
  then show ?case by (auto simp: abt_mutex_defs split: if_splits)
next
  case (2 L rep t m a)
  then show ?case by (fastforce simp: abt_mutex_defs lib_lock_ok_def)
next
  case (3 L rep t m)
  then show ?case by (auto simp: abt_mutex_defs lib_lock_ok_def)
next
  case (4 L rep t m a)
  then have "lib_trylock_ok (ABT_SUCCESS L) rep (ABT_mutex_trylock L)" by (simp add: abt_mutex_ok_def)
  from lib_okD(3) [OF this 4(2)] obtain m' where "ABT_mutex_trylock L t m = Ret (ABT_SUCCESS L, m')" "rep m' = a"
    by blast
  with 4 show ?case by (auto simp: abt_mutex_defs)
next
  case (5 L rep t m)
  then have "lib_trylock_ok (ABT_SUCCESS L) rep (ABT_mutex_trylock L)" by (simp add: abt_mutex_ok_def)
  from lib_okD(4) [OF this 5(2)] obtain r m' where
    "ABT_mutex_trylock L t m = Ret (r, m')" "r \<noteq> ABT_SUCCESS L" "rep m' = rep m"
    by blast
  with 5 show ?case by (auto simp: abt_mutex_defs)
next
  case (6 L rep t m a)
  then show ?case by (fastforce simp: abt_mutex_defs lib_unlock_ok_def)
next
  case (7 L rep m a)
  then show ?case by (simp add: abt_mutex_defs)
qed

lemmas abt_cond_defs = argobots_cond_ops_def thread_internal_cond_init_abt_def thread_internal_cond_wait_enter_abt_def
  thread_internal_cond_wait_leave_abt_def thread_internal_cond_broadcast_abt_def thread_internal_cond_signal_abt_def
  abt_cond_ok_def

interpretation abtc: cond_backend "argobots_cond_ops debug" abt_cond_ok "\<lambda>_ _ _. True" for debug
proof (unfold_locales, goal_cases)
  case (1 L repc rep c0 c ev)
  then show ?case by (auto simp: abt_cond_defs)
next
  case (2 L repc rep t c m a b)
  then show ?case by (fastforce simp: abt_cond_defs)
next
  case (3 L repc rep t c m b)
  then show ?case by (fastforce simp: abt_cond_defs)
next
  case (4 L repc rep t c m)
  then show ?case by (simp add: abt_cond_defs)
next
  case (5 L repc rep c u)
  then show ?case by (fastforce simp: abt_cond_defs)
next
  case (6 L repc rep c a u)
  then show ?case by (fastforce simp: abt_cond_defs)
next
  case (7 L repc rep c a)
  then show ?case by (simp add: abt_cond_defs thread_internal_cond_destroy_abt_def)
qed

section \<open>A library to run on\<close>

text \<open>Argobots on abstract mutexes.\<close>

definition ref_argobots :: "(amutex, acond) abt_lib" where
  "ref_argobots =
     \<lparr>ABT_SUCCESS = 0, ABT_ERR_MUTEX_LOCKED = 26, ABT_MUTEX_INITIALIZER = amutex_init False,
      ABT_RECURSIVE_MUTEX_INITIALIZER = ref_mutex True, ABT_COND_INITIALIZER = acond_init,
      ABT_mutex_lock = ref_lock, ABT_mutex_trylock = ref_trylock 26, ABT_mutex_unlock = ref_unlock,
      ABT_cond_wait_enter = acond_wait_begin,
      ABT_cond_wait_leave = (\<lambda>t c m. obind (acond_wait_end t c m) (\<lambda>m. Ret (0, c, m))),
      ABT_cond_signal = (\<lambda>c. obind (acond_signal c) (\<lambda>c. Ret (0, c))),
      ABT_cond_broadcast = (\<lambda>c. obind (acond_broadcast c) (\<lambda>c. Ret (0, c)))\<rparr>"

lemma ref_argobots_ok: "abt_mutex_ok ref_argobots id"
  by (simp add: abt_mutex_ok_def ref_argobots_def ref_lib_ok)

lemma ref_argobots_cond_ok: "abt_cond_ok ref_argobots id id"
  unfolding abt_cond_ok_def
  by (intro conjI) (auto simp: ref_argobots_def acond_signal_def dest: acond_signal_wakes_one split: if_splits)

end
