(* ===== verification/Qthreads.thy ===== *)
theory Qthreads
  imports Backend_Spec
begin

text \<open>
  The Qthreads backend, \<open>impl/qthreads/threads_qthreads_mutex.h\<close> and \<open>threads_qthreads.h\<close>.
  Qthreads offers spin locks but no condition variables: the backend builds them from a
  linked queue of waiters that live on the stacks of the waiting threads. This theory models
  the queue over a heap of waiters; \<open>Qthreads_Cond\<close> shows that it is a FIFO.
\<close>

section \<open>The library\<close>

record 'm qthread_lib =
  QTHREAD_SUCCESS :: int
  QTHREAD_OPFAIL :: int
  qthread_spinlock_init :: "'m \<Rightarrow> bool \<Rightarrow> int \<times> 'm"
  qthread_spinlock_lock :: "tid \<Rightarrow> 'm \<Rightarrow> (int \<times> 'm) outcome"
  qthread_spinlock_trylock :: "tid \<Rightarrow> 'm \<Rightarrow> (int \<times> 'm) outcome"
  qthread_spinlock_unlock :: "tid \<Rightarrow> 'm \<Rightarrow> (int \<times> 'm) outcome"

text \<open>
  The backend looks at the result of \<open>qthread_spinlock_init\<close> only to print a help text and
  returns success in any case, so it can be relied on only with a library whose
  initialisation succeeds.
\<close>

definition qthread_mutex_ok :: "'m qthread_lib \<Rightarrow> ('m \<Rightarrow> amutex) \<Rightarrow> bool" where
  "qthread_mutex_ok L rep \<longleftrightarrow>
     QTHREAD_OPFAIL L \<noteq> QTHREAD_SUCCESS L \<and>
     (\<forall>m r. fst (qthread_spinlock_init L m r) = QTHREAD_SUCCESS L) \<and>
     (\<forall>m r m'. qthread_spinlock_init L m r = (QTHREAD_SUCCESS L, m') \<longrightarrow> fresh_mutex r (rep m')) \<and>
     lib_lock_ok (QTHREAD_SUCCESS L) rep (qthread_spinlock_lock L) \<and>
     lib_trylock_ok (QTHREAD_SUCCESS L) rep (qthread_spinlock_trylock L) \<and>
     lib_unlock_ok (QTHREAD_SUCCESS L) rep (qthread_spinlock_unlock L)"

section \<open>Mutexes\<close>

text \<open>\<open>threads_ensure_init_qthreads\<close>\<close>

definition threads_ensure_init_qthreads :: "event list" where
  "threads_ensure_init_qthreads = [QthreadInitialize]"

definition thread_internal_mutex_init_qt :: "bool \<Rightarrow> 'm qthread_lib \<Rightarrow> bool \<Rightarrow> 'm \<Rightarrow> (rc \<times> 'm) logged" where
  "thread_internal_mutex_init_qt debug L recursive m =
     (let (ret, m) = qthread_spinlock_init L m recursive in
      Ret ((SUCCESS, m), threads_ensure_init_qthreads @
             help_if (debug \<and> ret \<noteq> QTHREAD_SUCCESS L) ''mutex init failed''))"

definition thread_internal_mutex_lock_qt :: "bool \<Rightarrow> 'm qthread_lib \<Rightarrow> tid \<Rightarrow> 'm \<Rightarrow> 'm logged" where
  "thread_internal_mutex_lock_qt debug L t m =
     obind (qthread_spinlock_lock L t m) (\<lambda>(ret, m).
       Ret (m, threads_ensure_init_qthreads @ help_if (debug \<and> ret \<noteq> QTHREAD_SUCCESS L) ''mutex lock failed''))"

definition thread_internal_mutex_trylock_qt :: "bool \<Rightarrow> 'm qthread_lib \<Rightarrow> tid \<Rightarrow> 'm \<Rightarrow> (int \<times> 'm) logged" where
  "thread_internal_mutex_trylock_qt debug L t m =
     obind (qthread_spinlock_trylock L t m) (\<lambda>(ret, m).
       if ret = QTHREAD_OPFAIL L then Ret ((1, m), threads_ensure_init_qthreads)
       else if ret \<noteq> QTHREAD_SUCCESS L then
         Ret ((1, m), threads_ensure_init_qthreads @ help_if debug ''mutex trylock failed'')
       else Ret ((0, m), threads_ensure_init_qthreads))"

definition thread_internal_mutex_unlock_qt :: "bool \<Rightarrow> 'm qthread_lib \<Rightarrow> tid \<Rightarrow> 'm \<Rightarrow> 'm logged" where
  "thread_internal_mutex_unlock_qt debug L t m =
     obind (qthread_spinlock_unlock L t m) (\<lambda>(ret, m).
       Ret (m, threads_ensure_init_qthreads @
              help_if (debug \<and> ret \<noteq> QTHREAD_SUCCESS L) ''mutex unlock failed'' @ [Yield]))"

definition thread_internal_mutex_destroy_qt :: "'m \<Rightarrow> 'm logged" where
  "thread_internal_mutex_destroy_qt m = Ret (m, [])"

definition qthreads_mutex_ops :: "bool \<Rightarrow> 'm qthread_lib \<Rightarrow> 'm mutex_ops" where
  "qthreads_mutex_ops debug L =
     \<lparr>ti_mutex_init = thread_internal_mutex_init_qt debug L, ti_mutex_lock = thread_internal_mutex_lock_qt debug L,
      ti_mutex_trylock = thread_internal_mutex_trylock_qt debug L,
      ti_mutex_unlock = thread_internal_mutex_unlock_qt debug L,
      ti_mutex_destroy = thread_internal_mutex_destroy_qt\<rparr>"

lemmas qt_mutex_defs = qthreads_mutex_ops_def thread_internal_mutex_init_qt_def thread_internal_mutex_lock_qt_def
  thread_internal_mutex_trylock_qt_def thread_internal_mutex_unlock_qt_def thread_internal_mutex_destroy_qt_def

lemma qthread_init_fresh:
  "qthread_mutex_ok L rep \<Longrightarrow> fresh_mutex r (rep (snd (qthread_spinlock_init L m r)))"
  unfolding qthread_mutex_ok_def by (metis prod.collapse)

lemma qthread_mutex_okD:
  assumes "qthread_mutex_ok L rep"
  shows "amutex_lock t (rep m) = Ret a \<Longrightarrow>
      \<exists>m'. qthread_spinlock_lock L t m = Ret (QTHREAD_SUCCESS L, m') \<and> rep m' = a"
    "amutex_unlock t (rep m) = Ret a \<Longrightarrow>
      \<exists>m'. qthread_spinlock_unlock L t m = Ret (QTHREAD_SUCCESS L, m') \<and> rep m' = a"
    "amutex_lock t (rep m) = Block \<Longrightarrow> mx_owner (rep m) \<noteq> Some t \<Longrightarrow> qthread_spinlock_lock L t m = Block"
  using assms lib_okD(1,2,5) unfolding qthread_mutex_ok_def by metis+

interpretation qt: mutex_backend "qthreads_mutex_ops debug" qthread_mutex_ok "\<lambda>_ _. True" for debug
proof (unfold_locales, goal_cases)
  case (1 L rep r m0 m ev)
  then show ?case
    using qthread_init_fresh [of L rep r m0] by (auto simp: qt_mutex_defs split: prod.splits)
next
  case (2 L rep t m a)
  from qthread_mutex_okD(1) [OF this] show ?case by (auto simp: qt_mutex_defs)
next
  case (3 L rep t m)
  from qthread_mutex_okD(3) [OF this] show ?case by (simp add: qt_mutex_defs)
next
  case (4 L rep t m a)
  then have "lib_trylock_ok (QTHREAD_SUCCESS L) rep (qthread_spinlock_trylock L)" by (simp add: qthread_mutex_ok_def)
  from lib_okD(3) [OF this 4(2)] obtain m' where
    "qthread_spinlock_trylock L t m = Ret (QTHREAD_SUCCESS L, m')" "rep m' = a" by blast
  with 4(1) show ?case by (simp add: qt_mutex_defs qthread_mutex_ok_def)
next
  case (5 L rep t m)
  then have "lib_trylock_ok (QTHREAD_SUCCESS L) rep (qthread_spinlock_trylock L)" by (simp add: qthread_mutex_ok_def)
  from lib_okD(4) [OF this 5(2)] obtain r m' where
    "qthread_spinlock_trylock L t m = Ret (r, m')" "r \<noteq> QTHREAD_SUCCESS L" "rep m' = rep m" by blast
  with 5(1) show ?case by (simp add: qt_mutex_defs qthread_mutex_ok_def)
next
  case (6 L rep t m a)
  from qthread_mutex_okD(2) [OF this] show ?case by (auto simp: qt_mutex_defs)
next
  case (7 L rep m a)
  then show ?case by (simp add: qt_mutex_defs)
qed

section \<open>Condition variables\<close>

record thread_cond_waiter_t =
  m_signaled :: int
  m_prev :: "addr option"

record 'm qt_cond =
  m_lock :: 'm
  m_waiter_head :: "addr option"
  m_waiter_tail :: "addr option"

type_synonym waiters_heap = "addr \<Rightarrow> thread_cond_waiter_t"
type_synonym 'm cond_mem = "'m qt_cond \<times> waiters_heap"

text \<open>Lock and unlock of the condition variable's own spin lock; the codes are dropped.\<close>

definition cond_locked :: "'m qthread_lib \<Rightarrow> tid \<Rightarrow> ('m cond_mem \<Rightarrow> ('a \<times> 'm cond_mem) outcome) \<Rightarrow>
    'm cond_mem \<Rightarrow> ('a \<times> 'm cond_mem) outcome" where
  "cond_locked L t body cm =
     obind (qthread_spinlock_lock L t (m_lock (fst cm))) (\<lambda>(_, l).
     obind (body ((fst cm)\<lparr>m_lock := l\<rparr>, snd cm)) (\<lambda>(x, c, h).
     obind (qthread_spinlock_unlock L t (m_lock c)) (\<lambda>(_, l). Ret (x, c\<lparr>m_lock := l\<rparr>, h))))"

text \<open>\<open>THREAD_INTERNAL_COND_INITIALIZER\<close>, given the library's \<open>QTHREAD_MUTEX_INITIALIZER\<close>.\<close>

definition THREAD_INTERNAL_COND_INITIALIZER_qt :: "'m \<Rightarrow> 'm qt_cond" where
  "THREAD_INTERNAL_COND_INITIALIZER_qt QTHREAD_MUTEX_INITIALIZER =
     \<lparr>m_lock = QTHREAD_MUTEX_INITIALIZER, m_waiter_head = None, m_waiter_tail = None\<rparr>"

definition thread_internal_cond_init_qt :: "'m qthread_lib \<Rightarrow> 'm cond_mem \<Rightarrow> (rc \<times> 'm cond_mem) logged" where
  "thread_internal_cond_init_qt L cm =
     Ret ((SUCCESS, \<lparr>m_lock = snd (qthread_spinlock_init L (m_lock (fst cm)) False),
                     m_waiter_head = None, m_waiter_tail = None\<rparr>, snd cm), [])"

text \<open>The part of \<open>thread_internal_cond_wait\<close> that queues the waiter at address \<open>w\<close>.\<close>

definition cond_enqueue :: "addr \<Rightarrow> 'm cond_mem \<Rightarrow> 'm cond_mem" where
  "cond_enqueue w cm =
     (let c = fst cm; h = (snd cm)(w := \<lparr>m_signaled = 0, m_prev = None\<rparr>) in
      case m_waiter_head c of
        None \<Rightarrow> (c\<lparr>m_waiter_tail := Some w, m_waiter_head := Some w\<rparr>, h)
      | Some x \<Rightarrow> (c\<lparr>m_waiter_head := Some w\<rparr>, h(x := (h x)\<lparr>m_prev := Some w\<rparr>)))"

text \<open>
  \<open>thread_internal_cond_wait\<close>: up to the first release of the mutex, and a round of the loop
  from taking the mutex to the test of \<open>m_signaled\<close>; a round that does not end the loop
  releases the mutex again.
\<close>

definition cond_wait_enter_qt ::
  "bool \<Rightarrow> 'm qthread_lib \<Rightarrow> tid \<Rightarrow> addr \<Rightarrow> 'm cond_mem \<Rightarrow> 'm \<Rightarrow> ('m cond_mem \<times> 'm) logged" where
  "cond_wait_enter_qt debug L t w cm m =
     obind (cond_locked L t (\<lambda>cm. Ret ((), cond_enqueue w cm)) cm) (\<lambda>(_, cm).
     obind (thread_internal_mutex_unlock_qt debug L t m) (\<lambda>(m, ev).
       Ret ((cm, m), threads_ensure_init_qthreads @ ev @ [Yield])))"

definition cond_wait_round_qt ::
  "bool \<Rightarrow> 'm qthread_lib \<Rightarrow> tid \<Rightarrow> addr \<Rightarrow> 'm cond_mem \<Rightarrow> 'm \<Rightarrow> (bool \<times> 'm cond_mem \<times> 'm) logged" where
  "cond_wait_round_qt debug L t w cm m =
     obind (thread_internal_mutex_lock_qt debug L t m) (\<lambda>(m, ev).
     obind (cond_locked L t (\<lambda>(c, h). Ret (m_signaled (h w), c, h)) cm) (\<lambda>(signaled, cm).
       if signaled = 1 then Ret ((True, cm, m), ev)
       else obind (thread_internal_mutex_unlock_qt debug L t m) (\<lambda>(m, ev').
              Ret ((False, cm, m), ev @ ev' @ [Yield]))))"

text \<open>\<open>thread_internal_cond_signal\<close>\<close>

definition cond_dequeue :: "'m cond_mem \<Rightarrow> 'm cond_mem" where
  "cond_dequeue cm =
     (let c = fst cm; h = snd cm in
      case m_waiter_tail c of
        None \<Rightarrow> (c, h)
      | Some x \<Rightarrow>
          (let c = c\<lparr>m_waiter_tail := m_prev (h x)\<rparr>; h = h(x := (h x)\<lparr>m_signaled := 1\<rparr>) in
           if m_waiter_tail c = None then (c\<lparr>m_waiter_head := None\<rparr>, h) else (c, h)))"

definition thread_internal_cond_signal_qt :: "'m qthread_lib \<Rightarrow> tid \<Rightarrow> 'm cond_mem \<Rightarrow> 'm cond_mem logged" where
  "thread_internal_cond_signal_qt L t cm =
     obind (cond_locked L t (\<lambda>cm. Ret ((), cond_dequeue cm)) cm) (\<lambda>(_, cm). Ret (cm, []))"

text \<open>
  The loop of \<open>thread_internal_cond_broadcast\<close>: it follows \<open>m_prev\<close> from the tail, and would
  not end on a queue with a cycle.
\<close>

partial_function (option) broadcast_loop :: "addr option \<Rightarrow> waiters_heap \<Rightarrow> waiters_heap option" where
  "broadcast_loop tail h =
     (case tail of None \<Rightarrow> Some h
      | Some x \<Rightarrow> broadcast_loop (m_prev (h x)) (h(x := (h x)\<lparr>m_signaled := 1\<rparr>)))"

definition cond_dequeue_all :: "'m cond_mem \<Rightarrow> 'm cond_mem option" where
  "cond_dequeue_all cm =
     (case broadcast_loop (m_waiter_tail (fst cm)) (snd cm) of
        None \<Rightarrow> None
      | Some h \<Rightarrow> Some ((fst cm)\<lparr>m_waiter_tail := None, m_waiter_head := None\<rparr>, h))"

definition thread_internal_cond_broadcast_qt :: "'m qthread_lib \<Rightarrow> tid \<Rightarrow> 'm cond_mem \<Rightarrow> 'm cond_mem logged" where
  "thread_internal_cond_broadcast_qt L t cm =
     obind (cond_locked L t (\<lambda>cm. case cond_dequeue_all cm of None \<Rightarrow> Block | Some cm \<Rightarrow> Ret ((), cm)) cm)
       (\<lambda>(_, cm). Ret (cm, []))"

definition thread_internal_cond_destroy_qt :: "'m cond_mem \<Rightarrow> 'm cond_mem logged" where
  "thread_internal_cond_destroy_qt cm = Ret (cm, [])"

end
