(* ===== verification/Qthreads_Cond.thy ===== *)
theory Qthreads_Cond
  imports Qthreads
begin

text \<open>
  The queue of waiters of a Qthreads condition variable is a FIFO: it represents the list of
  the waiting threads, oldest first, waiting appends to the list, a signal removes its first
  element and a broadcast all of them, and the loop of the broadcast ends. A waiter's flag
  tells it whether it is still queued, so the backend meets the contract of a condition
  variable.
\<close>

section \<open>The list a queue represents\<close>

text \<open>\<open>m_prev\<close> leads from each waiter to the one that came after it.\<close>

fun chain :: "waiters_heap \<Rightarrow> addr list \<Rightarrow> bool" where
  "chain h [] \<longleftrightarrow> True"
| "chain h [w] \<longleftrightarrow> m_prev (h w) = None"
| "chain h (w # v # ws) \<longleftrightarrow> m_prev (h w) = Some v \<and> chain h (v # ws)"

definition waiter_queue :: "'m cond_mem \<Rightarrow> addr list \<Rightarrow> bool" where
  "waiter_queue cm ws \<longleftrightarrow> chain (snd cm) ws \<and> distinct ws \<and>
     m_waiter_head (fst cm) = (if ws = [] then None else Some (last ws)) \<and>
     m_waiter_tail (fst cm) = (if ws = [] then None else Some (hd ws))"

lemma chain_cong: "(\<And>x. x \<in> set ws \<Longrightarrow> m_prev (h' x) = m_prev (h x)) \<Longrightarrow> chain h' ws = chain h ws"
  by (induction h ws rule: chain.induct) auto

lemma chain_Cons: "chain h (w # ws) \<longleftrightarrow> m_prev (h w) = (if ws = [] then None else Some (hd ws)) \<and> chain h ws"
  by (cases ws) auto

lemma chain_snoc:
  "chain h (ws @ [w]) \<longleftrightarrow> (if ws = [] then True else m_prev (h (last ws)) = Some w \<and> chain (h(last ws := (h (last ws))\<lparr>m_prev := None\<rparr>)) ws) \<and>
     m_prev (h w) = None"
  if "w \<notin> set ws" "distinct ws"
  using that
proof (induction ws)
  case (Cons x xs)
  show ?case
  proof (cases "xs = []")
    case False
    then have "last xs \<noteq> x" using Cons.prems last_in_set [of xs] by auto
    with False Cons show ?thesis by (auto simp: chain_Cons)
  qed (auto simp: chain_Cons)
qed simp

lemma chain_unique:
  "chain h ws \<Longrightarrow> chain h vs \<Longrightarrow> ws \<noteq> [] \<Longrightarrow> vs \<noteq> [] \<Longrightarrow> hd ws = hd vs \<Longrightarrow> ws = vs"
proof (induction ws arbitrary: vs)
  case (Cons w ws)
  then obtain us where vs: "vs = w # us" by (cases vs) auto
  from Cons.prems vs have "(if ws = [] then None else Some (hd ws)) = (if us = [] then None else Some (hd us))"
    by (simp add: chain_Cons split: if_splits)
  moreover from Cons.prems vs have "chain h ws" "chain h us" by (simp_all add: chain_Cons)
  ultimately have "ws = us" using Cons.IH [of us] by (cases "ws = []"; cases "us = []") auto
  with vs show ?case by simp
qed simp

lemma waiter_queue_unique: "waiter_queue cm ws \<Longrightarrow> waiter_queue cm vs \<Longrightarrow> ws = vs"
  unfolding waiter_queue_def by (metis chain_unique option.distinct(1) option.inject)

section \<open>Waiting\<close>

lemma cond_enqueue_appends:
  assumes q: "waiter_queue cm ws" and w: "w \<notin> set ws"
  shows "waiter_queue (cond_enqueue w cm) (ws @ [w])" "m_signaled (snd (cond_enqueue w cm) w) = 0"
    "x \<noteq> w \<Longrightarrow> m_signaled (snd (cond_enqueue w cm) x) = m_signaled (snd cm x)"
    "x \<notin> set ws \<Longrightarrow> x \<noteq> w \<Longrightarrow> snd (cond_enqueue w cm) x = snd cm x"
    "m_lock (fst (cond_enqueue w cm)) = m_lock (fst cm)"
proof -
  obtain c h where cm: "cm = (c, h)" by fastforce
  from q have ch: "chain h ws" and d: "distinct ws"
    and hd: "m_waiter_head c = (if ws = [] then None else Some (last ws))"
    and tl: "m_waiter_tail c = (if ws = [] then None else Some (hd ws))"
    by (simp_all add: waiter_queue_def cm)
  show "waiter_queue (cond_enqueue w cm) (ws @ [w])"
  proof (cases "ws = []")
    case True
    then show ?thesis using hd by (simp add: waiter_queue_def cond_enqueue_def cm)
  next
    case False
    then have lw: "last ws \<noteq> w" "last ws \<in> set ws" using w by auto
    let ?h = "(h(w := \<lparr>m_signaled = 0, m_prev = None\<rparr>))(last ws := (h (last ws))\<lparr>m_prev := Some w\<rparr>)"
    have e: "cond_enqueue w cm = (c\<lparr>m_waiter_head := Some w\<rparr>, ?h)"
      using False hd lw by (simp add: cond_enqueue_def cm)
    have "m_prev (h (last ws)) = None"
      using ch False by (induction h ws rule: chain.induct) auto
    then have "chain (?h(last ws := (?h (last ws))\<lparr>m_prev := None\<rparr>)) ws"
      using ch w by (subst chain_cong [of ws _ h]) auto
    then have "chain ?h (ws @ [w])" using False lw chain_snoc [OF w d, of ?h] by simp
    then show ?thesis using False d w tl by (simp add: waiter_queue_def e)
  qed
  show "m_signaled (snd (cond_enqueue w cm) w) = 0"
    "x \<noteq> w \<Longrightarrow> m_signaled (snd (cond_enqueue w cm) x) = m_signaled (snd cm x)"
    "x \<notin> set ws \<Longrightarrow> x \<noteq> w \<Longrightarrow> snd (cond_enqueue w cm) x = snd cm x"
    "m_lock (fst (cond_enqueue w cm)) = m_lock (fst cm)"
    using hd w by (auto simp: cond_enqueue_def cm Let_def split: option.splits if_splits)
qed

section \<open>Signalling\<close>

lemma cond_dequeue_empty: "waiter_queue cm [] \<Longrightarrow> cond_dequeue cm = cm"
  by (simp add: waiter_queue_def cond_dequeue_def)

lemma cond_dequeue_first:
  assumes q: "waiter_queue cm (w # ws)"
  shows "waiter_queue (cond_dequeue cm) ws"
    "snd (cond_dequeue cm) = (snd cm)(w := (snd cm w)\<lparr>m_signaled := 1\<rparr>)"
    "m_lock (fst (cond_dequeue cm)) = m_lock (fst cm)"
proof -
  obtain c h where cm: "cm = (c, h)" by fastforce
  from q have p: "m_prev (h w) = (if ws = [] then None else Some (hd ws))" and ch: "chain h ws"
    and d: "distinct (w # ws)" and hd: "m_waiter_head c = Some (last (w # ws))"
    and tl: "m_waiter_tail c = Some w"
    by (simp_all add: waiter_queue_def cm chain_Cons)
  have "chain (h(w := (h w)\<lparr>m_signaled := 1\<rparr>)) ws" using ch by (subst chain_cong [of ws _ h]) auto
  with d hd tl p show "waiter_queue (cond_dequeue cm) ws"
    by (auto simp: waiter_queue_def cond_dequeue_def cm)
  show "snd (cond_dequeue cm) = (snd cm)(w := (snd cm w)\<lparr>m_signaled := 1\<rparr>)"
    "m_lock (fst (cond_dequeue cm)) = m_lock (fst cm)"
    using tl by (simp_all add: cond_dequeue_def cm Let_def)
qed

section \<open>Broadcasting\<close>

text \<open>On a chain the loop ends and has signalled every waiter on it and nothing else.\<close>

lemma broadcast_loop_returns:
  "chain h ws \<Longrightarrow> distinct ws \<Longrightarrow>
     broadcast_loop (if ws = [] then None else Some (hd ws)) h =
       Some (\<lambda>x. if x \<in> set ws then (h x)\<lparr>m_signaled := 1\<rparr> else h x)"
proof (induction ws arbitrary: h)
  case Nil
  show ?case by (subst broadcast_loop.simps) simp
next
  case (Cons w ws)
  let ?h = "h(w := (h w)\<lparr>m_signaled := 1\<rparr>)"
  from Cons.prems have p: "m_prev (h w) = (if ws = [] then None else Some (hd ws))"
    and ch: "chain h ws" and d: "distinct ws" "w \<notin> set ws"
    by (simp_all add: chain_Cons)
  from ch have "chain ?h ws" by (subst chain_cong [of ws _ h]) auto
  note ih = Cons.IH [OF this d(1)]
  have eq: "(\<lambda>x. if x \<in> set ws then (?h x)\<lparr>m_signaled := 1\<rparr> else ?h x) =
        (\<lambda>x. if x \<in> set (w # ws) then (h x)\<lparr>m_signaled := 1\<rparr> else h x)"
    using d(2) by auto
  have "broadcast_loop (Some w) h = broadcast_loop (m_prev (h w)) ?h"
    by (subst broadcast_loop.simps) simp
  also have "\<dots> = Some (\<lambda>x. if x \<in> set (w # ws) then (h x)\<lparr>m_signaled := 1\<rparr> else h x)"
    unfolding p ih eq ..
  finally show ?case by simp
qed

lemma cond_dequeue_all_clears:
  assumes "waiter_queue cm ws"
  shows "\<exists>cm'. cond_dequeue_all cm = Some cm' \<and> waiter_queue cm' [] \<and> m_lock (fst cm') = m_lock (fst cm) \<and>
    snd cm' = (\<lambda>x. if x \<in> set ws then (snd cm x)\<lparr>m_signaled := 1\<rparr> else snd cm x)"
  using assms broadcast_loop_returns [of "snd cm" ws]
  by (simp add: waiter_queue_def cond_dequeue_all_def split: if_splits)

section \<open>Under the lock\<close>

text \<open>The condition variable's own lock is free between its operations.\<close>

definition lock_free :: "('m \<Rightarrow> amutex) \<Rightarrow> 'm cond_mem \<Rightarrow> bool" where
  "lock_free rep cm \<longleftrightarrow> plain (rep (m_lock (fst cm))) \<and> mx_owner (rep (m_lock (fst cm))) = None"

text \<open>
  On a free lock an operation runs, the lock is free again, and the operation's effect is
  that of its body.
\<close>

lemma cond_locked_runs:
  assumes ok: "qthread_mutex_ok L rep" and fr: "lock_free rep cm"
    and body: "\<And>l. \<exists>c'. body ((fst cm)\<lparr>m_lock := l\<rparr>, snd cm) = Ret (x, c', h') \<and> m_lock c' = l \<and>
        m_waiter_head c' = hd' \<and> m_waiter_tail c' = tl'"
  shows "\<exists>c'. cond_locked L t body cm = Ret (x, c', h') \<and> lock_free rep (c', h') \<and>
    m_waiter_head c' = hd' \<and> m_waiter_tail c' = tl'"
proof -
  let ?m = "m_lock (fst cm)" and ?a = "(rep (m_lock (fst cm)))\<lparr>mx_owner := Some t, mx_depth := Suc 0\<rparr>"
  from fr have p: "plain (rep ?m)" "mx_owner (rep ?m) = None" by (simp_all add: lock_free_def)
  then have "amutex_lock t (rep ?m) = Ret ?a" by (simp add: amutex_lock_plain)
  from qthread_mutex_okD(1) [OF ok this] obtain l where
    l: "qthread_spinlock_lock L t ?m = Ret (QTHREAD_SUCCESS L, l)" "rep l = ?a" by blast
  from body [of l] obtain c' where
    b: "body ((fst cm)\<lparr>m_lock := l\<rparr>, snd cm) = Ret (x, c', h')" "m_lock c' = l"
      "m_waiter_head c' = hd'" "m_waiter_tail c' = tl'" by blast
  have "amutex_unlock t (rep l) = Ret (?a\<lparr>mx_owner := None, mx_depth := 0\<rparr>)"
    using p by (simp add: l(2) amutex_unlock_plain)
  from qthread_mutex_okD(2) [OF ok this] obtain l' where
    u: "qthread_spinlock_unlock L t l = Ret (QTHREAD_SUCCESS L, l')"
      "rep l' = ?a\<lparr>mx_owner := None, mx_depth := 0\<rparr>" by blast
  have "cond_locked L t body cm = Ret (x, c'\<lparr>m_lock := l'\<rparr>, h')"
    by (simp add: cond_locked_def l(1) b(1,2) u(1))
  moreover have "lock_free rep (c'\<lparr>m_lock := l'\<rparr>, h')"
    using p(1) by (simp add: lock_free_def u(2))
  ultimately show ?thesis using b(3,4) by auto
qed

lemma waiter_queue_lock [simp]: "waiter_queue (c\<lparr>m_lock := l\<rparr>, h) ws = waiter_queue (c, h) ws"
  by (simp add: waiter_queue_def)

lemma waiter_queue_fields:
  "waiter_queue (c, h) ws \<Longrightarrow> m_waiter_head c' = m_waiter_head c \<Longrightarrow> m_waiter_tail c' = m_waiter_tail c \<Longrightarrow>
     waiter_queue (c', h) ws"
  by (simp add: waiter_queue_def)

text \<open>The bodies do not look at the lock.\<close>

lemma bodies_ignore_lock:
  "cond_enqueue w (c\<lparr>m_lock := l\<rparr>, h) = (case cond_enqueue w (c, h) of (c', h') \<Rightarrow> (c'\<lparr>m_lock := l\<rparr>, h'))"
  "cond_dequeue (c\<lparr>m_lock := l\<rparr>, h) = (case cond_dequeue (c, h) of (c', h') \<Rightarrow> (c'\<lparr>m_lock := l\<rparr>, h'))"
  "cond_dequeue_all (c\<lparr>m_lock := l\<rparr>, h) =
     (case cond_dequeue_all (c, h) of None \<Rightarrow> None | Some (c', h') \<Rightarrow> Some (c'\<lparr>m_lock := l\<rparr>, h'))"
  by (cases c; simp add: cond_enqueue_def cond_dequeue_def cond_dequeue_all_def Let_def split: option.split)+

lemma enqueue_runs:
  assumes ok: "qthread_mutex_ok L rep" and fr: "lock_free rep cm" and q: "waiter_queue cm ws"
    and w: "w \<notin> set ws"
  shows "\<exists>cm'. cond_locked L t (\<lambda>cm. Ret ((), cond_enqueue w cm)) cm = Ret ((), cm') \<and> lock_free rep cm' \<and>
    waiter_queue cm' (ws @ [w]) \<and> snd cm' = snd (cond_enqueue w cm)"
proof -
  obtain c h where cm: "cm = (c, h)" by fastforce
  obtain c1 h1 where e: "cond_enqueue w (c, h) = (c1, h1)" by fastforce
  from cond_locked_runs [OF ok fr, of "\<lambda>cm. Ret ((), cond_enqueue w cm)" "()" h1 "m_waiter_head c1" "m_waiter_tail c1" t]
  obtain c' where c': "cond_locked L t (\<lambda>cm. Ret ((), cond_enqueue w cm)) cm = Ret ((), c', h1)"
    "lock_free rep (c', h1)" "m_waiter_head c' = m_waiter_head c1" "m_waiter_tail c' = m_waiter_tail c1"
    by (auto simp: cm bodies_ignore_lock e)
  moreover have "waiter_queue (c', h1) (ws @ [w])"
    using cond_enqueue_appends(1) [OF q w] c'(3,4) by (auto simp: cm e intro: waiter_queue_fields)
  ultimately show ?thesis using e by (simp add: cm)
qed

lemma wait_enter_runs:
  assumes ok: "qthread_mutex_ok L rep" and fr: "lock_free rep cm" and q: "waiter_queue cm ws"
    and w: "w \<notin> set ws" and m: "amutex_unlock t (rep m) = Ret b"
  shows "\<exists>cm' m' ev. cond_wait_enter_qt debug L t w cm m = Ret ((cm', m'), ev) \<and> lock_free rep cm' \<and>
    waiter_queue cm' (ws @ [w]) \<and> rep m' = b"
proof -
  from qthread_mutex_okD(2) [OF ok m] obtain m' where
    "qthread_spinlock_unlock L t m = Ret (QTHREAD_SUCCESS L, m')" "rep m' = b" by blast
  with enqueue_runs [OF ok fr q w, of t] show ?thesis
    by (auto simp: cond_wait_enter_qt_def thread_internal_mutex_unlock_qt_def)
qed

lemma wait_enter_frame:
  assumes ok: "qthread_mutex_ok L rep" and fr: "lock_free rep cm" and q: "waiter_queue cm ws"
    and w: "w \<notin> set ws" and ex: "cond_wait_enter_qt debug L t w cm m = Ret ((cm', m'), ev)"
  shows "lock_free rep cm'" "waiter_queue cm' (ws @ [w])" "m_signaled (snd cm' w) = 0"
    "x \<noteq> w \<Longrightarrow> m_signaled (snd cm' x) = m_signaled (snd cm x)"
  using enqueue_runs [OF ok fr q w, of t] ex cond_enqueue_appends(2,3) [OF q w]
  by (auto simp: cond_wait_enter_qt_def)

lemma signal_runs:
  assumes ok: "qthread_mutex_ok L rep" and fr: "lock_free rep cm" and q: "waiter_queue cm ws"
  shows "\<exists>cm'. thread_internal_cond_signal_qt L t cm = Ret (cm', []) \<and> lock_free rep cm' \<and>
    waiter_queue cm' (tl ws) \<and>
    snd cm' = (if ws = [] then snd cm else (snd cm)(hd ws := (snd cm (hd ws))\<lparr>m_signaled := 1\<rparr>))"
proof -
  obtain c h where cm: "cm = (c, h)" by fastforce
  obtain c1 h1 where e: "cond_dequeue (c, h) = (c1, h1)" by fastforce
  from cond_locked_runs [OF ok fr, of "\<lambda>cm. Ret ((), cond_dequeue cm)" "()" h1 "m_waiter_head c1" "m_waiter_tail c1" t]
  obtain c' where c': "cond_locked L t (\<lambda>cm. Ret ((), cond_dequeue cm)) cm = Ret ((), c', h1)"
    "lock_free rep (c', h1)" "m_waiter_head c' = m_waiter_head c1" "m_waiter_tail c' = m_waiter_tail c1"
    by (auto simp: cm bodies_ignore_lock e)
  have "waiter_queue (c1, h1) (tl ws) \<and>
      h1 = (if ws = [] then h else h(hd ws := (h (hd ws))\<lparr>m_signaled := 1\<rparr>))"
  proof (cases ws)
    case Nil
    with cond_dequeue_empty [of cm] q e cm show ?thesis by simp
  next
    case (Cons w vs)
    with cond_dequeue_first [of cm w vs] q e cm show ?thesis by simp
  qed
  with c' show ?thesis
    by (auto simp: thread_internal_cond_signal_qt_def cm intro: waiter_queue_fields)
qed

lemma broadcast_runs:
  assumes ok: "qthread_mutex_ok L rep" and fr: "lock_free rep cm" and q: "waiter_queue cm ws"
  shows "\<exists>cm'. thread_internal_cond_broadcast_qt L t cm = Ret (cm', []) \<and> lock_free rep cm' \<and>
    waiter_queue cm' [] \<and> snd cm' = (\<lambda>x. if x \<in> set ws then (snd cm x)\<lparr>m_signaled := 1\<rparr> else snd cm x)"
proof -
  obtain c h where cm: "cm = (c, h)" by fastforce
  let ?body = "\<lambda>cm. case cond_dequeue_all cm of None \<Rightarrow> Block | Some cm \<Rightarrow> Ret ((), cm)"
  from cond_dequeue_all_clears [OF q [unfolded cm], unfolded snd_conv] obtain c1 h1 where e: "cond_dequeue_all (c, h) = Some (c1, h1)"
    and q1: "waiter_queue (c1, h1) []"
    and h1: "h1 = (\<lambda>x. if x \<in> set ws then (h x)\<lparr>m_signaled := 1\<rparr> else h x)" by auto
  from cond_locked_runs [OF ok fr, of ?body "()" h1 "m_waiter_head c1" "m_waiter_tail c1" t]
  obtain c' where c': "cond_locked L t ?body cm = Ret ((), c', h1)"
    "lock_free rep (c', h1)" "m_waiter_head c' = m_waiter_head c1" "m_waiter_tail c' = m_waiter_tail c1"
    by (auto simp: cm bodies_ignore_lock e)
  with q1 h1 show ?thesis
    by (auto simp: thread_internal_cond_broadcast_qt_def cm intro: waiter_queue_fields)
qed

section \<open>The contract\<close>

definition qthreads_cond_ops :: "bool \<Rightarrow> 'm qthread_lib \<Rightarrow> ('m cond_mem, 'm) cond_ops" where
  "qthreads_cond_ops debug L =
     \<lparr>ti_cond_init = thread_internal_cond_init_qt L,
      ti_cond_wait_enter = (\<lambda>t. cond_wait_enter_qt debug L t t),
      ti_cond_wait_leave = (\<lambda>t cm m. obind (cond_wait_round_qt debug L t t cm m)
         (\<lambda>((signaled, cm, m), ev). if signaled then Ret ((cm, m), ev) else Block)),
      ti_cond_signal = thread_internal_cond_signal_qt L,
      ti_cond_broadcast = thread_internal_cond_broadcast_qt L,
      ti_cond_destroy = thread_internal_cond_destroy_qt\<rparr>"

definition qt_repc :: "('m \<Rightarrow> amutex) \<Rightarrow> 'm cond_mem \<Rightarrow> acond" where
  "qt_repc rep cm =
     (if lock_free rep cm \<and> (\<exists>ws. waiter_queue cm ws)
      then \<lparr>cv_live = True, cv_waiters = (THE ws. waiter_queue cm ws)\<rparr> else \<lparr>cv_live = False, cv_waiters = []\<rparr>)"

lemma qt_repc_eq:
  "lock_free rep cm \<Longrightarrow> waiter_queue cm ws \<Longrightarrow> qt_repc rep cm = \<lparr>cv_live = True, cv_waiters = ws\<rparr>"
  by (auto simp: qt_repc_def intro!: the_equality intro: waiter_queue_unique)

lemma qt_repc_live:
  assumes "cv_live (qt_repc rep cm)"
  shows "lock_free rep cm" "waiter_queue cm (cv_waiters (qt_repc rep cm))"
proof -
  from assms show l: "lock_free rep cm" by (simp add: qt_repc_def split: if_splits)
  from assms obtain ws where "waiter_queue cm ws" by (auto simp: qt_repc_def split: if_splits)
  with l show "waiter_queue cm (cv_waiters (qt_repc rep cm))" by (simp add: qt_repc_eq)
qed

text \<open>A condition variable with the static initialiser is fresh, like one that was initialised.\<close>

lemma static_cond_fresh:
  assumes "rep init = amutex_init False"
  shows "qt_repc rep (THREAD_INTERNAL_COND_INITIALIZER_qt init, h) = acond_init"
  using qt_repc_eq [of rep "(THREAD_INTERNAL_COND_INITIALIZER_qt init, h)" "[]"] assms
  by (simp add: THREAD_INTERNAL_COND_INITIALIZER_qt_def lock_free_def waiter_queue_def acond_init_def)

text \<open>The flag of a waiter is set exactly when it is no longer queued.\<close>

definition qt_tracks :: "('m cond_mem \<Rightarrow> acond) \<Rightarrow> tid \<Rightarrow> 'm cond_mem \<Rightarrow> bool" where
  "qt_tracks repc t cm \<longleftrightarrow> (m_signaled (snd cm t) = 1 \<longleftrightarrow> t \<notin> set (cv_waiters (repc cm)))"

lemma qt_tracks_eq:
  "lock_free rep cm \<Longrightarrow> waiter_queue cm ws \<Longrightarrow> qt_tracks (qt_repc rep) t cm \<longleftrightarrow> (m_signaled (snd cm t) = 1 \<longleftrightarrow> t \<notin> set ws)"
  by (simp add: qt_tracks_def qt_repc_eq)

text \<open>A round on a free mutex ends the wait, or leaves everything as it was.\<close>

lemma wait_round_runs:
  assumes ok: "qthread_mutex_ok L rep" and fr: "lock_free rep cm"
    and m: "amutex_lock t (rep m) = Ret b"
  shows "\<exists>c' m' ev. cond_wait_round_qt debug L t w cm m = Ret ((m_signaled (snd cm w) = 1, (c', snd cm), m'), ev) \<and>
    lock_free rep (c', snd cm) \<and> m_waiter_head c' = m_waiter_head (fst cm) \<and> m_waiter_tail c' = m_waiter_tail (fst cm) \<and>
    (m_signaled (snd cm w) = 1 \<longrightarrow> rep m' = b)"
proof -
  let ?body = "\<lambda>(c, h). Ret (m_signaled (h w), c, h)"
  from cond_locked_runs [OF ok fr, of ?body "m_signaled (snd cm w)" "snd cm" "m_waiter_head (fst cm)" "m_waiter_tail (fst cm)" t]
  obtain c' where c': "cond_locked L t ?body cm = Ret (m_signaled (snd cm w), c', snd cm)" "lock_free rep (c', snd cm)"
    "m_waiter_head c' = m_waiter_head (fst cm)" "m_waiter_tail c' = m_waiter_tail (fst cm)" by auto
  from qthread_mutex_okD(1) [OF ok m] obtain m1 where
    m1: "qthread_spinlock_lock L t m = Ret (QTHREAD_SUCCESS L, m1)" "rep m1 = b" by blast
  have "\<exists>b'. amutex_unlock t (rep m1) = Ret b'"
    using amutex_lock_owner [OF m] amutex_lock_live [OF m] by (simp add: m1(2) amutex_unlock_def)
  with qthread_mutex_okD(2) [OF ok] obtain m2 where
    "qthread_spinlock_unlock L t m1 = Ret (QTHREAD_SUCCESS L, m2)" by blast
  with m1 c' show ?thesis
    by (auto simp: cond_wait_round_qt_def thread_internal_mutex_lock_qt_def thread_internal_mutex_unlock_qt_def)
qed

interpretation qtc: cond_backend "qthreads_cond_ops debug"
  "\<lambda>L repc rep. qthread_mutex_ok L rep \<and> repc = qt_repc rep" qt_tracks for debug
proof (unfold_locales, goal_cases)
  case (1 L repc rep c0 c ev)
  then have "lock_free rep c" "waiter_queue c []"
    using qthread_init_fresh [of L rep False]
    by (auto simp: qthreads_cond_ops_def thread_internal_cond_init_qt_def lock_free_def waiter_queue_def)
  with 1 show ?case by (simp add: qt_repc_eq acond_init_def)
next
  case (2 L repc rep t c m a b)
  then have ok: "qthread_mutex_ok L rep" and r: "repc = qt_repc rep" by simp_all
  from 2(3) have l: "cv_live (repc c)" and a: "a = (repc c)\<lparr>cv_waiters := cv_waiters (repc c) @ [t]\<rparr>"
    and u: "amutex_unlock t (rep m) = Ret b"
    by (auto simp: acond_wait_begin_def acond_block_def split: if_splits)
  note q = qt_repc_live [OF l [unfolded r]]
  have t: "t \<notin> set (cv_waiters (qt_repc rep c))" using 2(2) by (simp add: r)
  from wait_enter_runs [OF ok q t u, of debug] obtain cm' m' ev where
    e: "cond_wait_enter_qt debug L t t c m = Ret ((cm', m'), ev)" "lock_free rep cm'" "rep m' = b"
      "waiter_queue cm' (cv_waiters (qt_repc rep c) @ [t])" by blast
  have "repc cm' = a" using l unfolding r by (simp add: qt_repc_eq [OF e(2,4)] a r)
  moreover note wait_enter_frame(3,4) [OF ok q t e(1)]
  ultimately show ?case
    using e by (auto simp: qthreads_cond_ops_def r qt_tracks_eq [OF e(2,4)] qt_tracks_eq [OF q])
next
  case (3 L repc rep t c m b)
  then have ok: "qthread_mutex_ok L rep" and r: "repc = qt_repc rep" by simp_all
  note q = qt_repc_live [OF 3(3) [unfolded r]]
  from 3(4) have m: "amutex_lock t (rep m) = Ret b" and t: "t \<notin> set (cv_waiters (repc c))"
    by (auto simp: acond_wait_end_def split: if_splits)
  from wait_round_runs [OF ok q(1) m, of debug t] obtain c' m' ev where
    e: "cond_wait_round_qt debug L t t c m = Ret ((m_signaled (snd c t) = 1, (c', snd c), m'), ev)"
      "lock_free rep (c', snd c)" "m_waiter_head c' = m_waiter_head (fst c)" "m_waiter_tail c' = m_waiter_tail (fst c)"
      "m_signaled (snd c t) = 1 \<longrightarrow> rep m' = b" by blast
  from q(2) e(3,4) have q': "waiter_queue (c', snd c) (cv_waiters (qt_repc rep c))" by (simp add: waiter_queue_def)
  have "m_signaled (snd c t) = 1" using 3(2) t by (simp add: qt_tracks_def)
  moreover have "repc (c', snd c) = repc c" unfolding r qt_repc_eq [OF e(2) q']
    using 3(3) by (intro acond.equality) (simp_all add: r)
  moreover have "qt_tracks repc v c \<longrightarrow> qt_tracks repc v (c', snd c)" for v
    unfolding r qt_tracks_eq [OF e(2) q'] qt_tracks_eq [OF q] by simp
  ultimately show ?case using e(1,5) by (simp add: qthreads_cond_ops_def)
next
  case (4 L repc rep t c m)
  then have ok: "qthread_mutex_ok L rep" and r: "repc = qt_repc rep" by simp_all
  note q = qt_repc_live [OF 4(3) [unfolded r]]
  have "\<not> at_limit t (rep m)" using 4(6) by (simp add: at_limit_def)
  with 4(5) show ?case
  proof (cases rule: amutex_lock_cases)
    case (1 b)
    with 4(2,4) have "m_signaled (snd c t) \<noteq> 1" by (auto simp: acond_wait_end_def qt_tracks_def split: if_splits)
    with wait_round_runs [OF ok q(1) 1, of debug t] show ?thesis by (auto simp: qthreads_cond_ops_def)
  next
    case 2
    from qthread_mutex_okD(3) [OF ok 2 4(6)] show ?thesis
      by (simp add: qthreads_cond_ops_def cond_wait_round_qt_def thread_internal_mutex_lock_qt_def)
  qed
next
  case (5 L repc rep c u)
  then have ok: "qthread_mutex_ok L rep" and r: "repc = qt_repc rep" by simp_all
  note q = qt_repc_live [OF 5(2) [unfolded r]]
  from signal_runs [OF ok q] obtain cm' where
    e: "thread_internal_cond_signal_qt L u c = Ret (cm', [])" "lock_free rep cm'"
      "waiter_queue cm' (tl (cv_waiters (qt_repc rep c)))"
      "snd cm' = (if cv_waiters (qt_repc rep c) = [] then snd c
         else (snd c)(hd (cv_waiters (qt_repc rep c)) := (snd c (hd (cv_waiters (qt_repc rep c))))\<lparr>m_signaled := 1\<rparr>))" by blast
  have "(repc c)\<lparr>cv_waiters := tl (cv_waiters (repc c))\<rparr> = repc cm'"
    unfolding r qt_repc_eq [OF e(2,3)] using 5(2) by (intro acond.equality) (simp_all add: r)
  with 5(2) have "acond_signal (repc c) = Ret (repc cm')" by (simp add: acond_signal_def)
  from acond_signal_wakes_one [OF 5(3) this] have "wakes_one (repc c) (repc cm')" .
  moreover have "qt_tracks repc v c \<longrightarrow> qt_tracks repc v cm'" for v
    unfolding r qt_tracks_eq [OF e(2,3)] qt_tracks_eq [OF q] using 5(3)
    by (cases "cv_waiters (qt_repc rep c)") (auto simp: r e(4))
  ultimately show ?case using e(1) by (auto simp: qthreads_cond_ops_def)
next
  case (6 L repc rep c a u)
  then have ok: "qthread_mutex_ok L rep" and r: "repc = qt_repc rep" by simp_all
  from 6(2) have l: "cv_live (repc c)" and a: "a = (repc c)\<lparr>cv_waiters := []\<rparr>"
    by (auto simp: acond_broadcast_def split: if_splits)
  note q = qt_repc_live [OF l [unfolded r]]
  from broadcast_runs [OF ok q] obtain cm' where
    e: "thread_internal_cond_broadcast_qt L u c = Ret (cm', [])" "lock_free rep cm'" "waiter_queue cm' []"
      "snd cm' = (\<lambda>x. if x \<in> set (cv_waiters (qt_repc rep c)) then (snd c x)\<lparr>m_signaled := 1\<rparr> else snd c x)" by blast
  have "repc cm' = a" using l unfolding r by (simp add: qt_repc_eq [OF e(2,3)] a r)
  moreover have "qt_tracks repc v c \<longrightarrow> qt_tracks repc v cm'" for v
    unfolding r qt_tracks_eq [OF e(2,3)] qt_tracks_eq [OF q] by (simp add: e(4))
  ultimately show ?case using e(1) by (simp add: qthreads_cond_ops_def)
next
  case (7 L repc rep c a)
  then show ?case by (simp add: qthreads_cond_ops_def thread_internal_cond_destroy_qt_def)
qed

section \<open>The waiters are on the stacks of waiting threads\<close>

text \<open>
  Threads using one condition variable and one mutex. A round of the waiting loop is one
  step: until it has taken the mutex it changes nothing, and the test is made under the
  condition variable's lock. The waiter of thread \<open>t\<close> is at address \<open>t\<close>; while \<open>t\<close> is not
  in \<open>thread_internal_cond_wait\<close> that memory can hold anything.
\<close>

datatype qt_pc = QOut | QWait

record 'm qt_machine =
  qm_cond :: "'m cond_mem"
  qm_mutex :: 'm
  qm_pc :: "tid \<Rightarrow> qt_pc"

inductive qt_step :: "bool \<Rightarrow> 'm qthread_lib \<Rightarrow> 'm qt_machine \<Rightarrow> 'm qt_machine \<Rightarrow> bool" for debug L where
  qt_enter: "qm_pc s t = QOut \<Longrightarrow>
    cond_wait_enter_qt debug L t t (qm_cond s) (qm_mutex s) = Ret ((cm, m), ev) \<Longrightarrow>
    qt_step debug L s (s\<lparr>qm_cond := cm, qm_mutex := m, qm_pc := (qm_pc s)(t := QWait)\<rparr>)"
| qt_round: "qm_pc s t = QWait \<Longrightarrow>
    cond_wait_round_qt debug L t t (qm_cond s) (qm_mutex s) = Ret ((signaled, cm, m), ev) \<Longrightarrow>
    qt_step debug L s (s\<lparr>qm_cond := cm, qm_mutex := m,
      qm_pc := (qm_pc s)(t := if signaled then QOut else QWait)\<rparr>)"
| qt_signal: "qm_pc s t = QOut \<Longrightarrow> thread_internal_cond_signal_qt L t (qm_cond s) = Ret (cm, ev) \<Longrightarrow>
    qt_step debug L s (s\<lparr>qm_cond := cm\<rparr>)"
| qt_broadcast: "qm_pc s t = QOut \<Longrightarrow> thread_internal_cond_broadcast_qt L t (qm_cond s) = Ret (cm, ev) \<Longrightarrow>
    qt_step debug L s (s\<lparr>qm_cond := cm\<rparr>)"
| qt_lock: "qm_pc s t = QOut \<Longrightarrow> thread_internal_mutex_lock_qt debug L t (qm_mutex s) = Ret (m, ev) \<Longrightarrow>
    qt_step debug L s (s\<lparr>qm_mutex := m\<rparr>)"
| qt_unlock: "qm_pc s t = QOut \<Longrightarrow> thread_internal_mutex_unlock_qt debug L t (qm_mutex s) = Ret (m, ev) \<Longrightarrow>
    qt_step debug L s (s\<lparr>qm_mutex := m\<rparr>)"
| qt_reuse: "qm_pc s t = QOut \<Longrightarrow>
    qt_step debug L s (s\<lparr>qm_cond := (fst (qm_cond s), (snd (qm_cond s))(t := x))\<rparr>)"

inductive_cases qt_stepE: "qt_step debug L s s'"

definition qt_init :: "'m qthread_lib \<Rightarrow> 'm qt_machine \<Rightarrow> bool" where
  "qt_init L s \<longleftrightarrow> (\<forall>t. qm_pc s t = QOut) \<and>
     (\<exists>cm ev. thread_internal_cond_init_qt L cm = Ret ((SUCCESS, qm_cond s), ev))"

definition qt_inv :: "('m \<Rightarrow> amutex) \<Rightarrow> 'm qt_machine \<Rightarrow> addr list \<Rightarrow> bool" where
  "qt_inv rep s ws \<longleftrightarrow> lock_free rep (qm_cond s) \<and> waiter_queue (qm_cond s) ws \<and>
     (\<forall>t\<in>set ws. qm_pc s t = QWait \<and> m_signaled (snd (qm_cond s) t) = 0) \<and>
     (\<forall>t. qm_pc s t = QWait \<longrightarrow> t \<in> set ws \<or> m_signaled (snd (qm_cond s) t) = 1)"

lemma cond_wait_round_frame:
  assumes ok: "qthread_mutex_ok L rep" and fr: "lock_free rep cm"
    and ex: "cond_wait_round_qt debug L t w cm m = Ret ((signaled, cm', m'), ev)"
  shows "lock_free rep cm'" "snd cm' = snd cm" "signaled \<longleftrightarrow> m_signaled (snd cm w) = 1"
    "waiter_queue cm' ws = waiter_queue cm ws"
proof -
  obtain c h where cm: "cm = (c, h)" by fastforce
  let ?body = "\<lambda>(c, h). Ret (m_signaled (h w), c, h)"
  from cond_locked_runs [OF ok fr, of ?body "m_signaled (h w)" h "m_waiter_head c" "m_waiter_tail c" t]
  obtain c' where c': "cond_locked L t ?body cm = Ret (m_signaled (h w), c', h)" "lock_free rep (c', h)"
    "m_waiter_head c' = m_waiter_head c" "m_waiter_tail c' = m_waiter_tail c" by (auto simp: cm)
  with ex have r: "cm' = (c', h)" "signaled \<longleftrightarrow> m_signaled (h w) = 1"
    by (auto simp: cond_wait_round_qt_def split: if_splits)
  with c'(2) show "lock_free rep cm'" "snd cm' = snd cm" "signaled \<longleftrightarrow> m_signaled (snd cm w) = 1"
    by (simp_all add: cm)
  show "waiter_queue cm' ws = waiter_queue cm ws" using c'(3,4) by (simp add: r cm waiter_queue_def)
qed

lemma qt_inv_step:
  assumes ok: "qthread_mutex_ok L rep" and inv: "qt_inv rep s ws" and st: "qt_step debug L s s'"
  shows "\<exists>vs. qt_inv rep s' vs"
proof -
  from inv have fr: "lock_free rep (qm_cond s)" and q: "waiter_queue (qm_cond s) ws"
    and mem: "\<And>t. t \<in> set ws \<Longrightarrow> qm_pc s t = QWait \<and> m_signaled (snd (qm_cond s) t) = 0"
    and all: "\<And>t. qm_pc s t = QWait \<Longrightarrow> t \<in> set ws \<or> m_signaled (snd (qm_cond s) t) = 1"
    by (auto simp: qt_inv_def)
  from q have d: "distinct ws" by (simp add: waiter_queue_def)
  from st show ?thesis
  proof cases
    case (qt_enter t cm m ev)
    with mem have t: "t \<notin> set ws" by auto
    note f = wait_enter_frame [OF ok fr q t qt_enter(3)]
    have "qt_inv rep s' (ws @ [t])"
      unfolding qt_inv_def using f t mem all qt_enter(1) by auto
    then show ?thesis ..
  next
    case (qt_round t signaled cm m ev)
    note f = cond_wait_round_frame [OF ok fr qt_round(3)]
    have "qt_inv rep s' ws"
      unfolding qt_inv_def using f q mem all qt_round(1,2) by auto
    then show ?thesis ..
  next
    case (qt_signal t cm ev)
    from signal_runs [OF ok fr q, of t] qt_signal(3) have e: "lock_free rep cm" "waiter_queue cm (tl ws)"
      "snd cm = (if ws = [] then snd (qm_cond s)
         else (snd (qm_cond s))(hd ws := (snd (qm_cond s) (hd ws))\<lparr>m_signaled := 1\<rparr>))" by auto
    have "qt_inv rep s' (tl ws)"
      unfolding qt_inv_def using e mem all d qt_signal(1) by (cases ws) auto
    then show ?thesis ..
  next
    case (qt_broadcast t cm ev)
    from broadcast_runs [OF ok fr q, of t] qt_broadcast(3) have e: "lock_free rep cm" "waiter_queue cm []"
      "snd cm = (\<lambda>x. if x \<in> set ws then (snd (qm_cond s) x)\<lparr>m_signaled := 1\<rparr> else snd (qm_cond s) x)" by auto
    have "qt_inv rep s' []"
      unfolding qt_inv_def using e all qt_broadcast(1) by auto
    then show ?thesis ..
  next
    case (qt_reuse t x)
    then have t: "t \<notin> set ws" using mem by auto
    have "chain ((snd (qm_cond s))(t := x)) ws = chain (snd (qm_cond s)) ws"
      by (rule chain_cong) (use t in auto)
    with q have "waiter_queue (fst (qm_cond s), (snd (qm_cond s))(t := x)) ws" by (simp add: waiter_queue_def)
    moreover have "lock_free rep (fst (qm_cond s), (snd (qm_cond s))(t := x))"
      using fr by (simp add: lock_free_def)
    ultimately have "qt_inv rep s' ws"
      unfolding qt_inv_def using mem all t qt_reuse by auto
    then show ?thesis ..
  qed (use inv in \<open>auto simp: qt_inv_def\<close>)
qed

lemma qt_inv_init: "qthread_mutex_ok L rep \<Longrightarrow> qt_init L s \<Longrightarrow> qt_inv rep s []"
  using qthread_init_fresh [of L rep False]
  by (cases "qm_cond s") (auto simp: qt_init_def qt_inv_def thread_internal_cond_init_qt_def lock_free_def waiter_queue_def)

interpretation qm: inv_system "qt_init L" "qt_step debug L"
  "\<lambda>s. qthread_mutex_ok L rep \<longrightarrow> (\<exists>ws. qt_inv rep s ws)" for L debug rep
  by unfold_locales (blast intro: qt_inv_init, blast intro: qt_inv_step)

section \<open>A library to run on\<close>

definition ref_qthreads :: "amutex qthread_lib" where
  "ref_qthreads = \<lparr>QTHREAD_SUCCESS = 0, QTHREAD_OPFAIL = 7,
     qthread_spinlock_init = (\<lambda>_ r. (0, ref_mutex r)), qthread_spinlock_lock = ref_lock,
     qthread_spinlock_trylock = ref_trylock 7, qthread_spinlock_unlock = ref_unlock\<rparr>"

lemma ref_qthreads_ok: "qthread_mutex_ok ref_qthreads id"
  by (simp add: qthread_mutex_ok_def ref_qthreads_def ref_lib_ok)

definition demo_cond :: "amutex cond_mem" where
  "demo_cond = (\<lparr>m_lock = amutex_init False, m_waiter_head = Some 2, m_waiter_tail = Some 1\<rparr>,
     (\<lambda>_. \<lparr>m_signaled = 0, m_prev = None\<rparr>)(1 := \<lparr>m_signaled = 0, m_prev = Some 2\<rparr>))"

lemma demo_cond_ok: "lock_free id demo_cond" "waiter_queue demo_cond [1, 2]"
  by (simp_all add: lock_free_def demo_cond_def waiter_queue_def)

section \<open>Properties\<close>

text \<open>
  C19. The condition variables of the Qthreads backend implement the FIFO specification.
  A thread that waits is appended to the queue and its mutex is released; a signal removes
  the oldest waiter, marks it and changes no other waiter; a broadcast returns, empties the
  queue and marks exactly the waiters that were in it; the internal lock is free afterwards.
\<close>

theorem qthreads_cond_refines_fifo:
  assumes "qthread_mutex_ok L rep" "lock_free rep cm" "waiter_queue cm ws"
  shows "(\<forall>w m b. w \<notin> set ws \<longrightarrow> amutex_unlock t (rep m) = Ret b \<longrightarrow>
       (\<exists>cm' m' ev. cond_wait_enter_qt debug L t w cm m = Ret ((cm', m'), ev) \<and>
          qt_repc rep cm' = \<lparr>cv_live = True, cv_waiters = ws @ [w]\<rparr> \<and> rep m' = b)) \<and>
    (\<exists>cm'. thread_internal_cond_signal_qt L t cm = Ret (cm', []) \<and>
       acond_signal (qt_repc rep cm) = Ret (qt_repc rep cm') \<and>
       snd cm' = (if ws = [] then snd cm else (snd cm)(hd ws := (snd cm (hd ws))\<lparr>m_signaled := 1\<rparr>))) \<and>
    (\<exists>cm'. thread_internal_cond_broadcast_qt L t cm = Ret (cm', []) \<and>
       acond_broadcast (qt_repc rep cm) = Ret (qt_repc rep cm') \<and>
       snd cm' = (\<lambda>x. if x \<in> set ws then (snd cm x)\<lparr>m_signaled := 1\<rparr> else snd cm x))"
proof (intro conjI allI impI)
  fix w m b assume "w \<notin> set ws" "amutex_unlock t (rep m) = Ret b"
  from wait_enter_runs [OF assms this] show "\<exists>cm' m' ev. cond_wait_enter_qt debug L t w cm m = Ret ((cm', m'), ev) \<and>
          qt_repc rep cm' = \<lparr>cv_live = True, cv_waiters = ws @ [w]\<rparr> \<and> rep m' = b"
    using qt_repc_eq by blast
next
  from signal_runs [OF assms, of t] show "\<exists>cm'. thread_internal_cond_signal_qt L t cm = Ret (cm', []) \<and>
       acond_signal (qt_repc rep cm) = Ret (qt_repc rep cm') \<and>
       snd cm' = (if ws = [] then snd cm else (snd cm)(hd ws := (snd cm (hd ws))\<lparr>m_signaled := 1\<rparr>))"
    by (fastforce simp: qt_repc_eq [OF assms(2,3)] acond_signal_def qt_repc_eq)
next
  from broadcast_runs [OF assms, of t] show "\<exists>cm'. thread_internal_cond_broadcast_qt L t cm = Ret (cm', []) \<and>
       acond_broadcast (qt_repc rep cm) = Ret (qt_repc rep cm') \<and>
       snd cm' = (\<lambda>x. if x \<in> set ws then (snd cm x)\<lparr>m_signaled := 1\<rparr> else snd cm x)"
    by (fastforce simp: qt_repc_eq [OF assms(2,3)] acond_broadcast_def qt_repc_eq)
qed

theorem qthreads_cond_refines_fifo_witness:
  "\<exists>cm'. thread_internal_cond_signal_qt ref_qthreads 5 demo_cond = Ret (cm', []) \<and>
     m_signaled (snd cm' 1) = 1 \<and> m_signaled (snd cm' 2) = 0"
  using qthreads_cond_refines_fifo [OF ref_qthreads_ok demo_cond_ok, of 5 True]
  by (auto simp: demo_cond_def)

text \<open>
  C20. Whatever the threads do, the queue holds exactly the threads that are in
  \<open>thread_internal_cond_wait\<close> and have not been signalled. So it never points into the stack
  frame of a call that has returned, and a thread that waits is woken by its turn or has
  been woken already.
\<close>

theorem qthreads_queue_holds_waiting_threads:
  assumes "reach (qt_init L) (qt_step debug L) s" "qthread_mutex_ok L rep"
  shows "\<exists>ws. waiter_queue (qm_cond s) ws \<and>
    (\<forall>t. t \<in> set ws \<longleftrightarrow> qm_pc s t = QWait \<and> m_signaled (snd (qm_cond s) t) \<noteq> 1)"
proof -
  from qm.reach_inv [OF assms(1), of rep] assms(2) obtain ws where "qt_inv rep s ws" by blast
  then have "waiter_queue (qm_cond s) ws \<and>
      (\<forall>t. t \<in> set ws \<longleftrightarrow> qm_pc s t = QWait \<and> m_signaled (snd (qm_cond s) t) \<noteq> 1)"
    unfolding qt_inv_def by fastforce
  then show ?thesis ..
qed

theorem qthreads_queue_holds_waiting_threads_witness:
  "\<exists>s :: amutex qt_machine. qm_pc s 3 = QWait \<and> (\<exists>ws. waiter_queue (qm_cond s) ws \<and>
     (\<forall>t. t \<in> set ws \<longleftrightarrow> qm_pc s t = QWait \<and> m_signaled (snd (qm_cond s) t) \<noteq> 1))"
proof -
  let ?c = "(\<lparr>m_lock = amutex_init False, m_waiter_head = None, m_waiter_tail = None\<rparr>, \<lambda>_. \<lparr>m_signaled = 0, m_prev = None\<rparr>)"
  let ?m = "(amutex_init False)\<lparr>mx_owner := Some 3, mx_depth := 1\<rparr>"
  let ?s = "\<lparr>qm_cond = ?c, qm_mutex = ?m, qm_pc = \<lambda>_. QOut\<rparr>"
  have i: "qt_init ref_qthreads ?s"
    by (auto simp: qt_init_def thread_internal_cond_init_qt_def ref_qthreads_def intro: exI [of _ "snd ?c"])
  have "lock_free id ?c" "waiter_queue ?c []" "amutex_unlock 3 (id ?m) = Ret (amutex_init False)"
    by (simp_all add: lock_free_def waiter_queue_def amutex_unlock_def) (simp add: amutex_init_def)+
  from wait_enter_runs [OF ref_qthreads_ok this(1,2) _ this(3), of 3 False] obtain cm m ev where
    "cond_wait_enter_qt False ref_qthreads 3 3 ?c ?m = Ret ((cm, m), ev)" by auto
  then have st: "qt_step False ref_qthreads ?s (?s\<lparr>qm_cond := cm, qm_mutex := m, qm_pc := (qm_pc ?s)(3 := QWait)\<rparr>)"
    by (intro qt_enter) simp_all
  have "reach (qt_init ref_qthreads) (qt_step False ref_qthreads)
      (?s\<lparr>qm_cond := cm, qm_mutex := m, qm_pc := (qm_pc ?s)(3 := QWait)\<rparr>)"
    by (rule reach.reach_step [where s = ?s], rule reach.reach_init, rule i, rule st)
  from qthreads_queue_holds_waiting_threads [OF this ref_qthreads_ok] show ?thesis
    by (intro exI [of _ "?s\<lparr>qm_cond := cm, qm_mutex := m, qm_pc := (qm_pc ?s)(3 := QWait)\<rparr>"] conjI) simp_all
qed

end
