(* ===== verification/Mutex.thy ===== *)
theory Mutex
  imports Thread_Usage Pthreads Argobots Qthreads_Cond
begin

text \<open>
  \<open>mutex.h\<close> and \<open>impl/base/mutex.c\<close>: the portable mutex over a backend, its constructors,
  the macros that lock only when threads are in use, and the functions on condition
  variables. The backend is an argument, a record of its operations; the lemmas are proved
  for every backend that meets the contract of \<open>Backend_Spec\<close>, and the three backends do.
\<close>

section \<open>The mutex\<close>

record ('m, 'a) mutex_t =
  mutex_m_lock :: 'm
  m_lock_debug :: int
  m_lock_file :: "string option"
  m_lock_line :: int
  m_lock_atomic :: 'a

text \<open>
  The spin lock of \<open>opal/sys/atomic.h\<close>, which is not in the repository: \<open>atomic_lock_t\<close> and
  its operations.
\<close>

record 'a atomic_lock_lib =
  ATOMIC_LOCK_INIT :: 'a
  atomic_lock_init :: "'a \<Rightarrow> int \<Rightarrow> 'a"
  atomic_trylock :: "'a \<Rightarrow> (int \<times> 'a) outcome"
  atomic_lock :: "'a \<Rightarrow> 'a outcome"
  atomic_unlock :: "'a \<Rightarrow> 'a outcome"

text \<open>\<open>MUTEX_STATIC_INIT\<close>, given the initialiser of the backend.\<close>

definition MUTEX_STATIC_INIT :: "'m \<Rightarrow> 'a atomic_lock_lib \<Rightarrow> ('m, 'a) mutex_t" where
  "MUTEX_STATIC_INIT internal_initializer A =
     \<lparr>mutex_m_lock = internal_initializer, m_lock_debug = 0, m_lock_file = None, m_lock_line = 0,
      m_lock_atomic = ATOMIC_LOCK_INIT A\<rparr>"

text \<open>
  \<open>RECURSIVE_MUTEX_STATIC_INIT\<close>, which exists when the backend has an initialiser for
  recursive mutexes.
\<close>

definition RECURSIVE_MUTEX_STATIC_INIT :: "'m option \<Rightarrow> 'a atomic_lock_lib \<Rightarrow> ('m, 'a) mutex_t option" where
  "RECURSIVE_MUTEX_STATIC_INIT internal_recursive_initializer A =
     map_option (\<lambda>m. \<lparr>mutex_m_lock = m, m_lock_debug = 0, m_lock_file = None, m_lock_line = 0,
                     m_lock_atomic = ATOMIC_LOCK_INIT A\<rparr>) internal_recursive_initializer"

text \<open>
  The constructors: a debug build asserts that the initialisation returned 0, which is
  \<open>SUCCESS\<close>, and clears the debug fields.
\<close>

definition construct_mutex ::
  "bool \<Rightarrow> bool \<Rightarrow> 'm mutex_ops \<Rightarrow> 'a atomic_lock_lib \<Rightarrow> ('m, 'a) mutex_t \<Rightarrow> ('m, 'a) mutex_t logged" where
  "construct_mutex recursive debug B A p =
     obind (ti_mutex_init B recursive (mutex_m_lock p)) (\<lambda>((ret, m), ev).
       c_assert debug (ret = SUCCESS)
         (Ret ((if debug then p\<lparr>mutex_m_lock := m, m_lock_debug := 0, m_lock_file := None, m_lock_line := 0\<rparr>
                else p\<lparr>mutex_m_lock := m\<rparr>)\<lparr>m_lock_atomic := atomic_lock_init A (m_lock_atomic p) 0\<rparr>, ev)))"

definition mca_threads_mutex_constructor ::
  "bool \<Rightarrow> 'm mutex_ops \<Rightarrow> 'a atomic_lock_lib \<Rightarrow> ('m, 'a) mutex_t \<Rightarrow> ('m, 'a) mutex_t logged" where
  "mca_threads_mutex_constructor = construct_mutex False"

definition mca_threads_recursive_mutex_constructor ::
  "bool \<Rightarrow> 'm mutex_ops \<Rightarrow> 'a atomic_lock_lib \<Rightarrow> ('m, 'a) mutex_t \<Rightarrow> ('m, 'a) mutex_t logged" where
  "mca_threads_recursive_mutex_constructor = construct_mutex True"

definition on_m_lock :: "('m \<Rightarrow> 'm logged) \<Rightarrow> ('m, 'a) mutex_t \<Rightarrow> ('m, 'a) mutex_t logged" where
  "on_m_lock f p = obind (f (mutex_m_lock p)) (\<lambda>(m, ev). Ret (p\<lparr>mutex_m_lock := m\<rparr>, ev))"

definition mca_threads_mutex_destructor :: "'m mutex_ops \<Rightarrow> ('m, 'a) mutex_t \<Rightarrow> ('m, 'a) mutex_t logged" where
  "mca_threads_mutex_destructor B = on_m_lock (ti_mutex_destroy B)"

definition mca_threads_recursive_mutex_destructor :: "'m mutex_ops \<Rightarrow> ('m, 'a) mutex_t \<Rightarrow> ('m, 'a) mutex_t logged" where
  "mca_threads_recursive_mutex_destructor B = on_m_lock (ti_mutex_destroy B)"

section \<open>Locking\<close>

definition mutex_trylock :: "'m mutex_ops \<Rightarrow> tid \<Rightarrow> ('m, 'a) mutex_t \<Rightarrow> (int \<times> ('m, 'a) mutex_t) logged" where
  "mutex_trylock B t p =
     obind (ti_mutex_trylock B t (mutex_m_lock p)) (\<lambda>((r, m), ev). Ret ((r, p\<lparr>mutex_m_lock := m\<rparr>), ev))"

definition mutex_lock :: "'m mutex_ops \<Rightarrow> tid \<Rightarrow> ('m, 'a) mutex_t \<Rightarrow> ('m, 'a) mutex_t logged" where
  "mutex_lock B t = on_m_lock (ti_mutex_lock B t)"

definition mutex_unlock :: "'m mutex_ops \<Rightarrow> tid \<Rightarrow> ('m, 'a) mutex_t \<Rightarrow> ('m, 'a) mutex_t logged" where
  "mutex_unlock B t = on_m_lock (ti_mutex_unlock B t)"

definition mutex_atomic_trylock :: "'a atomic_lock_lib \<Rightarrow> ('m, 'a) mutex_t \<Rightarrow> (int \<times> ('m, 'a) mutex_t) outcome" where
  "mutex_atomic_trylock A p =
     obind (atomic_trylock A (m_lock_atomic p)) (\<lambda>(r, a). Ret (r, p\<lparr>m_lock_atomic := a\<rparr>))"

definition mutex_atomic_lock :: "'a atomic_lock_lib \<Rightarrow> ('m, 'a) mutex_t \<Rightarrow> ('m, 'a) mutex_t outcome" where
  "mutex_atomic_lock A p = obind (atomic_lock A (m_lock_atomic p)) (\<lambda>a. Ret (p\<lparr>m_lock_atomic := a\<rparr>))"

definition mutex_atomic_unlock :: "'a atomic_lock_lib \<Rightarrow> ('m, 'a) mutex_t \<Rightarrow> ('m, 'a) mutex_t outcome" where
  "mutex_atomic_unlock A p = obind (atomic_unlock A (m_lock_atomic p)) (\<lambda>a. Ret (p\<lparr>m_lock_atomic := a\<rparr>))"

section \<open>The macros\<close>

definition THREAD_LOCK :: "'m mutex_ops \<Rightarrow> bool \<Rightarrow> tid \<Rightarrow> ('m, 'a) mutex_t \<Rightarrow> ('m, 'a) mutex_t logged" where
  "THREAD_LOCK B u t p = (if using_threads u then mutex_lock B t p else Ret (p, []))"

definition THREAD_TRYLOCK :: "'m mutex_ops \<Rightarrow> bool \<Rightarrow> tid \<Rightarrow> ('m, 'a) mutex_t \<Rightarrow> (int \<times> ('m, 'a) mutex_t) logged" where
  "THREAD_TRYLOCK B u t p = (if using_threads u then mutex_trylock B t p else Ret ((0, p), []))"

definition THREAD_UNLOCK :: "'m mutex_ops \<Rightarrow> bool \<Rightarrow> tid \<Rightarrow> ('m, 'a) mutex_t \<Rightarrow> ('m, 'a) mutex_t logged" where
  "THREAD_UNLOCK B u t p = (if using_threads u then mutex_unlock B t p else Ret (p, []))"

text \<open>The action works on the mutex and on the rest of the state.\<close>

definition THREAD_SCOPED_LOCK :: "'m mutex_ops \<Rightarrow> bool \<Rightarrow> tid \<Rightarrow>
    (('m, 'a) mutex_t \<times> 'x \<Rightarrow> (('m, 'a) mutex_t \<times> 'x) logged) \<Rightarrow>
    ('m, 'a) mutex_t \<times> 'x \<Rightarrow> (('m, 'a) mutex_t \<times> 'x) logged" where
  "THREAD_SCOPED_LOCK B u t action s =
     (if using_threads u then
        obind (mutex_lock B t (fst s)) (\<lambda>(p, e1).
        obind (action (p, snd s)) (\<lambda>((p, x), e2).
        obind (mutex_unlock B t p) (\<lambda>(p, e3). Ret ((p, x), e1 @ e2 @ e3))))
      else action s)"

section \<open>Condition variables\<close>

definition cond_init :: "('c, 'm) cond_ops \<Rightarrow> 'c \<Rightarrow> (rc \<times> 'c) logged" where
  "cond_init C c = ti_cond_init C c"

text \<open>\<open>cond_wait\<close>, before and after it blocks.\<close>

definition cond_wait_enter ::
  "('c, 'm) cond_ops \<Rightarrow> tid \<Rightarrow> 'c \<Rightarrow> ('m, 'a) mutex_t \<Rightarrow> ('c \<times> ('m, 'a) mutex_t) logged" where
  "cond_wait_enter C t c p =
     obind (ti_cond_wait_enter C t c (mutex_m_lock p)) (\<lambda>((c, m), ev). Ret ((c, p\<lparr>mutex_m_lock := m\<rparr>), ev))"

definition cond_wait_leave ::
  "('c, 'm) cond_ops \<Rightarrow> tid \<Rightarrow> 'c \<Rightarrow> ('m, 'a) mutex_t \<Rightarrow> (rc \<times> 'c \<times> ('m, 'a) mutex_t) logged" where
  "cond_wait_leave C t c p =
     obind (ti_cond_wait_leave C t c (mutex_m_lock p)) (\<lambda>((c, m), ev). Ret ((SUCCESS, c, p\<lparr>mutex_m_lock := m\<rparr>), ev))"

definition cond_broadcast :: "('c, 'm) cond_ops \<Rightarrow> tid \<Rightarrow> 'c \<Rightarrow> (rc \<times> 'c) logged" where
  "cond_broadcast C t c = obind (ti_cond_broadcast C t c) (\<lambda>(c, ev). Ret ((SUCCESS, c), ev))"

definition cond_signal :: "('c, 'm) cond_ops \<Rightarrow> tid \<Rightarrow> 'c \<Rightarrow> (rc \<times> 'c) logged" where
  "cond_signal C t c = obind (ti_cond_signal C t c) (\<lambda>(c, ev). Ret ((SUCCESS, c), ev))"

definition cond_destroy :: "('c, 'm) cond_ops \<Rightarrow> 'c \<Rightarrow> (rc \<times> 'c) logged" where
  "cond_destroy C c = obind (ti_cond_destroy C c) (\<lambda>(c, ev). Ret ((SUCCESS, c), ev))"

lemmas mutex_defs = on_m_lock_def mutex_lock_def mutex_unlock_def mutex_trylock_def using_threads_def
  THREAD_LOCK_def THREAD_TRYLOCK_def THREAD_UNLOCK_def THREAD_SCOPED_LOCK_def

text \<open>An operation repeated, as nested critical sections do.\<close>

fun op_times :: "nat \<Rightarrow> ('s \<Rightarrow> 's logged) \<Rightarrow> 's \<Rightarrow> 's outcome" where
  "op_times 0 f s = Ret s"
| "op_times (Suc n) f s = obind (f s) (\<lambda>(s, _). op_times n f s)"

lemma op_times_snoc: "op_times (Suc n) f s = obind (op_times n f s) (\<lambda>s. obind (f s) (\<lambda>(s, _). Ret s))"
proof (induction n arbitrary: s)
  case (Suc n)
  have "op_times (Suc (Suc n)) f s = obind (f s) (\<lambda>(s, _). op_times (Suc n) f s)" by (rule op_times.simps(2))
  also have "\<dots> = obind (f s) (\<lambda>(s, _). obind (op_times n f s) (\<lambda>s. obind (f s) (\<lambda>(s, _). Ret s)))"
    by (simp only: Suc.IH)
  also have "\<dots> = obind (op_times (Suc n) f s) (\<lambda>s. obind (f s) (\<lambda>(s, _). Ret s))"
    by (simp add: obind_assoc split_def)
  finally show ?case .
qed (simp add: split_def)

section \<open>For every backend\<close>

context mutex_backend
begin

text \<open>
  With threads in use the action runs once, while the caller owns the mutex; the mutex is
  then as it was before, provided the action gives it back as it got it.
\<close>

lemma scoped_lock_threads:
  assumes ok: "ok L rep" and wf: "amutex_wf (rep (mutex_m_lock p))"
    and lock: "amutex_lock t (rep (mutex_m_lock p)) = Ret a"
    and act: "\<And>q. rep (mutex_m_lock q) = a \<Longrightarrow>
      \<exists>q' ev. action (q, x) = Ret ((q', f x), ev) \<and> rep (mutex_m_lock q') = a"
  shows "\<exists>q ev. THREAD_SCOPED_LOCK (ops L) True t action (p, x) = Ret ((q, f x), ev) \<and>
    rep (mutex_m_lock q) = rep (mutex_m_lock p)"
proof -
  from lock_law [OF ok lock] obtain m1 e1 where
    1: "ti_mutex_lock (ops L) t (mutex_m_lock p) = Ret (m1, e1)" "rep m1 = a" by blast
  from act [of "p\<lparr>mutex_m_lock := m1\<rparr>"] 1(2) obtain q e2 where
    2: "action (p\<lparr>mutex_m_lock := m1\<rparr>, x) = Ret ((q, f x), e2)" "rep (mutex_m_lock q) = a" by auto
  from amutex_lock_unlock [OF wf lock] 2(2)
  have "amutex_unlock t (rep (mutex_m_lock q)) = Ret (rep (mutex_m_lock p))" by simp
  from unlock_law [OF ok this] obtain m3 e3 where
    3: "ti_mutex_unlock (ops L) t (mutex_m_lock q) = Ret (m3, e3)" "rep m3 = rep (mutex_m_lock p)" by blast
  show ?thesis using 1(1) 2(1) 3 by (simp add: mutex_defs)
qed

text \<open>A constructed mutex is a fresh mutex of the kind asked for.\<close>

lemma constructed:
  assumes "ok L rep" "init_ok L r" "construct_mutex r True (ops L) A p = Ret (q, ev)"
  shows "fresh_mutex r (rep (mutex_m_lock q))"
  using assms by (auto simp: construct_mutex_def c_assert_def split: if_splits intro: init_law)

text \<open>
  A thread can lock a recursive mutex as often as the library allows, each time one level
  deeper, and as many unlocks give it back as it was.
\<close>

lemma nested_lock:
  assumes ok: "ok L rep" and "amutex_wf (rep (mutex_m_lock p))" "mx_live (rep (mutex_m_lock p))"
    "mx_recursive (rep (mutex_m_lock p))" "mx_owner (rep (mutex_m_lock p)) \<in> {None, Some t}"
    "mx_depth (rep (mutex_m_lock p)) + n \<le> mx_limit (rep (mutex_m_lock p))"
  shows "\<exists>q r. op_times n (THREAD_LOCK (ops L) True t) p = Ret q \<and>
    mx_depth (rep (mutex_m_lock q)) = mx_depth (rep (mutex_m_lock p)) + n \<and>
    op_times n (THREAD_UNLOCK (ops L) True t) q = Ret r \<and> rep (mutex_m_lock r) = rep (mutex_m_lock p)"
  using assms(2-)
proof (induction n arbitrary: p)
  case (Suc n)
  let ?m = "rep (mutex_m_lock p)"
  obtain a where a: "amutex_lock t ?m = Ret a"
    using Suc.prems by (auto simp: amutex_lock_def at_limit_def split: option.split)
  from lock_law [OF ok a] obtain m1 e1 where
    1: "ti_mutex_lock (ops L) t (mutex_m_lock p) = Ret (m1, e1)" "rep m1 = a" by blast
  let ?p = "p\<lparr>mutex_m_lock := m1\<rparr>"
  have k: "mx_recursive a" "mx_depth a = Suc (mx_depth ?m)" "mx_limit a = mx_limit ?m"
    using a Suc.prems(1,3) by (auto simp: amutex_lock_def amutex_wf_def split: option.splits if_splits)
  with Suc.IH [of ?p] Suc.prems(5) amutex_wf_lock [OF Suc.prems(1) a] amutex_lock_live [OF a] amutex_lock_owner [OF a] 1(2)
  obtain q r where q: "op_times n (THREAD_LOCK (ops L) True t) ?p = Ret q"
    "op_times n (THREAD_UNLOCK (ops L) True t) q = Ret r" "rep (mutex_m_lock r) = a"
    "mx_depth (rep (mutex_m_lock q)) = mx_depth ?m + Suc n" by auto
  from amutex_lock_unlock [OF Suc.prems(1) a] q(3) have "amutex_unlock t (rep (mutex_m_lock r)) = Ret ?m" by simp
  from unlock_law [OF ok this] obtain m2 e2 where
    2: "ti_mutex_unlock (ops L) t (mutex_m_lock r) = Ret (m2, e2)" "rep m2 = ?m" by blast
  have "op_times (Suc n) (THREAD_LOCK (ops L) True t) p = Ret q" using 1(1) q(1) by (simp add: mutex_defs)
  moreover have "op_times (Suc n) (THREAD_UNLOCK (ops L) True t) q = Ret (r\<lparr>mutex_m_lock := m2\<rparr>)"
    unfolding op_times_snoc using q(2) 2(1) by (simp add: mutex_defs)
  ultimately show ?case using 2(2) q(4) by auto
qed simp

text \<open>Two threads never hold one mutex: the second lock waits, the second try returns 1.\<close>

lemma thread_lock_exclusion:
  assumes "ok L rep" "amutex_wf (rep (mutex_m_lock p))" "amutex_lock t (rep (mutex_m_lock p)) = Ret a"
    and "THREAD_LOCK (ops L) True t p = Ret (q, ev)" "u \<noteq> t"
  shows "THREAD_LOCK (ops L) True u q = Block \<and>
    (\<exists>q' ev'. THREAD_TRYLOCK (ops L) True u q = Ret ((1, q'), ev') \<and> rep (mutex_m_lock q') = rep (mutex_m_lock q))"
proof -
  from assms(4) obtain m where m: "ti_mutex_lock (ops L) t (mutex_m_lock p) = Ret (m, ev)" "q = p\<lparr>mutex_m_lock := m\<rparr>"
    by (auto simp: mutex_defs)
  from exclusion [OF assms(1,2) m(1) assms(3,5)] show ?thesis by (auto simp: mutex_defs m(2))
qed

end

text \<open>A backend is one of the three, over a library that does what its documentation says.\<close>

definition some_backend :: "bool \<Rightarrow> ('m, 'c, 'attr) pthread_lib \<Rightarrow> ('m, 'd) abt_lib \<Rightarrow> 'm qthread_lib \<Rightarrow>
    ('m \<Rightarrow> amutex) \<Rightarrow> 'm mutex_ops \<Rightarrow> bool" where
  "some_backend debug LP LA LQ rep B \<longleftrightarrow>
     B = pthreads_mutex_ops debug LP \<and> pthread_mutex_ok LP rep \<or>
     B = argobots_mutex_ops debug LA \<and> abt_mutex_ok LA rep \<or>
     B = qthreads_mutex_ops debug LQ \<and> qthread_mutex_ok LQ rep"

section \<open>Properties\<close>

text \<open>
  C35. \<open>THREAD_SCOPED_LOCK\<close> on each backend: with threads in use the action runs exactly once
  and owns the mutex while it runs, and afterwards the mutex is as it was; without threads
  the action runs once and the mutex is not touched.
\<close>

theorem thread_scoped_lock_correct:
  assumes "some_backend debug LP LA LQ rep B" "amutex_wf (rep (mutex_m_lock p))"
    and "amutex_lock t (rep (mutex_m_lock p)) = Ret a"
    and "\<And>q. rep (mutex_m_lock q) = a \<Longrightarrow> mx_owner (rep (mutex_m_lock q)) = Some t \<Longrightarrow>
      \<exists>q' ev. action (q, x) = Ret ((q', f x), ev) \<and> rep (mutex_m_lock q') = a"
  shows "(\<exists>q ev. THREAD_SCOPED_LOCK B True t action (p, x) = Ret ((q, f x), ev) \<and>
      rep (mutex_m_lock q) = rep (mutex_m_lock p)) \<and>
    THREAD_SCOPED_LOCK B False t action (p, x) = action (p, x)"
proof -
  have act: "\<exists>q' ev. action (q, x) = Ret ((q', f x), ev) \<and> rep (mutex_m_lock q') = a" if "rep (mutex_m_lock q) = a" for q
    using assms(4) [OF that] amutex_lock_owner [OF assms(3)] that by simp
  from assms(1) have "\<exists>q ev. THREAD_SCOPED_LOCK B True t action (p, x) = Ret ((q, f x), ev) \<and>
      rep (mutex_m_lock q) = rep (mutex_m_lock p)"
    unfolding some_backend_def
    using pt.scoped_lock_threads [where L = LP and rep = rep and action = action and f = f and x = x and debug = debug, OF _ assms(2,3) act]
      abt.scoped_lock_threads [where L = LA and rep = rep and action = action and f = f and x = x and debug = debug, OF _ assms(2,3) act]
      qt.scoped_lock_threads [where L = LQ and rep = rep and action = action and f = f and x = x and debug = debug, OF _ assms(2,3) act] by blast
  then show ?thesis by (simp add: mutex_defs)
qed

lemma demo_backends:
  "some_backend debug (ref_pthreads True) ref_argobots ref_qthreads id (pthreads_mutex_ops debug (ref_pthreads True))"
  "some_backend debug (ref_pthreads True) ref_argobots ref_qthreads id (argobots_mutex_ops debug ref_argobots)"
  "some_backend debug (ref_pthreads True) ref_argobots ref_qthreads id (qthreads_mutex_ops debug ref_qthreads)"
  by (simp_all add: some_backend_def ref_pthreads_ok ref_argobots_ok ref_qthreads_ok)

definition demo_mutex :: "bool \<Rightarrow> (amutex, unit) mutex_t" where
  "demo_mutex r = \<lparr>mutex_m_lock = ref_mutex r, m_lock_debug = 0, m_lock_file = None, m_lock_line = 0, m_lock_atomic = ()\<rparr>"

theorem thread_scoped_lock_correct_witness:
  "\<exists>q ev. THREAD_SCOPED_LOCK (pthreads_mutex_ops True (ref_pthreads True)) True 1
     (\<lambda>(p, x). Ret ((p, x + 1), [])) (demo_mutex False, 41 :: int) = Ret ((q, 42), ev) \<and> mutex_m_lock q = amutex_init False"
proof -
  let ?a = "(amutex_init False)\<lparr>mx_owner := Some 1, mx_depth := 1\<rparr>"
  have "amutex_lock 1 (id (mutex_m_lock (demo_mutex False))) = Ret ?a"
    by (simp add: demo_mutex_def amutex_lock_def amutex_init_def)
  from thread_scoped_lock_correct [OF demo_backends(1) _ this, of "\<lambda>(p, x). Ret ((p, x + 1), [])" 41 "\<lambda>x. x + 1"]
  show ?thesis by (auto simp: demo_mutex_def amutex_wf_init)
qed

text \<open>
  C36. On each backend a thread can nest critical sections of a recursive mutex that it owns
  or nobody owns as deep as the library allows: each lock goes one level deeper, and leaving
  all of them gives the mutex back as it was. One lock more, which POSIX answers with
  \<open>EAGAIN\<close>, fails the assertion of a debug build of the pthreads backend; a release build
  returns as if it had locked and is no level deeper.
\<close>

theorem recursive_mutex_nests:
  assumes "some_backend debug LP LA LQ rep B" "amutex_wf (rep (mutex_m_lock p))" "mx_live (rep (mutex_m_lock p))"
    "mx_recursive (rep (mutex_m_lock p))" "mx_owner (rep (mutex_m_lock p)) \<in> {None, Some t}"
    "mx_depth (rep (mutex_m_lock p)) + n \<le> mx_limit (rep (mutex_m_lock p))"
  shows "\<exists>q r. op_times n (THREAD_LOCK B True t) p = Ret q \<and>
    mx_depth (rep (mutex_m_lock q)) = mx_depth (rep (mutex_m_lock p)) + n \<and>
    op_times n (THREAD_UNLOCK B True t) q = Ret r \<and> rep (mutex_m_lock r) = rep (mutex_m_lock p) \<and>
    (B = pthreads_mutex_ops debug LP \<and> pthread_mutex_ok LP rep \<and> at_limit t (rep (mutex_m_lock q)) \<longrightarrow>
       (if debug then THREAD_LOCK B True t q = AssertFail
        else \<exists>q' ev. THREAD_LOCK B True t q = Ret (q', ev) \<and> rep (mutex_m_lock q') = rep (mutex_m_lock q)))"
proof -
  have "\<exists>q r. op_times n (THREAD_LOCK B True t) p = Ret q \<and>
    mx_depth (rep (mutex_m_lock q)) = mx_depth (rep (mutex_m_lock p)) + n \<and>
    op_times n (THREAD_UNLOCK B True t) q = Ret r \<and> rep (mutex_m_lock r) = rep (mutex_m_lock p)"
    using assms(1) unfolding some_backend_def
    using pt.nested_lock [where L = LP and rep = rep and n = n and debug = debug, OF _ assms(2-6)]
      abt.nested_lock [where L = LA and rep = rep and n = n and debug = debug, OF _ assms(2-6)]
      qt.nested_lock [where L = LQ and rep = rep and n = n and debug = debug, OF _ assms(2-6)] by blast
  moreover have "if debug then THREAD_LOCK B True t q = AssertFail
      else \<exists>q' ev. THREAD_LOCK B True t q = Ret (q', ev) \<and> rep (mutex_m_lock q') = rep (mutex_m_lock q)"
    if "B = pthreads_mutex_ops debug LP" "pthread_mutex_ok LP rep" "at_limit t (rep (mutex_m_lock q))" for q
    using pt_lock_at_limit [OF that(2,3)] that(1) by (cases debug) (auto simp: mutex_defs pthreads_mutex_ops_def)
  ultimately show ?thesis by blast
qed

theorem recursive_mutex_nests_witness:
  "\<exists>q r q' ev. op_times 4 (THREAD_LOCK (pthreads_mutex_ops False (ref_pthreads True)) True 1) (demo_mutex True) = Ret q \<and>
    op_times 4 (THREAD_UNLOCK (pthreads_mutex_ops False (ref_pthreads True)) True 1) q = Ret r \<and> mutex_m_lock r = ref_mutex True \<and>
    THREAD_LOCK (pthreads_mutex_ops False (ref_pthreads True)) True 1 q = Ret (q', ev) \<and> mx_depth (mutex_m_lock q') = 4"
proof -
  let ?L = "ref_pthreads True" and ?p = "demo_mutex True"
  have p: "mutex_m_lock ?p = ref_mutex True" by (simp add: demo_mutex_def)
  have "amutex_wf (id (mutex_m_lock ?p))" "mx_live (id (mutex_m_lock ?p))" "mx_recursive (id (mutex_m_lock ?p))"
    "mx_owner (id (mutex_m_lock ?p)) \<in> {None, Some 1}" "mx_depth (id (mutex_m_lock ?p)) + 4 \<le> mx_limit (id (mutex_m_lock ?p))"
    by (simp_all add: p ref_mutex_def amutex_init_def amutex_wf_def)
  from recursive_mutex_nests [OF demo_backends(1) [of False] this] obtain q r where
    q: "op_times 4 (THREAD_LOCK (pthreads_mutex_ops False ?L) True 1) ?p = Ret q"
      "op_times 4 (THREAD_UNLOCK (pthreads_mutex_ops False ?L) True 1) q = Ret r" "mutex_m_lock r = ref_mutex True"
      "mx_depth (mutex_m_lock q) = 4" "at_limit 1 (mutex_m_lock q) \<longrightarrow>
        (\<exists>q' ev. THREAD_LOCK (pthreads_mutex_ops False ?L) True 1 q = Ret (q', ev) \<and> mutex_m_lock q' = mutex_m_lock q)"
    using ref_pthreads_ok [of True] by (auto simp: p ref_mutex_def amutex_init_def id_def)
  have "map_option (\<lambda>q. at_limit 1 (mutex_m_lock q))
      (case op_times 4 (THREAD_LOCK (pthreads_mutex_ops False ?L) True 1) ?p of Ret q \<Rightarrow> Some q | _ \<Rightarrow> None) = Some True"
    by code_simp
  with q show ?thesis by fastforce
qed

text \<open>
  A mutex or recursive mutex built by the constructors of a debug build is fresh,
  unlocked and of the kind asked for; if its initialisation fails the constructor does not
  return.
\<close>

lemma constructed_mutex_is_fresh:
  assumes "pthread_mutex_ok L rep"
  shows "(mca_threads_mutex_constructor True (pthreads_mutex_ops True L) A p = Ret (q, ev) \<longrightarrow>
      rep (mutex_m_lock q) = amutex_init False \<and> m_lock_debug q = 0 \<and> m_lock_file q = None) \<and>
    (mca_threads_recursive_mutex_constructor True (pthreads_mutex_ops True L) A p = Ret (q, ev) \<longrightarrow>
      fresh_mutex True (rep (mutex_m_lock q)) \<and> m_lock_debug q = 0 \<and> m_lock_file q = None)"
proof -
  have "fresh_mutex r (rep (mutex_m_lock q)) \<and> m_lock_debug q = 0 \<and> m_lock_file q = None"
    if c: "construct_mutex r True (pthreads_mutex_ops True L) A p = Ret (q, ev)" for r
  proof -
    have "pt_init_ok True L r" by (simp add: pt_init_ok_def)
    from pt.constructed [OF assms this c] c show ?thesis
      by (auto simp: construct_mutex_def c_assert_def split: if_splits)
  qed
  from this [of False] this [of True] show ?thesis
    by (simp add: mca_threads_mutex_constructor_def mca_threads_recursive_mutex_constructor_def)
qed

definition demo_atomic_lock :: "unit atomic_lock_lib" where
  "demo_atomic_lock = \<lparr>ATOMIC_LOCK_INIT = (), atomic_lock_init = (\<lambda>_ _. ()), atomic_trylock = (\<lambda>_. Ret (0, ())),
     atomic_lock = (\<lambda>_. Ret ()), atomic_unlock = (\<lambda>_. Ret ())\<rparr>"

end
