(* ===== verification/Wait_Backend.thy ===== *)
theory Wait_Backend
  imports Wait_Settle Mutex
begin

text \<open>
  The wait list over a backend: the machine of \<open>Wait_Machine\<close> run with the functions of
  \<open>threads_pthreads_mutex.h\<close>, \<open>threads_argobots_mutex.h\<close> or \<open>threads_qthreads_mutex.h\<close> on the
  objects' locks and conditions and with the portable mutex of \<open>mutex.h\<close> as \<open>wait_sync_lock\<close>. It is simulated by
  the machine over abstract locks, so what the theories on the wait list show holds of the
  code as it is composed.
\<close>

section \<open>States without their locks\<close>

definition erase_obj :: "('c, 'm) ompi_wait_sync_t \<Rightarrow> (unit, unit) ompi_wait_sync_t" where
  "erase_obj w = \<lparr>w_count = w_count w, w_status = w_status w, w_condition = (), w_lock = (),
     w_next = w_next w, w_prev = w_prev w, w_signaling = w_signaling w\<rparr>"

definition erase :: "('c, 'm, 'g) machine \<Rightarrow> (unit, unit, unit) machine" where
  "erase s = \<lparr>uses_threads = uses_threads s, sync_at = erase_obj \<circ> sync_at s,
     threads_base_wait_sync_list = threads_base_wait_sync_list s, wait_sync_lock = (),
     num_thread_in_progress = num_thread_in_progress s, pc = pc s, waited = waited s, outstanding = outstanding s\<rparr>"

lemma erase_obj_sel [simp]:
  "w_count (erase_obj w) = w_count w" "w_status (erase_obj w) = w_status w" "w_next (erase_obj w) = w_next w"
  "w_prev (erase_obj w) = w_prev w" "w_signaling (erase_obj w) = w_signaling w"
  by (simp_all add: erase_obj_def)

lemma erase_sel [simp]:
  "uses_threads (erase s) = uses_threads s" "sync_at (erase s) a = erase_obj (sync_at s a)"
  "threads_base_wait_sync_list (erase s) = threads_base_wait_sync_list s"
  "num_thread_in_progress (erase s) = num_thread_in_progress s" "pc (erase s) = pc s"
  "waited (erase s) = waited s" "outstanding (erase s) = outstanding s"
  by (simp_all add: erase_def)

lemma erase_upd [simp]:
  "erase (goto t p s) = goto t p (erase s)"
  "erase (s\<lparr>wait_sync_lock := g\<rparr>) = erase s"
  "erase (s\<lparr>threads_base_wait_sync_list := h\<rparr>) = (erase s)\<lparr>threads_base_wait_sync_list := h\<rparr>"
  "erase (s\<lparr>num_thread_in_progress := n\<rparr>) = (erase s)\<lparr>num_thread_in_progress := n\<rparr>"
  "erase (s\<lparr>waited := ws\<rparr>) = (erase s)\<lparr>waited := ws\<rparr>"
  "erase (s\<lparr>outstanding := out\<rparr>) = (erase s)\<lparr>outstanding := out\<rparr>"
  by (simp_all add: erase_def goto_def)

lemma erase_upd_sync:
  assumes "\<And>w. erase_obj (f w) = g (erase_obj w)"
  shows "erase (upd_sync a f s) = upd_sync a g (erase s)"
  by (auto simp: erase_def upd_sync_def assms fun_eq_iff)

lemma erase_upd_data [simp]:
  "erase (upd_sync a (\<lambda>w. w\<lparr>w_count := n\<rparr>) s) = upd_sync a (\<lambda>w. w\<lparr>w_count := n\<rparr>) (erase s)"
  "erase (upd_sync a (\<lambda>w. w\<lparr>w_count := h (w_count w)\<rparr>) s) = upd_sync a (\<lambda>w. w\<lparr>w_count := h (w_count w)\<rparr>) (erase s)"
  "erase (upd_sync a (\<lambda>w. w\<lparr>w_status := n\<rparr>) s) = upd_sync a (\<lambda>w. w\<lparr>w_status := n\<rparr>) (erase s)"
  "erase (upd_sync a (\<lambda>w. w\<lparr>w_next := x\<rparr>) s) = upd_sync a (\<lambda>w. w\<lparr>w_next := x\<rparr>) (erase s)"
  "erase (upd_sync a (\<lambda>w. w\<lparr>w_prev := x\<rparr>) s) = upd_sync a (\<lambda>w. w\<lparr>w_prev := x\<rparr>) (erase s)"
  "erase (upd_sync a (\<lambda>w. w\<lparr>w_next := x, w_prev := y\<rparr>) s) = upd_sync a (\<lambda>w. w\<lparr>w_next := x, w_prev := y\<rparr>) (erase s)"
  "erase (upd_sync a (\<lambda>w. w\<lparr>w_signaling := b\<rparr>) s) = upd_sync a (\<lambda>w. w\<lparr>w_signaling := b\<rparr>) (erase s)"
  by (rule erase_upd_sync; simp add: erase_obj_def)+

lemma upd_sync_id: "upd_sync a (\<lambda>w. w) s = s"
  by (simp add: upd_sync_def)

lemma erase_upd_locks [simp]:
  "erase (upd_sync a (\<lambda>w. w\<lparr>w_lock := m\<rparr>) s) = erase s"
  "erase (upd_sync a (\<lambda>w. w\<lparr>w_condition := c\<rparr>) s) = erase s"
  "erase (upd_sync a (\<lambda>w. w\<lparr>w_condition := c, w_lock := m\<rparr>) s) = erase s"
  by (subst erase_upd_sync [where g = "\<lambda>w. w"]; simp add: erase_obj_def upd_sync_id)+

text \<open>The list operations read and write no lock.\<close>

lemma wait_list_erase:
  "wait_list_insert a (erase s) = obind (wait_list_insert a s) (\<lambda>s. Ret (erase s))"
  "wait_list_remove a (erase s) = obind (wait_list_remove a s) (\<lambda>(n, s). Ret (n, erase s))"
  by (auto simp: wait_list_insert_def wait_list_remove_def Let_def split: option.splits)

section \<open>What the machine needs of a backend\<close>

locale prim_backend =
  fixes B :: "'l \<Rightarrow> ('c, 'm, 'g) prims"
    and ok :: "'l \<Rightarrow> ('m \<Rightarrow> amutex) \<Rightarrow> ('c \<Rightarrow> acond) \<Rightarrow> ('g \<Rightarrow> amutex) \<Rightarrow> bool"
    and tracks :: "('c \<Rightarrow> acond) \<Rightarrow> tid \<Rightarrow> 'c \<Rightarrow> bool"
  assumes p_lock: "ok L rep repc repg \<Longrightarrow> mx_owner (rep m) \<noteq> Some t \<Longrightarrow>
      matches (\<lambda>m a. rep m = a) (amutex_lock t (rep m)) (p_lock (B L) t m)"
    and p_unlock: "ok L rep repc repg \<Longrightarrow> matches (\<lambda>m a. rep m = a) (amutex_unlock t (rep m)) (p_unlock (B L) t m)"
    and p_destroy: "ok L rep repc repg \<Longrightarrow> matches (\<lambda>_ _. True) (amutex_destroy (rep m)) (p_destroy (B L) m)"
    and p_signal: "ok L rep repc repg \<Longrightarrow> cv_waiters (repc c) \<in> {[], [u]} \<Longrightarrow>
      matches (\<lambda>c' a. repc c' = a \<and> (\<forall>v. tracks repc v c \<longrightarrow> tracks repc v c')) (acond_signal (repc c)) (p_signal (B L) t c)"
    and p_wait_enter: "ok L rep repc repg \<Longrightarrow> t \<notin> set (cv_waiters (repc c)) \<Longrightarrow>
      matches (\<lambda>x y. repc (fst x) = fst y \<and> rep (snd x) = snd y \<and> tracks repc t (fst x))
        (acond_wait_begin t (repc c) (rep m)) (p_wait_enter (B L) t c m)"
    and p_wait_leave: "ok L rep repc repg \<Longrightarrow> tracks repc t c \<Longrightarrow> cv_live (repc c) \<Longrightarrow> mx_live (rep m) \<Longrightarrow>
      mx_owner (rep m) \<noteq> Some t \<Longrightarrow>
      matches (\<lambda>x b. repc (fst x) = repc c \<and> rep (snd x) = b) (acond_wait_end t (repc c) (rep m)) (p_wait_leave (B L) t c m)"
    and p_cond_destroy: "ok L rep repc repg \<Longrightarrow> matches (\<lambda>_ _. True) (acond_destroy (repc c)) (p_cond_destroy (B L) c)"
    and p_mutex_lock: "ok L rep repc repg \<Longrightarrow> mx_owner (repg g) \<noteq> Some t \<Longrightarrow>
      matches (\<lambda>g a. repg g = a) (amutex_lock t (repg g)) (p_mutex_lock (B L) t g)"
    and p_mutex_unlock: "ok L rep repc repg \<Longrightarrow>
      matches (\<lambda>g a. repg g = a) (amutex_unlock t (repg g)) (p_mutex_unlock (B L) t g)"

text \<open>
  A concrete and an abstract state correspond when they agree on all data and the memory of
  every lock and condition that has not been destroyed represents the abstract one.
\<close>

definition sim :: "('m \<Rightarrow> amutex) \<Rightarrow> ('c \<Rightarrow> acond) \<Rightarrow> ('g \<Rightarrow> amutex) \<Rightarrow> ('c, 'm, 'g) machine \<Rightarrow> wait_machine \<Rightarrow> bool" where
  "sim rep repc repg cs s \<longleftrightarrow> erase cs = erase s \<and> repg (wait_sync_lock cs) = wait_sync_lock s \<and>
     (\<forall>a. (lock_live s a \<longrightarrow> rep (w_lock (sync_at cs a)) = w_lock (sync_at s a)) \<and>
          (cond_live s a \<longrightarrow> repc (w_condition (sync_at cs a)) = w_condition (sync_at s a)))"

lemma erase_eqD:
  assumes "erase cs = erase s"
  shows "uses_threads cs = uses_threads s" "threads_base_wait_sync_list cs = threads_base_wait_sync_list s"
    "num_thread_in_progress cs = num_thread_in_progress s" "pc cs = pc s"
    "waited cs = waited s" "outstanding cs = outstanding s"
    "w_count (sync_at cs a) = w_count (sync_at s a)" "w_status (sync_at cs a) = w_status (sync_at s a)"
    "w_next (sync_at cs a) = w_next (sync_at s a)" "w_signaling (sync_at cs a) = w_signaling (sync_at s a)"
proof -
  show "uses_threads cs = uses_threads s" "threads_base_wait_sync_list cs = threads_base_wait_sync_list s"
    "num_thread_in_progress cs = num_thread_in_progress s" "pc cs = pc s"
    "waited cs = waited s" "outstanding cs = outstanding s"
    by (metis assms erase_sel)+
  have "erase_obj (sync_at cs a) = erase_obj (sync_at s a)" by (metis assms erase_sel(2))
  then show "w_count (sync_at cs a) = w_count (sync_at s a)" "w_status (sync_at cs a) = w_status (sync_at s a)"
    "w_next (sync_at cs a) = w_next (sync_at s a)" "w_signaling (sync_at cs a) = w_signaling (sync_at s a)"
    by (metis erase_obj_sel)+
qed

lemma simD:
  assumes "sim rep repc repg cs s"
  shows "erase cs = erase s" "repg (wait_sync_lock cs) = wait_sync_lock s"
    "lock_live s a \<Longrightarrow> rep (w_lock (sync_at cs a)) = w_lock (sync_at s a)"
    "cond_live s a \<Longrightarrow> repc (w_condition (sync_at cs a)) = w_condition (sync_at s a)"
  using assms by (simp_all add: sim_def)

lemma sim_goto: "sim rep repc repg cs s \<Longrightarrow> sim rep repc repg (goto t p cs) (goto t p s)"
  by (simp add: sim_def)

lemma matches_goto:
  "sim rep repc repg cs s \<Longrightarrow> p' = p \<Longrightarrow> matches (sim rep repc repg) (Ret (goto t p s)) (Ret (goto t p' cs))"
  by (simp add: sim_goto)

lemma sim_upd_locks:
  assumes "sim rep repc repg cs s"
  shows "(mx_live m \<Longrightarrow> rep m' = m) \<Longrightarrow>
      sim rep repc repg (upd_sync a (\<lambda>w. w\<lparr>w_lock := m'\<rparr>) cs) (upd_sync a (\<lambda>w. w\<lparr>w_lock := m\<rparr>) s)"
    "(cv_live c \<Longrightarrow> repc c' = c) \<Longrightarrow>
      sim rep repc repg (upd_sync a (\<lambda>w. w\<lparr>w_condition := c'\<rparr>) cs) (upd_sync a (\<lambda>w. w\<lparr>w_condition := c\<rparr>) s)"
    "repc c' = c \<Longrightarrow> rep m' = m \<Longrightarrow>
      sim rep repc repg (upd_sync a (\<lambda>w. w\<lparr>w_condition := c', w_lock := m'\<rparr>) cs)
        (upd_sync a (\<lambda>w. w\<lparr>w_condition := c, w_lock := m\<rparr>) s)"
    "(cond_live s a \<Longrightarrow> repc c' = w_condition (sync_at s a)) \<Longrightarrow> rep m' = m \<Longrightarrow>
      sim rep repc repg (upd_sync a (\<lambda>w. w\<lparr>w_condition := c', w_lock := m'\<rparr>) cs) (upd_sync a (\<lambda>w. w\<lparr>w_lock := m\<rparr>) s)"
  using simD [OF assms] by (auto simp: sim_def)

lemma sim_wsl:
  "sim rep repc repg cs s \<Longrightarrow> repg g = m \<Longrightarrow> sim rep repc repg (cs\<lparr>wait_sync_lock := g\<rparr>) (s\<lparr>wait_sync_lock := m\<rparr>)"
  by (simp add: sim_def)

text \<open>A change of data that is the same on both sides.\<close>

lemma sim_data:
  assumes "sim rep repc repg cs s" "erase cs' = erase s'"
    and "wait_sync_lock cs' = wait_sync_lock cs" "wait_sync_lock s' = wait_sync_lock s"
    and "\<And>a. w_lock (sync_at cs' a) = w_lock (sync_at cs a)" "\<And>a. w_lock (sync_at s' a) = w_lock (sync_at s a)"
    and "\<And>a. w_condition (sync_at cs' a) = w_condition (sync_at cs a)"
    and "\<And>a. w_condition (sync_at s' a) = w_condition (sync_at s a)"
  shows "sim rep repc repg cs' s'"
  using assms by (simp add: sim_def)

lemma sim_upd_data:
  assumes "sim rep repc repg cs s"
  shows "sim rep repc repg (upd_sync a (\<lambda>w. w\<lparr>w_count := n\<rparr>) cs) (upd_sync a (\<lambda>w. w\<lparr>w_count := n\<rparr>) s)"
    "sim rep repc repg (upd_sync a (\<lambda>w. w\<lparr>w_count := h (w_count w)\<rparr>) cs) (upd_sync a (\<lambda>w. w\<lparr>w_count := h (w_count w)\<rparr>) s)"
    "sim rep repc repg (upd_sync a (\<lambda>w. w\<lparr>w_status := n\<rparr>) cs) (upd_sync a (\<lambda>w. w\<lparr>w_status := n\<rparr>) s)"
    "sim rep repc repg (upd_sync a (\<lambda>w. w\<lparr>w_signaling := b\<rparr>) cs) (upd_sync a (\<lambda>w. w\<lparr>w_signaling := b\<rparr>) s)"
    "sim rep repc repg (cs\<lparr>num_thread_in_progress := n\<rparr>) (s\<lparr>num_thread_in_progress := n\<rparr>)"
  using simD [OF assms] by (auto simp: sim_def)

lemma amutex_UB: "\<not> mx_live m \<Longrightarrow> amutex_lock t m = UB" "\<not> mx_live m \<Longrightarrow> amutex_unlock t m = UB"
  "\<not> mx_live m \<Longrightarrow> amutex_destroy m = UB" "\<not> cv_live c \<Longrightarrow> acond_signal c = UB" "\<not> cv_live c \<Longrightarrow> acond_destroy c = UB"
  "\<not> cv_live c \<Longrightarrow> acond_wait_begin t c m = UB"
  by (simp_all add: amutex_lock_def amutex_unlock_def amutex_destroy_def acond_signal_def acond_destroy_def
      acond_wait_begin_def acond_block_def)

lemma sim_insert:
  assumes "sim rep repc repg cs s"
  shows "matches (sim rep repc repg) (wait_list_insert a s) (wait_list_insert a cs)"
proof -
  have e: "obind (wait_list_insert a cs) (\<lambda>s. Ret (erase s)) = obind (wait_list_insert a s) (\<lambda>s. Ret (erase s))"
    by (simp only: wait_list_erase(1) [symmetric] simD(1) [OF assms])
  show ?thesis
  proof (cases "wait_list_insert a s")
    case (Ret s')
    with e obtain cs' where cs': "wait_list_insert a cs = Ret cs'" "erase cs' = erase s'"
      by (cases "wait_list_insert a cs") auto
    with Ret assms have "sim rep repc repg cs' s'"
      by (intro sim_data [OF assms]) (auto simp: same_but_links_fields dest!: wait_list_insert_links)
    with Ret cs' show ?thesis by simp
  next
    case Block
    then show ?thesis by (simp add: never_Block)
  qed simp_all
qed

lemma sim_remove:
  assumes "sim rep repc repg cs s"
  shows "matches (\<lambda>x y. fst x = fst y \<and> sim rep repc repg (snd x) (snd y)) (wait_list_remove a s) (wait_list_remove a cs)"
proof -
  have e: "obind (wait_list_remove a cs) (\<lambda>(n, s). Ret (n, erase s)) = obind (wait_list_remove a s) (\<lambda>(n, s). Ret (n, erase s))"
    by (simp only: wait_list_erase(2) [symmetric] simD(1) [OF assms])
  show ?thesis
  proof (cases "wait_list_remove a s")
    case (Ret x)
    obtain n s' where x: "x = (n, s')" by fastforce
    with Ret e obtain cs' where cs': "wait_list_remove a cs = Ret (n, cs')" "erase cs' = erase s'"
      by (cases "wait_list_remove a cs") auto
    with Ret x assms have "sim rep repc repg cs' s'"
      by (intro sim_data [OF assms]) (auto simp: same_but_links_fields dest!: wait_list_remove_links)
    with Ret x cs' show ?thesis by simp
  next
    case Block
    then show ?thesis by (simp add: never_Block)
  qed simp_all
qed

text \<open>The thread that owns an object is the only one that can sleep on it.\<close>

lemma waiters_one:
  assumes "inv_own s"
  shows "\<exists>u. waiters s a \<in> {[], [u]}"
proof (cases "waiters s a")
  case (Cons u ws)
  have "v = u" if "v \<in> set ws" for v
    using inv_ownD(4) [OF assms, of v a u] inv_ownD(8) [OF assms, of v a] inv_ownD(8) [OF assms, of u a] that Cons
    by simp
  with inv_ownD(7) [OF assms, of a] Cons have "ws = []" by (cases ws) auto
  with Cons show ?thesis by simp
qed simp

section \<open>Runs of the machine over a backend\<close>

text \<open>
  The steps are those of \<open>wstep\<close>, with callers that report each operation at most once and no
  error. A spurious wake-up is the library's own doing: it changes the memory of a condition
  to one that represents the condition without the thread. On Qthreads that memory includes
  the waiters on the stacks; those of threads that are not waiting can change at any time.
\<close>

inductive bstep :: "('c, 'm, 'g) prims \<Rightarrow> ('c \<Rightarrow> acond) \<Rightarrow> (tid \<Rightarrow> 'c \<Rightarrow> bool) \<Rightarrow> wait_cfg \<Rightarrow>
    ('c, 'm, 'g) machine \<Rightarrow> ('c, 'm, 'g) machine \<Rightarrow> bool"
  for P repc tr cfg where
  b_run: "t < cfg_threads cfg \<Longrightarrow> exec_on P cfg t s = Ret s' \<Longrightarrow> bstep P repc tr cfg s s'"
| b_call: "t < cfg_threads cfg \<Longrightarrow> exact_client cfg s c \<Longrightarrow> start_call cfg t c s = Some s' \<Longrightarrow> bstep P repc tr cfg s s'"
| b_wake: "repc c' = (repc (w_condition (sync_at s a)))\<lparr>cv_waiters := remove1 t (cv_waiters (repc (w_condition (sync_at s a))))\<rparr> \<Longrightarrow>
    (\<And>u. pc s u = Wait L83w a \<Longrightarrow> tr u c') \<Longrightarrow>
    bstep P repc tr cfg s (upd_sync a (\<lambda>w. w\<lparr>w_condition := c'\<rparr>) s)"

text \<open>
  Runs without further calls, counting the steps that move a thread to another line, and
  states in which no thread can move. The rounds of the loop that calls \<open>progress()\<close> are not
  counted, nor are those of the waiting loop of the Qthreads backend that find the flag clear.
\<close>

inductive b_moves :: "('c, 'm, 'g) prims \<Rightarrow> wait_cfg \<Rightarrow> ('c, 'm, 'g) machine \<Rightarrow> nat \<Rightarrow> ('c, 'm, 'g) machine \<Rightarrow> bool" for P cfg where
  b_moves_none: "b_moves P cfg s 0 s"
| b_moves_step: "b_moves P cfg s n s1 \<Longrightarrow> t < cfg_threads cfg \<Longrightarrow> exec_on P cfg t s1 = Ret s2 \<Longrightarrow> pc s2 t \<noteq> pc s1 t \<Longrightarrow>
    b_moves P cfg s (Suc n) s2"

definition b_settled :: "('c, 'm, 'g) prims \<Rightarrow> wait_cfg \<Rightarrow> ('c, 'm, 'g) machine \<Rightarrow> bool" where
  "b_settled P cfg s \<longleftrightarrow> (\<forall>t<cfg_threads cfg. exec_on P cfg t s = Block \<or>
     (\<exists>s'. exec_on P cfg t s = Ret s' \<and> pc s' t = pc s t))"

text \<open>Every thread that is inside \<open>thread_internal_cond_wait\<close> can tell whether it is still queued.\<close>

definition flags :: "(tid \<Rightarrow> 'c \<Rightarrow> bool) \<Rightarrow> ('c, 'm, 'g) machine \<Rightarrow> bool" where
  "flags tr s \<longleftrightarrow> (\<forall>t a. pc s t = Wait L83w a \<longrightarrow> tr t (w_condition (sync_at s a)))"

text \<open>The object whose condition a thread at this position uses.\<close>

fun uses_cond :: "pc \<Rightarrow> addr option" where
  "uses_cond (Wait l a) = (if l = L83 \<or> l = L83w then Some a else None)"
| "uses_cond (Pass p a b) = (if p = P37 then Some b else None)"
| "uses_cond (Sig l a k) = (if l = S53 then Some a else None)"
| "uses_cond (Rel r a) = (if r = R40 then Some a else None)"
| "uses_cond _ = None"

lemmas on_defs = lock_on_def unlock_on_def signal_on_def destroy_on_def cond_destroy_on_def wait_enter_on_def
  wait_leave_on_def mutex_lock_on_def mutex_unlock_on_def wsl_lock_on_def wsl_unlock_on_def in_progress_add_def

lemma exec_condition:
  assumes "exec_on P cfg t s = Ret s'" "uses_cond (pc s t) \<noteq> Some a"
  shows "w_condition (sync_at s' a) = w_condition (sync_at s a)"
  using assms by (cases "pc s t" rule: pc_line_cases)
    (auto simp: exec_on_def exec_upd_def exec_swp_def exec_globat_def on_defs same_but_links_fields(9)
      split: if_splits option.splits dest!: wait_list_insert_links wait_list_remove_links)

lemma exec_enters:
  assumes "exec cfg t s = Ret s'" "pc s' t = Wait L83w a"
  shows "pc s t = Wait L83 a"
  using assms by (cases "pc s t" rule: pc_line_cases)
    (auto simp: exec_defs glob_next_def split: if_splits option.splits dest: arg_cong [where f = owns])

text \<open>
  At the start every object has been initialised by \<open>WAIT_SYNC_INIT\<close>, whose calls of the
  backend have succeeded, and \<open>wait_sync_lock\<close> is statically initialised.
\<close>

definition b_init :: "'m mutex_ops \<Rightarrow> ('c, 'm) cond_ops \<Rightarrow> ('g \<Rightarrow> amutex) \<Rightarrow> ('c, 'm, 'g) machine \<Rightarrow> bool" where
  "b_init B C repg s \<longleftrightarrow> (\<exists>c. erase s = erase (init_machine c)) \<and> repg (wait_sync_lock s) = amutex_init False \<and>
     (\<forall>a. (\<exists>c0 ev. ti_cond_init C c0 = Ret ((SUCCESS, w_condition (sync_at s a)), ev)) \<and>
          (\<exists>m0 ev. ti_mutex_init B False m0 = Ret ((SUCCESS, w_lock (sync_at s a)), ev)))"

lemma sim_init:
  assumes "erase cs = erase (init_machine c)" "repg (wait_sync_lock cs) = amutex_init False"
    and "\<And>a. rep (w_lock (sync_at cs a)) = amutex_init False" "\<And>a. repc (w_condition (sync_at cs a)) = acond_init"
  shows "sim rep repc repg cs (init_machine c)"
  using assms by (simp add: sim_def init_machine_def)

lemma sim_call:
  assumes sim: "sim rep repc repg cs s" and call: "start_call cfg t c cs = Some cs'"
  shows "\<exists>s'. start_call cfg t c s = Some s' \<and> sim rep repc repg cs' s'"
proof -
  note e = erase_eqD [OF simD(1) [OF sim]]
  show ?thesis
    using call e by (cases c) (auto simp: e split: if_splits pc.splits intro!: sim_goto sim_data [OF sim]
        simp: simD(1) [OF sim])
qed

lemma sim_client: "sim rep repc repg cs s \<Longrightarrow> exact_client cfg cs c \<longleftrightarrow> exact_client cfg s c"
  using erase_eqD(6) [OF simD(1), of rep repc repg cs s] by (cases c) auto

lemma sim_wake:
  assumes "sim rep repc repg cs s"
    and "repc c' = (repc (w_condition (sync_at cs a)))\<lparr>cv_waiters := remove1 t (cv_waiters (repc (w_condition (sync_at cs a))))\<rparr>"
  shows "sim rep repc repg (upd_sync a (\<lambda>w. w\<lparr>w_condition := c'\<rparr>) cs) (spurious t a s)"
proof -
  let ?c = "(w_condition (sync_at s a))\<lparr>cv_waiters := remove1 t (waiters s a)\<rparr>"
  have "spurious t a s = upd_sync a (\<lambda>w. w\<lparr>w_condition := ?c\<rparr>) s" by (simp add: spurious_def upd_sync_def)
  then show ?thesis using sim_upd_locks(2) [OF assms(1), of ?c c' a] simD(4) [OF assms(1), of a] assms(2) by simp
qed

section \<open>One step\<close>

context prim_backend
begin

lemma sim_lock:
  assumes ok: "ok L rep repc repg" and sim: "sim rep repc repg cs s" and "mx_owner (w_lock (sync_at s a)) \<noteq> Some t"
  shows "matches (sim rep repc repg) (lock_on spec_prims t a s) (lock_on (B L) t a cs)"
proof (cases "lock_live s a")
  case True
  with simD(3) [OF sim] have r: "rep (w_lock (sync_at cs a)) = w_lock (sync_at s a)" by blast
  show ?thesis unfolding spec_steps unfolding sync_lock_def lock_on_def
    by (rule matches_bind [OF p_lock [OF ok, of "w_lock (sync_at cs a)" t, unfolded r]])
      (use assms(3) in \<open>simp_all add: sim_upd_locks(1) [OF sim]\<close>)
qed (simp add: sync_lock_def amutex_UB)

lemma sim_unlock:
  assumes ok: "ok L rep repc repg" and sim: "sim rep repc repg cs s"
  shows "matches (sim rep repc repg) (unlock_on spec_prims t a s) (unlock_on (B L) t a cs)"
proof (cases "lock_live s a")
  case True
  with simD(3) [OF sim] have r: "rep (w_lock (sync_at cs a)) = w_lock (sync_at s a)" by blast
  show ?thesis unfolding spec_steps unfolding sync_unlock_def unlock_on_def
    by (rule matches_bind [OF p_unlock [OF ok, of t "w_lock (sync_at cs a)", unfolded r]])
      (simp add: sim_upd_locks(1) [OF sim])
qed (simp add: sync_unlock_def amutex_UB)

lemma sim_destroy:
  assumes ok: "ok L rep repc repg" and sim: "sim rep repc repg cs s"
  shows "matches (sim rep repc repg) (destroy_on spec_prims a s) (destroy_on (B L) a cs)"
proof (cases "lock_live s a")
  case True
  with simD(3) [OF sim] have r: "rep (w_lock (sync_at cs a)) = w_lock (sync_at s a)" by blast
  show ?thesis unfolding spec_steps unfolding destroy_on_def
    by (rule matches_bind [OF p_destroy [OF ok, of "w_lock (sync_at cs a)", unfolded r]])
      (auto simp: amutex_destroy_Ret intro!: sim_upd_locks(1) [OF sim])
qed (simp add: amutex_UB)

lemma sim_cond_destroy:
  assumes ok: "ok L rep repc repg" and sim: "sim rep repc repg cs s"
  shows "matches (sim rep repc repg) (cond_destroy_on spec_prims a s) (cond_destroy_on (B L) a cs)"
proof (cases "cond_live s a")
  case True
  with simD(4) [OF sim] have r: "repc (w_condition (sync_at cs a)) = w_condition (sync_at s a)" by blast
  show ?thesis unfolding spec_steps unfolding cond_destroy_on_def
    by (rule matches_bind [OF p_cond_destroy [OF ok, of "w_condition (sync_at cs a)", unfolded r]])
      (auto simp: acond_Ret intro!: sim_upd_locks(2) [OF sim])
qed (simp add: amutex_UB)

lemma sim_signal:
  assumes ok: "ok L rep repc repg" and sim: "sim rep repc repg cs s" and "waiters s a \<in> {[], [u]}"
  shows "matches (\<lambda>cs' s'. sim rep repc repg cs' s' \<and>
      (\<forall>v. tracks repc v (w_condition (sync_at cs a)) \<longrightarrow> tracks repc v (w_condition (sync_at cs' a))))
    (signal_on spec_prims t a s) (signal_on (B L) t a cs)"
proof (cases "cond_live s a")
  case True
  with simD(4) [OF sim] have r: "repc (w_condition (sync_at cs a)) = w_condition (sync_at s a)" by blast
  show ?thesis unfolding spec_steps unfolding sync_signal_def signal_on_def
    by (rule matches_bind [OF p_signal [OF ok, of "w_condition (sync_at cs a)" u t, unfolded r, OF assms(3)]])
      (auto intro!: sim_upd_locks(2) [OF sim])
qed (simp add: sync_signal_def amutex_UB)

lemma sim_wait_enter:
  assumes ok: "ok L rep repc repg" and sim: "sim rep repc repg cs s" and t: "t \<notin> set (waiters s a)"
  shows "matches (\<lambda>cs' s'. sim rep repc repg cs' s' \<and> tracks repc t (w_condition (sync_at cs' a)))
    (wait_enter_on spec_prims t a s) (wait_enter_on (B L) t a cs)"
proof (cases "lock_live s a \<and> cond_live s a")
  case True
  with simD(3,4) [OF sim] have r: "rep (w_lock (sync_at cs a)) = w_lock (sync_at s a)"
    "repc (w_condition (sync_at cs a)) = w_condition (sync_at s a)" by blast+
  show ?thesis unfolding spec_steps unfolding wait_enter_on_def
    by (rule matches_bind [OF p_wait_enter [OF ok, of t "w_condition (sync_at cs a)" "w_lock (sync_at cs a)", unfolded r, OF t]])
      (auto intro!: sim_upd_locks(3) [OF sim])
qed (auto simp: acond_wait_begin_def acond_block_def amutex_UB)

lemma sim_wait_leave:
  assumes ok: "ok L rep repc repg" and sim: "sim rep repc repg cs s" and live: "lock_live s a" "cond_live s a"
    and t: "mx_owner (w_lock (sync_at s a)) \<noteq> Some t" and tr: "tracks repc t (w_condition (sync_at cs a))"
  shows "matches (sim rep repc repg) (wait_leave_on spec_prims t a s) (wait_leave_on (B L) t a cs)"
proof -
  from simD(3,4) [OF sim] live have r: "rep (w_lock (sync_at cs a)) = w_lock (sync_at s a)"
    "repc (w_condition (sync_at cs a)) = w_condition (sync_at s a)" by blast+
  show ?thesis unfolding spec_steps unfolding wait_leave_on_def
    by (rule matches_bind [OF p_wait_leave [OF ok tr, of "w_lock (sync_at cs a)", unfolded r, OF live(2,1) t]])
      (auto intro!: sim_upd_locks(4) [OF sim] split: prod.split)
qed

lemma sim_mutex:
  assumes ok: "ok L rep repc repg" and sim: "sim rep repc repg cs s"
  shows "mx_owner (wait_sync_lock s) \<noteq> Some t \<Longrightarrow>
      matches (sim rep repc repg) (mutex_lock_on spec_prims t s) (mutex_lock_on (B L) t cs)"
    "matches (sim rep repc repg) (mutex_unlock_on spec_prims t s) (mutex_unlock_on (B L) t cs)"
proof -
  note r = simD(2) [OF sim]
  show "mx_owner (wait_sync_lock s) \<noteq> Some t \<Longrightarrow>
      matches (sim rep repc repg) (mutex_lock_on spec_prims t s) (mutex_lock_on (B L) t cs)"
    unfolding spec_steps unfolding mutex_lock_on_def
    by (rule matches_bind [OF p_mutex_lock [OF ok, of "wait_sync_lock cs" t, unfolded r]])
      (simp_all add: sim_wsl [OF sim])
  show "matches (sim rep repc repg) (mutex_unlock_on spec_prims t s) (mutex_unlock_on (B L) t cs)"
    unfolding spec_steps unfolding mutex_unlock_on_def
    by (rule matches_bind [OF p_mutex_unlock [OF ok, of t "wait_sync_lock cs", unfolded r]])
      (simp add: sim_wsl [OF sim])
qed

lemma then_goto:
  assumes "matches (sim rep repc repg) ra rc"
  shows "matches (sim rep repc repg) (obind ra (\<lambda>s. Ret (goto t p s))) (obind rc (\<lambda>s. Ret (goto t p s)))"
  using assms by (rule matches_bind) (simp add: sim_goto)

lemma sim_exec:
  assumes ok: "ok L rep repc repg" and sim: "sim rep repc repg cs s" and fl: "flags (tracks repc) cs"
    and own: "inv_own s" and lk: "inv_locks s"
  shows "matches (sim rep repc repg) (exec cfg t s) (exec_on (B L) cfg t cs)"
proof -
  note e = erase_eqD [OF simD(1) [OF sim]]
  have lock: "mx_owner (w_lock (sync_at s a)) \<noteq> Some t" if "holds (pc s t) \<noteq> Some a" for a
    using that inv_locksD(5) [OF lk] by blast
  have wsl: "mx_owner (wait_sync_lock s) \<noteq> Some t" if "\<not> holds_wsl (pc s t)"
    using that inv_locksD(6) [OF lk] by blast
  have enter: "t \<notin> set (waiters s a)" if "pc s t \<noteq> Wait L83w a" for a
    using that inv_ownD(8) [OF own] by blast
  have sig: "matches (sim rep repc repg) (signal_on spec_prims t a s) (signal_on (B L) t a cs)" for a
    using waiters_one [OF own, of a] sim_signal [OF ok sim] by (blast intro: matches_mono)
  have wait: "matches (sim rep repc repg) (wait_enter_on spec_prims t a s) (wait_enter_on (B L) t a cs)"
    if "pc s t \<noteq> Wait L83w a" for a
    using sim_wait_enter [OF ok sim enter [OF that]] by (rule matches_mono) simp
  have leave: "lock_live s a" "cond_live s a" "tracks repc t (w_condition (sync_at cs a))" if "pc s t = Wait L83w a" for a
    using inv_ownD(2,3) [OF own, of t a] fl that by (simp_all add: flags_def e)
  have add: "matches (sim rep repc repg) (in_progress_add cfg d s) (in_progress_add cfg d cs)" for d
    unfolding in_progress_add_def e by (rule matches_same) (auto simp: sim_upd_data(5) [OF sim])
  have upd: "matches (sim rep repc repg) (exec_upd cfg t a u st k s) (exec_upd cfg t a u st k cs)" for a u st k
    unfolding exec_upd_def e
    by (auto intro!: matches_same matches_goto sim_upd_data [OF sim] simp del: matches_simps)
  have rem: "matches (sim rep repc repg) (obind (wait_list_remove a s) (\<lambda>(n, s). Ret (goto t (f n) s)))
      (obind (wait_list_remove a cs) (\<lambda>(n, s). Ret (goto t (f n) s)))" for a f
    by (rule matches_bind [OF sim_remove [OF sim]]) (auto simp: sim_goto)
  show ?thesis
    by (cases "pc s t" rule: pc_line_cases)
      (auto simp: exec_on_def e completed_def wait_result_def exec_swp_def exec_globat_def
        wsl_lock_on_def wsl_unlock_on_def using_threads_def inv_locksD(1) [OF lk] lock wsl enter leave
        simp del: spec_steps matches_simps(1)
        intro!: then_goto matches_goto sim add upd rem sig sim_upd_data [OF sim] sim_lock [OF ok sim] sim_unlock [OF ok sim] sim_mutex [OF ok sim]
          sim_destroy [OF ok sim] sim_cond_destroy [OF ok sim] wait sim_wait_leave [OF ok sim]
          sim_insert [OF sim])
qed

text \<open>
  The flags stay right: a thread enters the wait with its flag clear, its object's condition
  is used meanwhile only by signalling threads, and a signal sets the flag of the thread it
  removes from the queue.
\<close>

lemma flags_exec:
  assumes ok: "ok L rep repc repg" and sim: "sim rep repc repg cs s" and fl: "flags (tracks repc) cs"
    and own: "inv_own s" and lk: "inv_locks s"
    and ex: "exec cfg t s = Ret s'" "exec_on (B L) cfg t cs = Ret cs'"
  shows "flags (tracks repc) cs'"
  unfolding flags_def
proof (intro allI impI)
  fix u a
  assume u: "pc cs' u = Wait L83w a"
  have e: "pc cs = pc s" "pc cs' = pc s'"
    using sim_exec [OF ok sim fl own lk, of cfg t] ex erase_eqD(4) [OF simD(1)] sim by auto
  show "tracks repc u (w_condition (sync_at cs' a))"
  proof (cases "u = t")
    case True
    with u e exec_enters [OF ex(1)] have p: "pc s t = Wait L83 a" by simp
    then have "t \<notin> set (waiters s a)" using inv_ownD(8) [OF own, of t a] by auto
    from sim_wait_enter [OF ok sim this] p ex True show ?thesis by (auto simp: exec_on_def e)
  next
    case False
    then have w: "pc s u = Wait L83w a" using u e exec_pc [OF ex(1)] by (metis fun_upd_other)
    then have tr: "tracks repc u (w_condition (sync_at cs a))" using fl by (simp add: flags_def e)
    have own': "owns (pc s t) \<noteq> Some a" using inv_ownD(4) [OF own, of t a u] w False by auto
    show ?thesis
    proof (cases "uses_cond (pc s t) = Some a")
      case True
      obtain v where "waiters s a \<in> {[], [v]}" using waiters_one [OF own] by blast
      from sim_signal [OF ok sim this, of t] True own' ex tr show ?thesis
        by (cases "pc s t" rule: pc_line_cases) (auto simp: exec_on_def e)
    next
      case False
      with exec_condition [OF ex(2), of a] tr show ?thesis by (simp add: e)
    qed
  qed
qed

lemma flags_call: "flags tr s \<Longrightarrow> start_call cfg t c s = Some s' \<Longrightarrow> flags tr s'"
  by (cases c) (auto simp: flags_def split: if_splits pc.splits)

lemma sim_reach:
  assumes ok: "ok L rep repc repg" and at: "atomic_lib_ok (cfg_atomics cfg)"
    and init: "\<And>cs. b0 cs \<Longrightarrow> \<exists>c. sim rep repc repg cs (init_machine c)"
    and r: "reach b0 (bstep (B L) repc (tracks repc) cfg) cs"
  shows "\<exists>s. sim rep repc repg cs s \<and> flags (tracks repc) cs \<and> reach wait_init (wstep cfg (exact_client cfg)) s"
  using r
proof (induction rule: reach.induct)
  case (reach_init cs)
  with init obtain c where c: "sim rep repc repg cs (init_machine c)" by blast
  then have "flags (tracks repc) cs" using erase_eqD(4) [OF simD(1) [OF c]] by (simp add: flags_def init_machine_def)
  with c show ?case by (meson reach.intros(1) wait_init_def)
next
  case (reach_step cs cs')
  then obtain s where s: "sim rep repc repg cs s" "flags (tracks repc) cs" "reach wait_init (wstep cfg (exact_client cfg)) s" by blast
  then have inv: "inv_exact cfg s" using ex.reach_inv at by blast
  from reach_step.hyps(2) show ?case
  proof cases
    case (b_run t)
    from inv have ol: "inv_own s" "inv_locks s" by (auto simp: inv_exact_def inv_ring_def)
    from sim_exec [OF ok s(1,2) ol, of cfg t] exact_defined [OF inv at, of t] b_run(2)
    obtain s' where s': "exec cfg t s = Ret s'" "sim rep repc repg cs' s'" by (cases "exec cfg t s") auto
    from flags_exec [OF ok s(1,2) ol s'(1) b_run(2)] s' s(3) b_run(1) show ?thesis
      by (meson reach.intros(2) wstep.run)
  next
    case (b_call t c)
    with sim_call [OF s(1)] sim_client [OF s(1)] flags_call [OF s(2)] s(3) show ?thesis
      by (meson reach.intros(2) wstep.call)
  next
    case (b_wake c' a t)
    from b_wake(1,3) s(2) have "flags (tracks repc) cs'" by (auto simp: flags_def)
    with b_wake sim_wake [OF s(1)] s(3) show ?thesis by (metis reach.intros(2) wstep.wake)
  qed
qed

text \<open>Runs without further calls correspond step by step, and so do the states they end in.\<close>

lemma sim_step:
  assumes ok: "ok L rep repc repg" and at: "atomic_lib_ok (cfg_atomics cfg)"
    and s: "sim rep repc repg cs s" "flags (tracks repc) cs" "reach wait_init (wstep cfg (exact_client cfg)) s"
  shows "exec_on (B L) cfg t cs = Ret cs' \<Longrightarrow> \<exists>s'. exec cfg t s = Ret s' \<and> sim rep repc repg cs' s' \<and> flags (tracks repc) cs'"
    "exec cfg t s = Ret s' \<Longrightarrow> \<exists>cs'. exec_on (B L) cfg t cs = Ret cs' \<and> sim rep repc repg cs' s' \<and> flags (tracks repc) cs'"
    "exec cfg t s = Block \<longleftrightarrow> exec_on (B L) cfg t cs = Block"
proof -
  have inv: "inv_exact cfg s" using ex.reach_inv [OF s(3)] at by blast
  then have ol: "inv_own s" "inv_locks s" by (auto simp: inv_exact_def inv_ring_def)
  note m = sim_exec [OF ok s(1,2) ol, of cfg t] and d = exact_defined [OF inv at, of t]
    and f = flags_exec [OF ok s(1,2) ol, of cfg t]
  show "exec cfg t s = Ret s' \<Longrightarrow> \<exists>cs'. exec_on (B L) cfg t cs = Ret cs' \<and> sim rep repc repg cs' s' \<and> flags (tracks repc) cs'"
    using m f by auto
  show "exec_on (B L) cfg t cs = Ret cs' \<Longrightarrow> \<exists>s'. exec cfg t s = Ret s' \<and> sim rep repc repg cs' s' \<and> flags (tracks repc) cs'"
    using m d f by (cases "exec cfg t s") auto
  show "exec cfg t s = Block \<longleftrightarrow> exec_on (B L) cfg t cs = Block" using m d by (cases "exec cfg t s") auto
qed

lemma sim_moves:
  assumes "b_moves (B L) cfg cs n cs'" "ok L rep repc repg" "atomic_lib_ok (cfg_atomics cfg)"
    and "sim rep repc repg cs s" "flags (tracks repc) cs" "reach wait_init (wstep cfg (exact_client cfg)) s"
  shows "\<exists>s'. moves cfg s n s' \<and> sim rep repc repg cs' s' \<and> flags (tracks repc) cs'"
  using assms
proof (induction rule: b_moves.induct)
  case b_moves_none
  then show ?case by (blast intro: moves_none)
next
  case (b_moves_step cs n cs1 t cs2)
  then obtain s1 where s1: "moves cfg s n s1" "sim rep repc repg cs1 s1" "flags (tracks repc) cs1" by blast
  have r1: "reach wait_init (wstep cfg (exact_client cfg)) s1" by (rule moves_reach [OF s1(1) b_moves_step.prems(5)])
  from sim_step(1) [OF b_moves_step.prems(1,2) s1(2,3) r1 b_moves_step.hyps(3)] obtain s2 where
    s2: "exec cfg t s1 = Ret s2" "sim rep repc repg cs2 s2" "flags (tracks repc) cs2" by blast
  have "pc s2 \<noteq> pc s1"
    using b_moves_step.hyps(4) erase_eqD(4) [OF simD(1) [OF s1(2)]] erase_eqD(4) [OF simD(1) [OF s2(2)]] by auto
  then have "s2 \<noteq> s1" by blast
  from moves_step [OF s1(1) b_moves_step.hyps(2) s2(1) this] s2 show ?case by blast
qed

lemma moves_sim:
  assumes "moves cfg s n s'" "ok L rep repc repg" "atomic_lib_ok (cfg_atomics cfg)"
    and "sim rep repc repg cs s" "flags (tracks repc) cs" "reach wait_init (wstep cfg (exact_client cfg)) s"
  shows "\<exists>cs'. b_moves (B L) cfg cs n cs' \<and> sim rep repc repg cs' s' \<and> flags (tracks repc) cs'"
  using assms
proof (induction rule: moves.induct)
  case moves_none
  then show ?case by (blast intro: b_moves_none)
next
  case (moves_step s n s1 t s2)
  then obtain cs1 where s1: "b_moves (B L) cfg cs n cs1" "sim rep repc repg cs1 s1" "flags (tracks repc) cs1" by blast
  have r1: "reach wait_init (wstep cfg (exact_client cfg)) s1" by (rule moves_reach [OF moves_step.hyps(1) moves_step.prems(5)])
  from sim_step(2) [OF moves_step.prems(1,2) s1(2,3) r1 moves_step.hyps(3)] obtain cs2 where
    s2: "exec_on (B L) cfg t cs1 = Ret cs2" "sim rep repc repg cs2 s2" "flags (tracks repc) cs2" by blast
  have "pc cs2 t \<noteq> pc cs1 t"
    using exec_changes_pc [OF moves_step.hyps(3)] moves_step.hyps(4)
      erase_eqD(4) [OF simD(1) [OF s1(2)]] erase_eqD(4) [OF simD(1) [OF s2(2)]] by auto
  from b_moves_step [OF s1(1) moves_step.hyps(2) s2(1) this] s2 show ?case by blast
qed

lemma sim_settled:
  assumes ok: "ok L rep repc repg" and at: "atomic_lib_ok (cfg_atomics cfg)"
    and s: "sim rep repc repg cs s" "flags (tracks repc) cs" "reach wait_init (wstep cfg (exact_client cfg)) s"
  shows "b_settled (B L) cfg cs \<longleftrightarrow> at_fixpoint cfg s"
proof -
  note st = sim_step [OF ok at s] and e = erase_eqD(4) [OF simD(1)]
  have "(exec cfg t s = Block \<or> exec cfg t s = Ret s) \<longleftrightarrow>
      (exec_on (B L) cfg t cs = Block \<or> (\<exists>cs'. exec_on (B L) cfg t cs = Ret cs' \<and> pc cs' t = pc cs t))" (is "?A \<longleftrightarrow> ?B") for t
  proof
    assume ?A
    then show ?B using st(3) [of t] st(2) [of t s] e [OF s(1)] e by metis
  next
    assume ?B
    then show ?A
    proof
      assume "\<exists>cs'. exec_on (B L) cfg t cs = Ret cs' \<and> pc cs' t = pc cs t"
      then obtain cs' s' where x: "exec cfg t s = Ret s'" "sim rep repc repg cs' s'" "pc cs' t = pc cs t" using st(1) by blast
      with e [OF x(2)] e [OF s(1)] exec_changes_pc [OF x(1)] show ?A by auto
    qed (simp add: st(3))
  qed
  then show ?thesis by (simp add: b_settled_def at_fixpoint_def)
qed

text \<open>So the machine over the backend settles too.\<close>

lemma b_settles:
  assumes ok: "ok L rep repc repg" and at: "atomic_lib_ok (cfg_atomics cfg)"
    and s: "sim rep repc repg cs s" "flags (tracks repc) cs" "reach wait_init (wstep cfg (exact_client cfg)) s"
  shows "b_moves (B L) cfg cs n cs' \<Longrightarrow> n \<le> 26 * cfg_threads cfg"
    "\<exists>n cs'. b_moves (B L) cfg cs n cs' \<and> b_settled (B L) cfg cs'"
    "b_settled (B L) cfg cs \<Longrightarrow> \<not> at_rest (pc cs t) \<Longrightarrow>
      (\<exists>a. (pc cs t = Wait L101 a \<or> pc cs t = Wait L83w a) \<and> 0 < outstanding cs a) \<and> (\<exists>u b. pc cs u = Wait L101 b)"
proof -
  have inv: "inv_exact cfg s" using ex.reach_inv [OF s(3)] at by blast
  show "n \<le> 26 * cfg_threads cfg" if "b_moves (B L) cfg cs n cs'"
  proof -
    from sim_moves [OF that ok at s] obtain s' where "moves cfg s n s'" by blast
    from exact_moves_le [OF this s(3) at] show ?thesis .
  qed
  from run_to_rest [OF s(3) at] obtain m s' where m: "moves cfg s m s'" "at_fixpoint cfg s'" by blast
  with moves_sim [OF m(1) ok at s] sim_settled [OF ok at] moves_reach [OF m(1) s(3)]
  show "\<exists>n cs'. b_moves (B L) cfg cs n cs' \<and> b_settled (B L) cfg cs'" by metis
  assume "b_settled (B L) cfg cs" "\<not> at_rest (pc cs t)"
  with sim_settled [OF ok at s] settled_state(1) [OF inv, of t] erase_eqD(4,6) [OF simD(1) [OF s(1)]]
  show "(\<exists>a. (pc cs t = Wait L101 a \<or> pc cs t = Wait L83w a) \<and> 0 < outstanding cs a) \<and> (\<exists>u b. pc cs u = Wait L101 b)"
    by simp
qed

text \<open>What the abstract machine never does, or always can do, holds of the concrete one.\<close>

lemma sim_defined:
  assumes ok: "ok L rep repc repg" and at: "atomic_lib_ok (cfg_atomics cfg)"
    and s: "sim rep repc repg cs s" "flags (tracks repc) cs" "reach wait_init (wstep cfg (exact_client cfg)) s"
  shows "exec_on (B L) cfg t cs \<noteq> UB \<and> exec_on (B L) cfg t cs \<noteq> AssertFail"
    "\<not> at_rest (pc cs t) \<Longrightarrow> \<exists>u cs'. u < cfg_threads cfg \<and> exec_on (B L) cfg u cs = Ret cs'"
proof -
  have inv: "inv_exact cfg s" using ex.reach_inv [OF s(3)] at by blast
  then have rg: "inv_ring s" "inv_tids cfg s" and ol: "inv_own s" "inv_locks s"
    by (auto simp: inv_exact_def inv_ring_def)
  note m = sim_exec [OF ok s(1,2) ol] and d = exact_defined [OF inv at]
  show "exec_on (B L) cfg t cs \<noteq> UB \<and> exec_on (B L) cfg t cs \<noteq> AssertFail"
    using m [of cfg t] d [of t] by (cases "exec cfg t s") auto
  assume "\<not> at_rest (pc cs t)"
  then have "\<not> at_rest (pc s t)" using erase_eqD(4) [OF simD(1) [OF s(1)]] by simp
  from deadlock_free [OF rg this] obtain u where "u < cfg_threads cfg" "exec cfg u s \<noteq> Block" by blast
  with m [of cfg u] d [of u] show "\<exists>u cs'. u < cfg_threads cfg \<and> exec_on (B L) cfg u cs = Ret cs'"
    by (cases "exec cfg u s") auto
qed

lemma sim_no_lost_completion:
  assumes "ok L rep repc repg" and at: "atomic_lib_ok (cfg_atomics cfg)"
    and s: "sim rep repc repg cs s" "reach wait_init (wstep cfg (exact_client cfg)) s"
    and t: "pc cs t = Wait L83w a" "t \<in> set (cv_waiters (repc (w_condition (sync_at cs a))))" "completed cs a"
  shows "\<exists>u<cfg_threads cfg. will_signal (pc cs u) = Some a"
proof -
  have inv: "inv_exact cfg s" using ex.reach_inv [OF s(2)] at by blast
  note e = erase_eqD [OF simD(1) [OF s(1)]]
  have "cond_live s a" using inv t(1) inv_ownD(3) [of s t a] e(4) by (auto simp: inv_exact_def inv_ring_def)
  with simD(4) [OF s(1), of a] t e have "sleepy s t a" "completed s a"
    by (auto simp: sleepy_def completed_def)
  with inv inv_doneD(1) [of s t a] obtain u where "will_signal (pc s u) = Some a" by (auto simp: inv_exact_def)
  moreover from this inv have "u < cfg_threads cfg" by (cases "pc s u") (auto simp: inv_exact_def inv_tids_def)
  ultimately show ?thesis using e(4) by auto
qed

end

section \<open>Backends\<close>

text \<open>The functions of a backend, without the events they log.\<close>

definition backend_prims :: "'m mutex_ops \<Rightarrow> ('c, 'm) cond_ops \<Rightarrow> ('c, 'm, ('m, 'a) mutex_t) prims" where
  "backend_prims B C = \<lparr>p_lock = (\<lambda>t m. drop_log (ti_mutex_lock B t m)), p_unlock = (\<lambda>t m. drop_log (ti_mutex_unlock B t m)),
     p_destroy = (\<lambda>m. drop_log (ti_mutex_destroy B m)), p_signal = (\<lambda>t c. drop_log (ti_cond_signal C t c)),
     p_wait_enter = (\<lambda>t c m. drop_log (ti_cond_wait_enter C t c m)),
     p_wait_leave = (\<lambda>t c m. drop_log (ti_cond_wait_leave C t c m)),
     p_cond_destroy = (\<lambda>c. drop_log (ti_cond_destroy C c)),
     p_mutex_lock = (\<lambda>t g. drop_log (mutex_lock B t g)), p_mutex_unlock = (\<lambda>t g. drop_log (mutex_unlock B t g))\<rparr>"

locale wait_backend = M: mutex_backend mops mok init_ok + C: cond_backend cops cok tracks
  for mops :: "'l \<Rightarrow> 'm mutex_ops" and mok init_ok and cops :: "'l \<Rightarrow> ('c, 'm) cond_ops" and cok tracks +
  assumes init_plain: "mok L rep \<Longrightarrow> init_ok L False"

definition all_ok :: "('l \<Rightarrow> ('m \<Rightarrow> amutex) \<Rightarrow> bool) \<Rightarrow> ('l \<Rightarrow> ('c \<Rightarrow> acond) \<Rightarrow> ('m \<Rightarrow> amutex) \<Rightarrow> bool) \<Rightarrow>
    'l \<Rightarrow> ('m \<Rightarrow> amutex) \<Rightarrow> ('c \<Rightarrow> acond) \<Rightarrow> (('m, 'a) mutex_t \<Rightarrow> amutex) \<Rightarrow> bool" where
  "all_ok mok cok L rep repc repg \<longleftrightarrow> mok L rep \<and> cok L repc rep \<and> repg = (\<lambda>g. rep (mutex_m_lock g))"

lemma sole_signal:
  assumes "wakes_one c c'" "cv_waiters c \<in> {[], [u]}" "cv_live c"
  shows "c' = c\<lparr>cv_waiters := tl (cv_waiters c)\<rparr>"
proof -
  have "cv_waiters c' = []" using assms by (cases "cv_waiters c'") (auto simp: wakes_one_def)
  with assms show ?thesis by (auto simp: wakes_one_def)
qed

sublocale wait_backend \<subseteq> prims: prim_backend "\<lambda>L. backend_prims (mops L) (cops L)" "all_ok mok cok" tracks
proof (unfold_locales, goal_cases)
  case (1 L rep repc repg m t)
  then show ?case unfolding backend_prims_def all_ok_def
    by (auto intro!: matches_drop_log dest: M.lock_law M.lock_waits)
next
  case (2 L rep repc repg t m)
  then show ?case unfolding backend_prims_def all_ok_def
    by (auto intro!: matches_drop_log dest: M.unlock_law simp: never_waits)
next
  case (3 L rep repc repg m)
  then show ?case unfolding backend_prims_def all_ok_def
    by (auto intro!: matches_drop_log dest: M.destroy_law simp: never_waits)
next
  case (4 L rep repc repg c u t)
  then have ok: "cok L repc rep" by (simp add: all_ok_def)
  show ?case unfolding backend_prims_def prims.select_convs
  proof (rule matches_drop_log)
    fix a
    assume a: "acond_signal (repc c) = Ret a"
    then have live: "cv_live (repc c)" "a = (repc c)\<lparr>cv_waiters := tl (cv_waiters (repc c))\<rparr>"
      by (auto simp: acond_signal_def split: if_splits)
    have "distinct (cv_waiters (repc c))" using 4(2) by auto
    from C.signal_law [OF ok live(1) this, of t] sole_signal [OF _ 4(2) live(1)] live(2)
    show "\<exists>x ev. ti_cond_signal (cops L) t c = Ret (x, ev) \<and> repc x = a \<and> (\<forall>v. tracks repc v c \<longrightarrow> tracks repc v x)"
      by metis
  qed (simp add: never_waits)
next
  case (5 L rep repc repg t c m)
  then show ?case unfolding backend_prims_def all_ok_def
    by (auto intro!: matches_drop_log dest!: C.wait_enter_law simp: never_waits)
next
  case (6 L rep repc repg t c m)
  then show ?case unfolding backend_prims_def all_ok_def
    by (auto intro!: matches_drop_log dest: C.wait_leave_law C.wait_leave_waits)
next
  case (7 L rep repc repg c)
  then show ?case unfolding backend_prims_def all_ok_def
    by (auto intro!: matches_drop_log dest: C.cond_destroy_law simp: never_waits)
next
  case (8 L rep repc repg g t)
  then show ?case unfolding backend_prims_def all_ok_def
    by (auto intro!: matches_drop_log dest: M.lock_law M.lock_waits simp: mutex_lock_def on_m_lock_def)
next
  case (9 L rep repc repg t g)
  then show ?case unfolding backend_prims_def all_ok_def
    by (auto intro!: matches_drop_log dest: M.unlock_law simp: never_waits mutex_unlock_def on_m_lock_def)
qed

text \<open>
  What is shown of a state the machine over a backend can reach: no step is undefined and no
  assertion fails; whenever a thread is inside a call some thread can take a step; a wait
  that has returned reports success and all its operations have been reported; a thread
  that sleeps on a complete object has a signal on its way; and without further calls the
  machine settles, after at most 26 moves per thread, in a state in which each thread inside
  a call waits for operations that nobody has reported while some thread calls \<open>progress()\<close>.
\<close>

definition wait_correct :: "('c, 'm, 'g) prims \<Rightarrow> ('c \<Rightarrow> acond) \<Rightarrow> wait_cfg \<Rightarrow> ('c, 'm, 'g) machine \<Rightarrow> bool" where
  "wait_correct P repc cfg cs \<longleftrightarrow>
    (\<forall>t. exec_on P cfg t cs \<notin> {UB, AssertFail}) \<and>
    (\<forall>t. \<not> at_rest (pc cs t) \<longrightarrow> (\<exists>u cs'. u < cfg_threads cfg \<and> exec_on P cfg u cs = Ret cs')) \<and>
    (\<forall>t a r. pc cs t = Returned a r \<longrightarrow> r = SUCCESS \<and> outstanding cs a \<le> 0) \<and>
    (\<forall>t a. pc cs t = Wait L83w a \<longrightarrow> t \<in> set (cv_waiters (repc (w_condition (sync_at cs a)))) \<longrightarrow> completed cs a \<longrightarrow>
       (\<exists>u<cfg_threads cfg. will_signal (pc cs u) = Some a)) \<and>
    (\<forall>n cs'. b_moves P cfg cs n cs' \<longrightarrow> n \<le> 26 * cfg_threads cfg) \<and>
    (\<exists>n cs'. b_moves P cfg cs n cs' \<and> b_settled P cfg cs') \<and>
    (b_settled P cfg cs \<longrightarrow> (\<forall>t. \<not> at_rest (pc cs t) \<longrightarrow>
       (\<exists>a. (pc cs t = Wait L101 a \<or> pc cs t = Wait L83w a) \<and> 0 < outstanding cs a) \<and> (\<exists>u b. pc cs u = Wait L101 b)))"

context wait_backend
begin

lemma backend_sim:
  assumes ok: "mok L rep" "cok L repc rep" and at: "atomic_lib_ok (cfg_atomics cfg)"
    and r: "reach (b_init (mops L) (cops L) (\<lambda>g. rep (mutex_m_lock g))) (bstep (backend_prims (mops L) (cops L)) repc (tracks repc) cfg) cs"
  shows "\<exists>s. sim rep repc (\<lambda>g. rep (mutex_m_lock g)) cs s \<and> flags (tracks repc) cs \<and> reach wait_init (wstep cfg (exact_client cfg)) s"
proof (rule prims.sim_reach [OF _ at _ r])
  show "all_ok mok cok L rep repc (\<lambda>g. rep (mutex_m_lock g))" using ok by (simp add: all_ok_def)
next
  fix cs0
  assume "b_init (mops L) (cops L) (\<lambda>g. rep (mutex_m_lock g)) cs0"
  then show "\<exists>c. sim rep repc (\<lambda>g. rep (mutex_m_lock g)) cs0 (init_machine c)"
    using M.init_law [OF ok(1) init_plain [OF ok(1)], unfolded fresh_plain] C.cond_init_law [OF ok(2)]
    unfolding b_init_def by (blast intro: sim_init)
qed

lemma backend_correct:
  assumes ok: "mok L rep" "cok L repc rep" and at: "atomic_lib_ok (cfg_atomics cfg)"
    and r: "reach (b_init (mops L) (cops L) (\<lambda>g. rep (mutex_m_lock g))) (bstep (backend_prims (mops L) (cops L)) repc (tracks repc) cfg) cs"
  shows "wait_correct (backend_prims (mops L) (cops L)) repc cfg cs"
proof -
  have all: "all_ok mok cok L rep repc (\<lambda>g. rep (mutex_m_lock g))" using ok by (simp add: all_ok_def)
  from backend_sim [OF assms] obtain s where
    s: "sim rep repc (\<lambda>g. rep (mutex_m_lock g)) cs s" "flags (tracks repc) cs" "reach wait_init (wstep cfg (exact_client cfg)) s" by blast
  have "pc cs t = Returned a r \<Longrightarrow> r = SUCCESS \<and> outstanding cs a \<le> 0" for t a r
    using returned_complete ex.reach_inv [OF s(3)] at erase_eqD(4,6) [OF simD(1) [OF s(1)]] by metis
  then show ?thesis unfolding wait_correct_def
    using prims.sim_defined [OF all at s] prims.sim_no_lost_completion [OF all at s(1,3)] prims.b_settles [OF all at s]
    by (intro conjI) (simp, blast+)
qed

end

interpretation ptw: wait_backend "pthreads_mutex_ops debug" pthread_mutex_ok "pt_init_ok debug"
  "pthreads_cond_ops debug" pthread_cond_ok "\<lambda>_ _ _. True" for debug
  by unfold_locales (simp add: pt_init_ok_def)

interpretation abtw: wait_backend "argobots_mutex_ops debug" abt_mutex_ok "\<lambda>_ _. True"
  "argobots_cond_ops debug" abt_cond_ok "\<lambda>_ _ _. True" for debug
  by unfold_locales simp

interpretation qtw: wait_backend "qthreads_mutex_ops debug" qthread_mutex_ok "\<lambda>_ _. True"
  "qthreads_cond_ops debug" "\<lambda>L repc rep. qthread_mutex_ok L rep \<and> repc = qt_repc rep" qt_tracks for debug
  by unfold_locales simp

section \<open>Runs\<close>

fun b_schedule :: "('c, 'm, 'g) prims \<Rightarrow> wait_cfg \<Rightarrow> action list \<Rightarrow> ('c, 'm, 'g) machine \<Rightarrow> ('c, 'm, 'g) machine option" where
  "b_schedule P cfg [] s = Some s"
| "b_schedule P cfg (Run t # xs) s =
     (case exec_on P cfg t s of Ret s' \<Rightarrow> if t < cfg_threads cfg then b_schedule P cfg xs s' else None | _ \<Rightarrow> None)"
| "b_schedule P cfg (Call t c # xs) s =
     (if t < cfg_threads cfg \<and> exact_client cfg s c
      then case start_call cfg t c s of None \<Rightarrow> None | Some s' \<Rightarrow> b_schedule P cfg xs s' else None)"

lemma b_schedule_reach:
  "b_schedule P cfg xs s = Some s' \<Longrightarrow> reach init (bstep P repc tr cfg) s \<Longrightarrow> reach init (bstep P repc tr cfg) s'"
  by (induction P cfg xs s rule: b_schedule.induct)
    (auto split: outcome.splits if_splits option.splits intro: reach.reach_step b_run b_call)

lemma b_schedule_start:
  assumes "b_schedule P cfg xs s = Some s'" "b_init B C repg s"
  shows "reach (b_init B C repg) (bstep P repc tr cfg) s'"
  by (rule b_schedule_reach [OF assms(1) reach.reach_init]) (rule assms(2))

type_synonym 'c demo_machine = "('c, amutex, (amutex, unit) mutex_t) machine"

lemma map_option_eq_SomeE:
  assumes "map_option f x = Some y"
  obtains z where "f z = y" "x = Some z"
  using assms by (cases x) auto

text \<open>Two objects with one operation each, on a backend whose fresh conditions are \<open>c\<close>.\<close>

definition demo_start :: "'c \<Rightarrow> 'c demo_machine" where
  "demo_start c = \<lparr>uses_threads = True,
     sync_at = (\<lambda>a. \<lparr>w_count = 1, w_status = 0, w_condition = c, w_lock = amutex_init False,
                    w_next = None, w_prev = None, w_signaling = True\<rparr>),
     threads_base_wait_sync_list = None, wait_sync_lock = MUTEX_STATIC_INIT (amutex_init False) demo_atomic_lock,
     num_thread_in_progress = 0, pc = (\<lambda>_. Idle), waited = {}, outstanding = (\<lambda>a. 1)\<rparr>"

lemma demo_start_erase: "erase (demo_start c) = erase (init_machine (\<lambda>_. 1))"
  by (simp add: erase_def erase_obj_def demo_start_def init_machine_def fun_eq_iff)

lemma demo_start_init:
  assumes "ti_mutex_init B False (amutex_init False) = Ret ((SUCCESS, amutex_init False), ev)"
    and "ti_cond_init C c = Ret ((SUCCESS, c), ev')"
  shows "b_init B C (\<lambda>g. id (mutex_m_lock g)) (demo_start c)"
  using assms demo_start_erase [of c] unfolding b_init_def
  by (auto simp: demo_start_def MUTEX_STATIC_INIT_def)

lemma demo_run:
  assumes "map_option (\<lambda>s. map (pc s) [0, 1, 2]) (b_schedule (backend_prims B C) cfg xs (demo_start (c :: 'c))) = Some ps"
    and "ti_mutex_init B False (amutex_init False) = Ret ((SUCCESS, amutex_init False), ev)"
    and "ti_cond_init C c = Ret ((SUCCESS, c), ev')"
  shows "\<exists>cs :: 'c demo_machine. reach (b_init B C (\<lambda>g. id (mutex_m_lock g))) (bstep (backend_prims B C) repc tr cfg) cs \<and>
    map (pc cs) [0, 1, 2] = ps"
proof -
  from assms(1) obtain z where z: "map (pc z) [0, 1, 2] = ps"
    and b: "b_schedule (backend_prims B C) cfg xs (demo_start c) = Some z"
    by (rule map_option_eq_SomeE)
  show ?thesis
    by (rule exI [of _ z], rule conjI, rule b_schedule_start [OF b demo_start_init [OF assms(2,3)]], rule z)
qed

definition demo_qt_cond :: "amutex cond_mem" where
  "demo_qt_cond = (\<lparr>m_lock = amutex_init False, m_waiter_head = None, m_waiter_tail = None\<rparr>,
     \<lambda>_. \<lparr>m_signaled = 7, m_prev = None\<rparr>)"

lemma demo_pthreads:
  "\<exists>cs :: acond demo_machine. reach (b_init (pthreads_mutex_ops True (ref_pthreads True)) (pthreads_cond_ops True (ref_pthreads True)) (\<lambda>g. id (mutex_m_lock g)))
     (bstep (backend_prims (pthreads_mutex_ops True (ref_pthreads True)) (pthreads_cond_ops True (ref_pthreads True))) id (\<lambda>_ _. True) demo_cfg) cs \<and>
     map (pc cs) [0, 1, 2] = [Returned 10 SUCCESS, Idle, Sig S52 10 KReturn]"
proof (rule demo_run)
  show "map_option (\<lambda>s. map (pc s) [0, 1, 2]) (b_schedule
        (backend_prims (pthreads_mutex_ops True (ref_pthreads True)) (pthreads_cond_ops True (ref_pthreads True)))
        demo_cfg full_schedule (demo_start acond_init)) = Some [Returned 10 SUCCESS, Idle, Sig S52 10 KReturn]"
    by code_simp
qed (simp_all add: pthreads_mutex_ops_def thread_internal_mutex_init_pt_def
        pthreads_cond_ops_def thread_internal_cond_init_pt_def ref_pthreads_def)

lemma demo_argobots:
  "\<exists>cs :: acond demo_machine. reach (b_init (argobots_mutex_ops False ref_argobots) (argobots_cond_ops False ref_argobots) (\<lambda>g. id (mutex_m_lock g)))
     (bstep (backend_prims (argobots_mutex_ops False ref_argobots) (argobots_cond_ops False ref_argobots)) id (\<lambda>_ _. True) demo_cfg) cs \<and>
     map (pc cs) [0, 1, 2] = [Wait L101 10, Wait L83w 11, Sig S52 11 KReturn]"
proof (rule demo_run)
  show "map_option (\<lambda>s. map (pc s) [0, 1, 2]) (b_schedule
        (backend_prims (argobots_mutex_ops False ref_argobots) (argobots_cond_ops False ref_argobots))
        demo_cfg exact_schedule (demo_start acond_init)) = Some [Wait L101 10, Wait L83w 11, Sig S52 11 KReturn]"
    by code_simp
qed (simp_all add: argobots_mutex_ops_def thread_internal_mutex_init_abt_def
        argobots_cond_ops_def thread_internal_cond_init_abt_def ref_argobots_def)

lemma demo_qthreads:
  "\<exists>cs :: amutex cond_mem demo_machine. reach (b_init (qthreads_mutex_ops True ref_qthreads) (qthreads_cond_ops True ref_qthreads) (\<lambda>g. id (mutex_m_lock g)))
     (bstep (backend_prims (qthreads_mutex_ops True ref_qthreads) (qthreads_cond_ops True ref_qthreads)) (qt_repc id) (qt_tracks (qt_repc id)) demo_cfg) cs \<and>
     map (pc cs) [0, 1, 2] = [Wait L101 10, Wait L83w 11, Sig S52 11 KReturn]"
proof (rule demo_run)
  show "map_option (\<lambda>s. map (pc s) [0, 1, 2]) (b_schedule
        (backend_prims (qthreads_mutex_ops True ref_qthreads) (qthreads_cond_ops True ref_qthreads))
        demo_cfg exact_schedule (demo_start demo_qt_cond)) = Some [Wait L101 10, Wait L83w 11, Sig S52 11 KReturn]"
    by code_simp
qed (simp_all add: qthreads_mutex_ops_def thread_internal_mutex_init_qt_def demo_qt_cond_def
        qthreads_cond_ops_def thread_internal_cond_init_qt_def ref_qthreads_def)

section \<open>Properties\<close>

text \<open>
  C4. Composed with the pthreads backend, in debug and release builds, the wait list is
  correct: no step is undefined and no assertion fails, whenever a thread is inside a call
  some thread can take a step, a wait that has returned reports success and all its
  operations have been reported, a thread that sleeps on a complete object has a signal on
  its way, and without further calls the machine settles with no wait left open whose
  operations have all been reported.
\<close>

theorem pthreads_wait_correct:
  assumes "pthread_mutex_ok L rep" "pthread_cond_ok L repc rep" "atomic_lib_ok (cfg_atomics cfg)"
    and "P = backend_prims (pthreads_mutex_ops debug L) (pthreads_cond_ops debug L)"
    and "reach (b_init (pthreads_mutex_ops debug L) (pthreads_cond_ops debug L) (\<lambda>g. rep (mutex_m_lock g)))
      (bstep P repc (\<lambda>_ _. True) cfg) cs"
  shows "wait_correct P repc cfg cs"
  unfolding assms(4) by (rule ptw.backend_correct [OF assms(1-3) assms(5) [unfolded assms(4)]])

theorem pthreads_wait_correct_witness:
  "\<exists>cs :: acond demo_machine. pc cs 0 = Returned 10 SUCCESS \<and> outstanding cs 10 \<le> 0 \<and>
     exec_on (backend_prims (pthreads_mutex_ops True (ref_pthreads True)) (pthreads_cond_ops True (ref_pthreads True))) demo_cfg 2 cs
       \<notin> {UB, AssertFail}"
proof -
  from demo_pthreads obtain cs :: "acond demo_machine" where
    r: "reach (b_init (pthreads_mutex_ops True (ref_pthreads True)) (pthreads_cond_ops True (ref_pthreads True)) (\<lambda>g. id (mutex_m_lock g)))
     (bstep (backend_prims (pthreads_mutex_ops True (ref_pthreads True)) (pthreads_cond_ops True (ref_pthreads True))) id (\<lambda>_ _. True) demo_cfg) cs"
    and p: "pc cs 0 = Returned 10 SUCCESS" by auto
  from pthreads_wait_correct [OF ref_pthreads_ok ref_pthreads_cond_ok demo_atomics_ok refl r] p show ?thesis
    unfolding wait_correct_def by blast
qed

text \<open>
  C5. The same of the wait list composed with the Argobots backend, whose locks and
  conditions are never destroyed.
\<close>

theorem argobots_wait_correct:
  assumes "abt_mutex_ok L rep" "abt_cond_ok L repc rep" "atomic_lib_ok (cfg_atomics cfg)"
    and "P = backend_prims (argobots_mutex_ops debug L) (argobots_cond_ops debug L)"
    and "reach (b_init (argobots_mutex_ops debug L) (argobots_cond_ops debug L) (\<lambda>g. rep (mutex_m_lock g)))
      (bstep P repc (\<lambda>_ _. True) cfg) cs"
  shows "wait_correct P repc cfg cs"
  unfolding assms(4) by (rule abtw.backend_correct [OF assms(1-3) assms(5) [unfolded assms(4)]])

theorem argobots_wait_correct_witness:
  "\<exists>(cs :: acond demo_machine) u cs'. pc cs 1 = Wait L83w 11 \<and>
     exec_on (backend_prims (argobots_mutex_ops False ref_argobots) (argobots_cond_ops False ref_argobots)) demo_cfg u cs = Ret cs'"
proof -
  from demo_argobots obtain cs :: "acond demo_machine" where
    r: "reach (b_init (argobots_mutex_ops False ref_argobots) (argobots_cond_ops False ref_argobots) (\<lambda>g. id (mutex_m_lock g)))
     (bstep (backend_prims (argobots_mutex_ops False ref_argobots) (argobots_cond_ops False ref_argobots)) id (\<lambda>_ _. True) demo_cfg) cs"
    and p: "pc cs 1 = Wait L83w 11" by auto
  then have "\<not> at_rest (pc cs 1)" by simp
  with argobots_wait_correct [OF ref_argobots_ok ref_argobots_cond_ok demo_atomics_ok refl r] p show ?thesis
    unfolding wait_correct_def by blast
qed

text \<open>
  C6. The same of the wait list composed with the Qthreads backend, whose condition variables
  are queues of waiters on the stacks of the waiting threads: a thread that waits polls its
  flag under the mutex, and the flag is set exactly when a signal has removed it from the
  queue.
\<close>

theorem qthreads_wait_correct:
  assumes "qthread_mutex_ok L rep" "atomic_lib_ok (cfg_atomics cfg)"
    and "P = backend_prims (qthreads_mutex_ops debug L) (qthreads_cond_ops debug L)"
    and "reach (b_init (qthreads_mutex_ops debug L) (qthreads_cond_ops debug L) (\<lambda>g. rep (mutex_m_lock g)))
      (bstep P (qt_repc rep) (qt_tracks (qt_repc rep)) cfg) cs"
  shows "wait_correct P (qt_repc rep) cfg cs"
  unfolding assms(3) by (rule qtw.backend_correct [OF assms(1) conjI [OF assms(1) refl] assms(2) assms(4) [unfolded assms(3)]])

theorem qthreads_wait_correct_witness:
  "\<exists>(cs :: amutex cond_mem demo_machine) u cs'. pc cs 1 = Wait L83w 11 \<and>
     exec_on (backend_prims (qthreads_mutex_ops True ref_qthreads) (qthreads_cond_ops True ref_qthreads)) demo_cfg u cs = Ret cs'"
proof -
  from demo_qthreads obtain cs :: "amutex cond_mem demo_machine" where
    r: "reach (b_init (qthreads_mutex_ops True ref_qthreads) (qthreads_cond_ops True ref_qthreads) (\<lambda>g. id (mutex_m_lock g)))
     (bstep (backend_prims (qthreads_mutex_ops True ref_qthreads) (qthreads_cond_ops True ref_qthreads)) (qt_repc id) (qt_tracks (qt_repc id)) demo_cfg) cs"
    and p: "pc cs 1 = Wait L83w 11" by auto
  then have "\<not> at_rest (pc cs 1)" by simp
  with qthreads_wait_correct [OF ref_qthreads_ok demo_atomics_ok refl r] p show ?thesis
    unfolding wait_correct_def by blast
qed

end
