(* ===== verification/Wait_Alone.thy ===== *)
theory Wait_Alone
  imports Wait_Inv
begin

text \<open>
  The two models of one piece of code agree. \<open>Wait_Sync\<close> has \<open>wait_sync_update\<close>, the global
  wake-up and \<open>WAIT_SYNC_RELEASE\<close> as functions; \<open>Wait_Machine\<close> has them line by line. A thread
  of the machine that runs to the end of such a call while no other thread runs does exactly
  what the function does, whatever the state: it returns with the same state, waits, is
  undefined, or never ends.
\<close>

section \<open>A thread that runs alone\<close>

fun finished :: "pc \<Rightarrow> bool" where
  "finished Idle = True"
| "finished (Returned a r) = True"
| "finished (Released a) = True"
| "finished _ = False"

partial_function (option) solo :: "wait_cfg \<Rightarrow> tid \<Rightarrow> wait_machine \<Rightarrow> wait_machine outcome option" where
  "solo cfg t s =
     (if finished (pc s t) then Some (Ret s)
      else case exec cfg t s of
             Ret s' \<Rightarrow> solo cfg t s'
           | Block \<Rightarrow> Some Block | AssertFail \<Rightarrow> Some AssertFail | UB \<Rightarrow> Some UB)"

text \<open>Running on from the outcome of a step.\<close>

definition carry_on :: "wait_cfg \<Rightarrow> tid \<Rightarrow> wait_machine outcome \<Rightarrow> wait_machine outcome option" where
  "carry_on cfg t r = (case r of Ret s \<Rightarrow> solo cfg t s | Block \<Rightarrow> Some Block | AssertFail \<Rightarrow> Some AssertFail | UB \<Rightarrow> Some UB)"

lemma carry_on_simps [simp]:
  "carry_on cfg t (Ret s) = solo cfg t s" "carry_on cfg t Block = Some Block"
  "carry_on cfg t AssertFail = Some AssertFail" "carry_on cfg t UB = Some UB"
  by (simp_all add: carry_on_def)

lemma solo_finished: "finished (pc s t) \<Longrightarrow> solo cfg t s = Some (Ret s)"
  by (subst solo.simps) simp

lemma solo_step: "\<not> finished (pc s t) \<Longrightarrow> solo cfg t s = carry_on cfg t (exec cfg t s)"
  by (subst solo.simps) (simp add: carry_on_def)

lemma carry_on_bind: "carry_on cfg t (obind r f) =
    (case r of Ret x \<Rightarrow> carry_on cfg t (f x) | Block \<Rightarrow> Some Block | AssertFail \<Rightarrow> Some AssertFail | UB \<Rightarrow> Some UB)"
  by (cases r) simp_all

lemma carry_on_cong: "(\<And>x. r = Ret x \<Longrightarrow> carry_on cfg t (f x) = carry_on cfg t (g x)) \<Longrightarrow>
    carry_on cfg t (obind r f) = carry_on cfg t (obind r g)"
  by (cases r) simp_all

section \<open>The operations do not look at the positions\<close>

lemma goto_goto [simp]: "goto t p (goto t q s) = goto t p s"
  by (simp add: goto_def)

lemma upd_sync_goto: "upd_sync a f (goto t p s) = goto t p (upd_sync a f s)"
  by (simp add: upd_sync_def goto_def)

lemma wsl_goto: "(goto t p s)\<lparr>wait_sync_lock := m\<rparr> = goto t p (s\<lparr>wait_sync_lock := m\<rparr>)"
  by (simp add: goto_def)

lemma ops_goto:
  "sync_lock u a (goto t p s) = obind (sync_lock u a s) (\<lambda>s. Ret (goto t p s))"
  "sync_unlock u a (goto t p s) = obind (sync_unlock u a s) (\<lambda>s. Ret (goto t p s))"
  "sync_signal a (goto t p s) = obind (sync_signal a s) (\<lambda>s. Ret (goto t p s))"
  by (simp_all add: sync_lock_def sync_unlock_def sync_signal_def obind_assoc upd_sync_goto)

lemma exec_goto: "exec cfg t (goto t p s) = (case p of
        Idle \<Rightarrow> Block
      | Wait l a \<Rightarrow> exec_wait spec_prims cfg t l a (goto t p s)
      | Pass q a b \<Rightarrow> exec_pass spec_prims t q a b (goto t p s)
      | Returned a r \<Rightarrow> Block
      | Upd a u st k \<Rightarrow> exec_upd cfg t a u st k (goto t p s)
      | Swp a k \<Rightarrow> exec_swp cfg t a k (goto t p s)
      | Sig l a k \<Rightarrow> exec_sig spec_prims t l a k (goto t p s)
      | Glob g st \<Rightarrow> exec_glob spec_prims t g st (goto t p s)
      | GlobAt st a \<Rightarrow> exec_globat t st a (goto t p s)
      | Rel r a \<Rightarrow> exec_rel spec_prims t r a (goto t p s)
      | Released a \<Rightarrow> Block)"
  by (simp add: exec_on_def split: pc.split)

lemma solo_goto: "\<not> finished p \<Longrightarrow> solo cfg t (goto t p s) = carry_on cfg t (exec cfg t (goto t p s))"
  by (rule solo_step) simp

section \<open>Signals and updates\<close>

lemma solo_sig:
  "solo cfg t (goto t (Sig S52 a k) s) = carry_on cfg t (obind (WAIT_SYNC_SIGNAL t a s) (\<lambda>s. Ret (goto t (cont_pc a k) s)))"
proof (cases "using_threads (uses_threads s)")
  case True
  have 55: "solo cfg t (goto t (Sig S55 a k) s) =
      solo cfg t (goto t (cont_pc a k) (upd_sync a (\<lambda>w. w\<lparr>w_signaling := False\<rparr>) s))" for s
    by (simp add: solo_goto exec_goto upd_sync_goto)
  have 54: "solo cfg t (goto t (Sig S54 a k) s) = carry_on cfg t (obind (sync_unlock t a s)
      (\<lambda>s. Ret (goto t (cont_pc a k) (upd_sync a (\<lambda>w. w\<lparr>w_signaling := False\<rparr>) s))))" for s
    by (simp add: solo_goto exec_goto ops_goto obind_assoc) (simp add: carry_on_bind 55 split: outcome.split)
  have 53: "solo cfg t (goto t (Sig S53 a k) s) = carry_on cfg t (obind (sync_signal a s) (\<lambda>s. obind (sync_unlock t a s)
      (\<lambda>s. Ret (goto t (cont_pc a k) (upd_sync a (\<lambda>w. w\<lparr>w_signaling := False\<rparr>) s)))))" for s
    by (simp add: solo_goto exec_goto ops_goto obind_assoc) (simp add: carry_on_bind 54 split: outcome.split)
  from True show ?thesis
    by (simp add: solo_goto exec_goto ops_goto obind_assoc WAIT_SYNC_SIGNAL_def)
      (simp add: carry_on_bind 53 split: outcome.split)
qed (simp add: solo_goto exec_goto WAIT_SYNC_SIGNAL_def)

lemma solo_upd:
  "solo cfg t (goto t (Upd a u st k) s) =
     carry_on cfg t (obind (wait_sync_update cfg t a u st s) (\<lambda>s. Ret (goto t (cont_pc a k) s)))"
proof (cases "cfg_SUCCESS cfg = st")
  case True
  then show ?thesis
    by (simp add: solo_goto exec_goto exec_upd_def wait_sync_update_def obind_assoc upd_sync_goto Let_def)
      (auto intro!: carry_on_cong simp: solo_sig)
next
  case False
  have "solo cfg t (goto t (Swp a k) s) = solo cfg t (goto t (Sig S52 a k)
      (upd_sync a (\<lambda>w. w\<lparr>w_count := fst (atomic_swap (cfg_atomics cfg) (w_count w) 0)\<rparr>) s))" for s
    by (simp add: solo_goto exec_goto exec_swp_def upd_sync_goto)
  with False show ?thesis
    by (simp add: solo_goto exec_goto exec_upd_def wait_sync_update_def upd_sync_goto Let_def solo_sig)
qed

lemma solo_rel:
  "solo cfg t (goto t (Rel R34 a) s) = carry_on cfg t (obind (WAIT_SYNC_RELEASE a s) (\<lambda>s. Ret (goto t (Released a) s)))"
proof (cases "using_threads (uses_threads s) \<and> \<not> w_signaling (sync_at s a)")
  case True
  have 41: "solo cfg t (goto t (Rel R41 a) s) = carry_on cfg t (obind (amutex_destroy (w_lock (sync_at s a)))
      (\<lambda>m. Ret (goto t (Released a) (upd_sync a (\<lambda>w. w\<lparr>w_lock := m\<rparr>) s))))" for s
    by (simp add: solo_goto exec_goto obind_assoc upd_sync_goto)
  have "solo cfg t (goto t (Rel R34 a) s) = solo cfg t (goto t (Rel R40 a) s)"
    using True by (simp add: solo_goto [of "Rel R34 a"] exec_goto)
  with True show ?thesis
    by (simp add: solo_goto [of "Rel R40 a"] exec_goto obind_assoc upd_sync_goto WAIT_SYNC_RELEASE_def
        WAIT_SYNC_RELEASE_NOWAIT_def Let_def) (simp add: carry_on_bind 41 split: outcome.split)
qed (auto simp: solo_goto exec_goto WAIT_SYNC_RELEASE_def WAIT_SYNC_RELEASE_NOWAIT_def)

section \<open>The global wake-up\<close>

lemma solo_globat:
  "solo cfg t (goto t (GlobAt st b) s) = solo cfg t (goto t
     (if w_next (sync_at s b) = threads_base_wait_sync_list s then Glob G29 st else glob_next st (w_next (sync_at s b))) s)"
  by (simp add: solo_goto [of "GlobAt st b"] exec_goto exec_globat_def)

text \<open>When the loop of the function returns, the machine comes out of its loop with the same outcome.\<close>

lemma solo_loop:
  assumes "wakeup_loop_mt cfg t st cur s = Some r"
  shows "solo cfg t (goto t (glob_next st cur) s) = carry_on cfg t (obind r (\<lambda>s. Ret (goto t (Glob G29 st) s)))"
  using assms
proof (induction rule: wakeup_loop_mt.raw_induct [rotated, consumes 1])
  case (1 loop cfg t st cur s r)
  show ?case
  proof (cases cur)
    case None
    with 1(2) show ?thesis by (auto simp: glob_next_def)
  next
    case (Some b)
    have "solo cfg t (goto t (glob_next st cur) s) =
        carry_on cfg t (obind (wait_sync_update cfg t b 0 st s) (\<lambda>s. Ret (goto t (GlobAt st b) s)))"
      by (simp add: Some glob_next_def solo_upd)
    note e = this
    show ?thesis
    proof (cases "wait_sync_update cfg t b 0 st s")
      case (Ret s1)
      with 1(2) Some have "if w_next (sync_at s1 b) = threads_base_wait_sync_list s1 then r = Ret s1
          else loop cfg t st (w_next (sync_at s1 b)) s1 = Some r" by (auto split: if_splits)
      with 1(1) show ?thesis by (auto simp: e Ret solo_globat split: if_splits)
    qed (use 1(2) e [unfolded Some] Some in auto)
  qed
qed

text \<open>An update changes no link, so on a ring the loop of the function returns.\<close>

lemma update_links:
  assumes "wait_sync_update cfg t a u st s = Ret s'"
  shows "w_next (sync_at s' b) = w_next (sync_at s b)" "w_prev (sync_at s' b) = w_prev (sync_at s b)"
    "threads_base_wait_sync_list s' = threads_base_wait_sync_list s" "wait_sync_lock s' = wait_sync_lock s"
  using assms by (auto simp: wait_sync_update_def WAIT_SYNC_SIGNAL_def sync_lock_def sync_signal_def sync_unlock_def
      Let_def split: if_splits)

lemma wakeup_loop_mt_returns:
  assumes "ring s (as @ b # bs)" "threads_base_wait_sync_list s = head_of (as @ b # bs)"
  shows "\<exists>r. wakeup_loop_mt cfg t st (Some b) s = Some r"
  using assms
proof (induction bs arbitrary: as b s)
  case Nil
  have "w_next (sync_at s b) = threads_base_wait_sync_list s"
    using ring_next [OF Nil.prems(1)] Nil.prems(2) by (cases as) auto
  then show ?case
    by (subst wakeup_loop_mt.simps) (auto simp: update_links split: outcome.split)
next
  case (Cons c cs)
  have "\<exists>r. wakeup_loop_mt cfg t st (Some c) s1 = Some r" if u: "wait_sync_update cfg t b 0 st s = Ret s1" for s1
  proof (rule Cons.IH [of s1 "as @ [b]" c])
    show "ring s1 ((as @ [b]) @ c # cs)"
      by (rule ring_cong_links [of s]) (use Cons.prems(1) update_links [OF u] in auto)
    show "threads_base_wait_sync_list s1 = head_of ((as @ [b]) @ c # cs)"
      using Cons.prems(2) update_links(3) [OF u] by (cases as) auto
  qed
  moreover have "w_next (sync_at s b) = Some c" using ring_next [OF Cons.prems(1)] by simp
  ultimately show ?case
    by (subst wakeup_loop_mt.simps) (auto simp: update_links split: outcome.split)
qed

lemma wakeup_loop_on_list:
  assumes "wait_list s xs"
  shows "\<exists>r. wakeup_loop_mt cfg t st (threads_base_wait_sync_list s) s = Some r"
proof (cases xs)
  case Nil
  with assms have "threads_base_wait_sync_list s = None" by (simp add: wait_list_def head_of_def)
  then show ?thesis by (subst wakeup_loop_mt.simps) simp
next
  case (Cons b bs)
  with assms wakeup_loop_mt_returns [of s "[]" b bs cfg t st] show ?thesis by (simp add: wait_list_def head_of_def)
qed

lemma solo_glob:
  assumes "wait_list s xs"
  shows "\<exists>r. threads_base_wait_sync_global_wakeup_mt cfg t st s = Some r \<and>
    solo cfg t (goto t (Glob G17 st) s) = Some (obind r (\<lambda>s. Ret (goto t Idle s)))"
proof -
  let ?lock = "amutex_lock t (wait_sync_lock s)"
  have 29: "solo cfg t (goto t (Glob G29 st) s) =
      Some (obind (amutex_unlock t (wait_sync_lock s)) (\<lambda>m. Ret (goto t Idle (s\<lparr>wait_sync_lock := m\<rparr>))))" for s
    by (simp add: solo_goto exec_goto obind_assoc carry_on_bind solo_finished wsl_goto split: outcome.split)
  have 18: "solo cfg t (goto t (Glob G18 st) s) = solo cfg t (goto t (glob_next st (threads_base_wait_sync_list s)) s)" for s
    by (simp add: solo_goto [of "Glob G18 st"] exec_goto)
  have 17: "solo cfg t (goto t (Glob G17 st) s) =
      carry_on cfg t (obind ?lock (\<lambda>m. Ret (goto t (Glob G18 st) (s\<lparr>wait_sync_lock := m\<rparr>))))"
    by (simp add: solo_goto exec_goto obind_assoc wsl_goto)
  show ?thesis
  proof (cases ?lock)
    case (Ret m)
    let ?s = "s\<lparr>wait_sync_lock := m\<rparr>"
    have "wait_list ?s xs" using assms by (simp add: wait_list_def)
    from wakeup_loop_on_list [OF this, of cfg t st] obtain r where
      r: "wakeup_loop_mt cfg t st (threads_base_wait_sync_list s) ?s = Some r" by auto
    from solo_loop [OF r] Ret r show ?thesis
      by (cases r) (simp_all add: 17 18 29 threads_base_wait_sync_global_wakeup_mt_def obind_assoc)
  qed (simp_all add: 17 threads_base_wait_sync_global_wakeup_mt_def)
qed

lemma carry_on_finished:
  assumes "finished p"
  shows "carry_on cfg t (obind r (\<lambda>s. Ret (goto t p s))) = Some (obind r (\<lambda>s. Ret (goto t p s)))"
  using assms by (cases r) (simp_all add: solo_finished)

section \<open>Agreement\<close>

text \<open>
  The two models of the same lines agree. A thread of the machine that runs alone through an
  update, a release or, on a consistent ring, a global wake-up has the same outcome as
  \<open>wait_sync_update\<close>, \<open>WAIT_SYNC_RELEASE\<close> and \<open>threads_base_wait_sync_global_wakeup_mt\<close> on the
  same state, for any arguments and also where the call waits or is undefined.
\<close>

lemma machine_runs_functions:
  shows "solo cfg t (goto t (Upd a u st KReturn) s) =
      Some (obind (wait_sync_update cfg t a u st s) (\<lambda>s. Ret (goto t Idle s))) \<and>
    solo cfg t (goto t (Rel R34 a) s) = Some (obind (WAIT_SYNC_RELEASE a s) (\<lambda>s. Ret (goto t (Released a) s))) \<and>
    (wait_list s xs \<longrightarrow> solo cfg t (goto t (Glob G17 st) s) =
      map_option (\<lambda>r. obind r (\<lambda>s. Ret (goto t Idle s))) (threads_base_wait_sync_global_wakeup_mt cfg t st s))"
proof (intro conjI impI)
  show "solo cfg t (goto t (Upd a u st KReturn) s) =
      Some (obind (wait_sync_update cfg t a u st s) (\<lambda>s. Ret (goto t Idle s)))"
    by (simp add: solo_upd carry_on_finished)
  show "solo cfg t (goto t (Rel R34 a) s) = Some (obind (WAIT_SYNC_RELEASE a s) (\<lambda>s. Ret (goto t (Released a) s)))"
    by (simp add: solo_rel carry_on_finished)
  assume "wait_list s xs"
  from solo_glob [OF this, of cfg t st] show "solo cfg t (goto t (Glob G17 st) s) =
      map_option (\<lambda>r. obind r (\<lambda>s. Ret (goto t Idle s))) (threads_base_wait_sync_global_wakeup_mt cfg t st s)" by auto
qed

end
