(* ===== verification/Condition.thy ===== *)
theory Condition
  imports Sync_Spec "HOL-Library.Signed_Division"
begin

text \<open>
  \<open>condition.h\<close>: condition variables made of two counters, for code that polls \<open>progress()\<close>
  while it waits. \<open>progress()\<close> and the clock are not part of the repository: they are
  arguments of the model, as are \<open>mutex_lock\<close> and \<open>mutex_unlock\<close>, which depend on the backend.
  In a threaded process \<open>progress()\<close> stands for all that happens while the waiting thread has
  released its mutex.
\<close>

section \<open>The counters\<close>

text \<open>\<open>++\<close> and \<open>--\<close> on an \<open>int\<close>.\<close>

definition c_inc :: "int \<Rightarrow> int outcome" where
  "c_inc x = (if fits TYPE(32) (x + 1) then Ret (x + 1) else UB)"

definition c_dec :: "int \<Rightarrow> int outcome" where
  "c_dec x = (if fits TYPE(32) (x - 1) then Ret (x - 1) else UB)"

record condition_t =
  c_waiting :: int
  c_signaled :: int

text \<open>\<open>condition_construct\<close> of the pthreads, Argobots and Qthreads backends.\<close>

definition condition_construct :: condition_t where
  "condition_construct = \<lparr>c_waiting = 0, c_signaled = 0\<rparr>"

definition condition_construct_abt :: condition_t where
  "condition_construct_abt = \<lparr>c_waiting = 0, c_signaled = 0\<rparr>"

definition condition_construct_qt :: condition_t where
  "condition_construct_qt = \<lparr>c_waiting = 0, c_signaled = 0\<rparr>"

lemma condition_construct_backends [simp]:
  "condition_construct_abt = condition_construct" "condition_construct_qt = condition_construct"
  by (simp_all add: condition_construct_def condition_construct_abt_def condition_construct_qt_def)

definition inc_waiting :: "condition_t \<Rightarrow> condition_t outcome" where
  "inc_waiting c = obind (c_inc (c_waiting c)) (\<lambda>n. Ret (c\<lparr>c_waiting := n\<rparr>))"

definition dec_waiting :: "condition_t \<Rightarrow> condition_t outcome" where
  "dec_waiting c = obind (c_dec (c_waiting c)) (\<lambda>n. Ret (c\<lparr>c_waiting := n\<rparr>))"

definition dec_signaled :: "condition_t \<Rightarrow> condition_t outcome" where
  "dec_signaled c = obind (c_dec (c_signaled c)) (\<lambda>n. Ret (c\<lparr>c_signaled := n\<rparr>))"

definition condition_signal :: "condition_t \<Rightarrow> (rc \<times> condition_t) outcome" where
  "condition_signal c =
     (if c_waiting c \<noteq> 0
      then obind (c_inc (c_signaled c)) (\<lambda>n. Ret (SUCCESS, c\<lparr>c_signaled := n\<rparr>))
      else Ret (SUCCESS, c))"

definition condition_broadcast :: "condition_t \<Rightarrow> rc \<times> condition_t" where
  "condition_broadcast c = (SUCCESS, c\<lparr>c_signaled := c_waiting c\<rparr>)"

section \<open>Waiting\<close>

text \<open>
  \<open>condition_wait\<close> in a threaded process, cut where the mutex is released. It is entered with
  the mutex held: either the condition is signalled already, and the call lets others run
  once and returns without consuming the signal, or it loops. The loop tests again each
  time it has the mutex back, and leaves by consuming a signal.
\<close>

datatype wait_kind = EarlyReturn | Looping

definition condition_wait_enter :: "condition_t \<Rightarrow> (wait_kind \<times> condition_t) outcome" where
  "condition_wait_enter c =
     obind (inc_waiting c) (\<lambda>c.
       if c_signaled c \<noteq> 0 then obind (dec_waiting c) (\<lambda>c. Ret (EarlyReturn, c))
       else Ret (Looping, c))"

definition condition_wait_leave :: "condition_t \<Rightarrow> condition_t outcome" where
  "condition_wait_leave c = obind (dec_signaled c) dec_waiting"

text \<open>The test of the loop; \<open>None\<close> means that it goes round again.\<close>

definition condition_wait_poll :: "condition_t \<Rightarrow> condition_t option outcome" where
  "condition_wait_poll c =
     (if c_signaled c = 0 then Ret None else obind (condition_wait_leave c) (\<lambda>c. Ret (Some c)))"

text \<open>
  The whole of \<open>condition_wait\<close>. The state is the condition, the mutex and the rest; a round
  of the loop releases the mutex, calls \<open>progress()\<close> and takes the mutex again, and in a
  process without threads only calls \<open>progress()\<close>.
\<close>

type_synonym ('m, 'x) cond_state = "condition_t \<times> 'm \<times> 'x"

record ('m, 'x) wait_env =
  e_mutex_unlock :: "'m \<Rightarrow> 'm outcome"
  e_mutex_lock :: "'m \<Rightarrow> 'm outcome"
  e_progress :: "('m, 'x) cond_state \<Rightarrow> ('m, 'x) cond_state"

definition wait_round :: "('m, 'x) wait_env \<Rightarrow> bool \<Rightarrow> ('m, 'x) cond_state \<Rightarrow> ('m, 'x) cond_state outcome" where
  "wait_round E using_threads s =
     (if using_threads then
        let (c, m, x) = s in
        obind (e_mutex_unlock E m) (\<lambda>m.
          let (c, m, x) = e_progress E (c, m, x) in
          obind (e_mutex_lock E m) (\<lambda>m. Ret (c, m, x)))
      else Ret (e_progress E s))"

partial_function (option) wait_loop ::
  "('m, 'x) wait_env \<Rightarrow> bool \<Rightarrow> ('m, 'x) cond_state \<Rightarrow> ('m, 'x) cond_state outcome option" where
  "wait_loop E using_threads s =
     (if c_signaled (fst s) = 0 then
        case wait_round E using_threads s of
          Ret s \<Rightarrow> wait_loop E using_threads s
        | Block \<Rightarrow> Some Block | AssertFail \<Rightarrow> Some AssertFail | UB \<Rightarrow> Some UB
      else Some (Ret s))"

definition condition_wait ::
  "('m, 'x) wait_env \<Rightarrow> bool \<Rightarrow> ('m, 'x) cond_state \<Rightarrow> (rc \<times> ('m, 'x) cond_state) outcome option" where
  "condition_wait E using_threads s =
     (case inc_waiting (fst s) of
        Ret c \<Rightarrow>
          if using_threads \<and> c_signaled c \<noteq> 0
          then Some (obind (dec_waiting c) (\<lambda>c.
                 obind (wait_round E using_threads (c, snd s)) (\<lambda>s. Ret (SUCCESS, s))))
          else map_option (\<lambda>r. obind r (\<lambda>(c, mx). obind (condition_wait_leave c) (\<lambda>c. Ret (SUCCESS, c, mx))))
                 (wait_loop E using_threads (c, snd s))
      | Block \<Rightarrow> Some Block | AssertFail \<Rightarrow> Some AssertFail | UB \<Rightarrow> Some UB)"

section \<open>Waiting with a deadline\<close>

datatype timeval = Timeval (tv_sec: int) (tv_usec: int)
datatype timespec = Timespec (ts_sec: int) (ts_nsec: int)

text \<open>Points in time are ordered by seconds and then by microseconds.\<close>

instantiation timeval :: linorder
begin

definition less_eq_timeval :: "timeval \<Rightarrow> timeval \<Rightarrow> bool" where
  "less_eq_timeval a b \<longleftrightarrow> tv_sec a < tv_sec b \<or> tv_sec a = tv_sec b \<and> tv_usec a \<le> tv_usec b"

definition less_timeval :: "timeval \<Rightarrow> timeval \<Rightarrow> bool" where
  "less_timeval a b \<longleftrightarrow> tv_sec a < tv_sec b \<or> tv_sec a = tv_sec b \<and> tv_usec a < tv_usec b"

instance
  by standard (auto simp: less_eq_timeval_def less_timeval_def intro: timeval.expand)

end

definition absolute_of :: "timespec \<Rightarrow> timeval" where
  "absolute_of abstime = Timeval (ts_sec abstime) (ts_nsec abstime sdiv 1000)"

text \<open>The condition of the \<open>do\<close> loops, lines 70 and 82.\<close>

definition keep_waiting :: "condition_t \<Rightarrow> timeval \<Rightarrow> timeval \<Rightarrow> bool" where
  "keep_waiting c tv absolute \<longleftrightarrow> c_signaled c = 0 \<and>
     (tv_sec tv \<le> tv_sec absolute \<or> tv_sec tv = tv_sec absolute \<and> tv_usec tv < tv_usec absolute)"

text \<open>A round of the \<open>do\<close> loops: as above, and the time is read before the mutex is taken again.\<close>

record ('m, 'x) timed_env = "('m, 'x) wait_env" +
  e_gettimeofday :: "('m, 'x) cond_state \<Rightarrow> timeval"

definition timed_round ::
  "('m, 'x) timed_env \<Rightarrow> bool \<Rightarrow> ('m, 'x) cond_state \<Rightarrow> (timeval \<times> ('m, 'x) cond_state) outcome" where
  "timed_round E using_threads s =
     (if using_threads then
        let (c, m, x) = s in
        obind (e_mutex_unlock E m) (\<lambda>m.
          let s = e_progress E (c, m, x); tv = e_gettimeofday E s; (c, m, x) = s in
          obind (e_mutex_lock E m) (\<lambda>m. Ret (tv, c, m, x)))
      else let s = e_progress E s in Ret (e_gettimeofday E s, s))"

partial_function (option) timed_loop ::
  "('m, 'x) timed_env \<Rightarrow> bool \<Rightarrow> timeval \<Rightarrow> ('m, 'x) cond_state \<Rightarrow> ('m, 'x) cond_state outcome option" where
  "timed_loop E using_threads absolute s =
     (case timed_round E using_threads s of
        Ret r \<Rightarrow> if keep_waiting (fst (snd r)) (fst r) absolute
                then timed_loop E using_threads absolute (snd r) else Some (Ret (snd r))
      | Block \<Rightarrow> Some Block | AssertFail \<Rightarrow> Some AssertFail | UB \<Rightarrow> Some UB)"

text \<open>
  \<open>condition_timedwait\<close>; its two branches differ only in the calls on the mutex. The time read
  before the loop is not used.
\<close>

definition condition_timedwait :: "('m, 'x) timed_env \<Rightarrow> bool \<Rightarrow> timespec \<Rightarrow> ('m, 'x) cond_state \<Rightarrow>
    (rc \<times> ('m, 'x) cond_state) outcome option" where
  "condition_timedwait E using_threads abstime s =
     (case inc_waiting (fst s) of
        Ret c \<Rightarrow>
          map_option (\<lambda>r. obind r (\<lambda>(c, mx).
              obind (if c_signaled c \<noteq> 0 then dec_signaled c else Ret c) (\<lambda>c.
              obind (dec_waiting c) (\<lambda>c. Ret (SUCCESS, c, mx)))))
            (if c_signaled c = 0 then timed_loop E using_threads (absolute_of abstime) (c, snd s)
             else Some (Ret (c, snd s)))
      | Block \<Rightarrow> Some Block | AssertFail \<Rightarrow> Some AssertFail | UB \<Rightarrow> Some UB)"

section \<open>Loops\<close>

text \<open>The states a loop goes through, round after round.\<close>

definition rounds :: "('s \<Rightarrow> 's outcome) \<Rightarrow> (nat \<Rightarrow> 's) \<Rightarrow> nat \<Rightarrow> bool" where
  "rounds f ss n \<longleftrightarrow> (\<forall>k<n. f (ss k) = Ret (ss (Suc k)))"

lemma rounds_Suc: "rounds f ss (Suc n) \<longleftrightarrow> f (ss 0) = Ret (ss 1) \<and> rounds f (\<lambda>k. ss (Suc k)) n"
  unfolding rounds_def by (auto simp: less_Suc_eq_0_disj)

text \<open>The loop ends with the first round that leaves the condition signalled.\<close>

lemma wait_loop_returns:
  "rounds (wait_round E u) ss n \<Longrightarrow> (\<forall>k<n. c_signaled (fst (ss k)) = 0) \<Longrightarrow> c_signaled (fst (ss n)) \<noteq> 0 \<Longrightarrow>
     wait_loop E u (ss 0) = Some (Ret (ss n))"
proof (induction n arbitrary: ss)
  case 0
  then show ?case by (subst wait_loop.simps) simp
next
  case (Suc n)
  then have "wait_loop E u (ss 1) = Some (Ret (ss (Suc n)))"
    using Suc.IH [of "\<lambda>k. ss (Suc k)"] by (auto simp: rounds_Suc)
  moreover have "c_signaled (fst (ss 0)) = 0" "wait_round E u (ss 0) = Ret (ss 1)"
    using Suc.prems by (auto simp: rounds_Suc)
  ultimately show ?case by (subst wait_loop.simps) simp
qed

lemma keep_waiting_iff: "keep_waiting c tv absolute \<longleftrightarrow> c_signaled c = 0 \<and> tv_sec tv \<le> tv_sec absolute"
  by (auto simp: keep_waiting_def)

abbreviation goes_on :: "timeval \<Rightarrow> timeval \<times> ('m, 'x) cond_state \<Rightarrow> bool" where
  "goes_on absolute r \<equiv> keep_waiting (fst (snd r)) (fst r) absolute"

lemma timed_loop_returns:
  "timed_round E u s = Ret (rs 0) \<Longrightarrow> rounds (\<lambda>r. timed_round E u (snd r)) rs n \<Longrightarrow>
     (\<forall>k<n. goes_on absolute (rs k)) \<Longrightarrow> \<not> goes_on absolute (rs n) \<Longrightarrow>
     timed_loop E u absolute s = Some (Ret (snd (rs n)))"
proof (induction n arbitrary: s rs)
  case 0
  then show ?case by (subst timed_loop.simps) simp
next
  case (Suc n)
  then have "timed_loop E u absolute (snd (rs 0)) = Some (Ret (snd (rs (Suc n))))"
    using Suc.IH [of "snd (rs 0)" "\<lambda>k. rs (Suc k)"] by (auto simp: rounds_Suc)
  moreover have "goes_on absolute (rs 0)" using Suc.prems(3) by blast
  ultimately show ?case using Suc.prems(1) by (subst timed_loop.simps) simp
qed

text \<open>A first round that ends the loop exists once the clock has passed the deadline's second.\<close>

lemma timed_loop_total:
  assumes "timed_round E u s = Ret (rs 0)" "rounds (\<lambda>r. timed_round E u (snd r)) rs n"
    and "tv_sec absolute < tv_sec (fst (rs n))"
  shows "\<exists>m\<le>n. \<not> goes_on absolute (rs m) \<and> timed_loop E u absolute s = Some (Ret (snd (rs m)))"
proof -
  from assms(3) have n: "\<not> goes_on absolute (rs n)" by (simp add: keep_waiting_iff)
  define m where "m = (LEAST k. \<not> goes_on absolute (rs k))"
  have m: "\<not> goes_on absolute (rs m)" unfolding m_def using n by (rule LeastI)
  have mn: "m \<le> n" unfolding m_def using n by (rule Least_le)
  have "\<forall>k<m. goes_on absolute (rs k)" unfolding m_def using not_less_Least by blast
  moreover have "rounds (\<lambda>r. timed_round E u (snd r)) rs m" using assms(2) mn by (simp add: rounds_def)
  ultimately show ?thesis using timed_loop_returns [of E u s rs m absolute] assms(1) m mn by blast
qed

section \<open>Properties\<close>

text \<open>
  C31. \<open>condition_wait\<close> returns as soon as a round, in which the mutex is released and taken
  again if there are threads, leaves the condition signalled. It then returns \<open>SUCCESS\<close> and
  has consumed one signal and its own place among the waiting, and changed nothing else; the
  call also returns after one round, by the early return, when the condition is signalled on
  entry to a threaded wait, and then consumes no signal.
\<close>

theorem condition_wait_returns:
  assumes "fits TYPE(32) (c_waiting c + 1)" "ss 0 = (c\<lparr>c_waiting := c_waiting c + 1\<rparr>, mx)"
    and "rounds (wait_round E u) ss n" "\<forall>k<n. c_signaled (fst (ss k)) = 0" "ss n = (c2, mx2)"
    and "0 < c_signaled c2" "0 < c_waiting c2" "fits TYPE(32) (c_signaled c2)" "fits TYPE(32) (c_waiting c2)"
    and "fits TYPE(32) (c_waiting c)"
  shows "condition_wait E u (c, mx) =
    (if u \<and> n = 0 then Some (obind (wait_round E u (c, mx)) (\<lambda>s. Ret (SUCCESS, s)))
     else Some (Ret (SUCCESS, c2\<lparr>c_signaled := c_signaled c2 - 1, c_waiting := c_waiting c2 - 1\<rparr>, mx2)))"
proof -
  let ?c1 = "c\<lparr>c_waiting := c_waiting c + 1\<rparr>"
  have inc: "inc_waiting c = Ret ?c1" using assms(1) by (simp add: inc_waiting_def c_inc_def)
  have dec: "dec_waiting ?c1 = Ret c" using assms(10) by (simp add: dec_waiting_def c_dec_def)
  have leave: "condition_wait_leave c2 = Ret (c2\<lparr>c_signaled := c_signaled c2 - 1, c_waiting := c_waiting c2 - 1\<rparr>)"
    using assms(6-9) by (simp add: condition_wait_leave_def dec_signaled_def dec_waiting_def c_dec_def fits_def)
  have loop: "wait_loop E u (?c1, mx) = Some (Ret (c2, mx2))"
    using wait_loop_returns [OF assms(3,4)] assms(2,5,6) by simp
  have entry: "c_signaled ?c1 \<noteq> 0 \<longleftrightarrow> n = 0"
    using assms(2,4-6) by (cases n) (auto dest: spec [of _ 0])
  show ?thesis using inc dec leave loop entry by (simp add: condition_wait_def)
qed

text \<open>
  A threaded wait on the abstract mutex: \<open>progress()\<close> counts its calls and the third one signals.
\<close>

definition demo_env :: "(amutex, nat) wait_env" where
  "demo_env = \<lparr>e_mutex_unlock = amutex_unlock 1, e_mutex_lock = amutex_lock 1,
     e_progress = (\<lambda>(c, m, k). (if k = 2 then c\<lparr>c_signaled := 1\<rparr> else c, m, k + 1))\<rparr>"

definition demo_held :: amutex where
  "demo_held = (amutex_init False)\<lparr>mx_owner := Some 1, mx_depth := 1\<rparr>"

lemma demo_round:
  "wait_round demo_env True (c, demo_held, k) = Ret (if k = 2 then c\<lparr>c_signaled := 1\<rparr> else c, demo_held, k + 1)"
  by (simp add: wait_round_def demo_env_def demo_held_def amutex_unlock_def amutex_lock_def amutex_init_def)

theorem condition_wait_returns_witness:
  "condition_wait demo_env True (condition_construct, demo_held, 0) = Some (Ret (SUCCESS, condition_construct, demo_held, 3))"
proof -
  let ?ss = "\<lambda>k. (\<lparr>c_waiting = 1, c_signaled = if k = 3 then 1 else 0\<rparr>, demo_held, k)"
  have "k < 3 \<Longrightarrow> k = 0 \<or> k = 1 \<or> k = 2" for k :: nat by arith
  then have "rounds (wait_round demo_env True) ?ss 3" unfolding rounds_def demo_round by fastforce
  from condition_wait_returns [OF _ _ this, of condition_construct "(demo_held, 0)"] show ?thesis
    by (simp add: condition_construct_def fits_def)
qed

text \<open>
  C33. How \<open>condition_timedwait\<close> treats its deadline. It never gives up before the deadline;
  but it compares seconds only, so a thread that is not signalled goes on waiting at every
  time within the second of the deadline, also past the deadline.
\<close>

theorem timedwait_compares_seconds:
  "(c_signaled c = 0 \<and> tv < absolute \<longrightarrow> keep_waiting c tv absolute) \<and>
   (c_signaled c = 0 \<and> absolute \<le> tv \<longrightarrow> (keep_waiting c tv absolute \<longleftrightarrow> tv_sec tv = tv_sec absolute))"
  by (auto simp: keep_waiting_iff less_timeval_def less_eq_timeval_def)

theorem timedwait_compares_seconds_witness:
  "keep_waiting condition_construct (Timeval 10 999999) (absolute_of (Timespec 10 1000))"
proof -
  have "absolute_of (Timespec 10 1000) = Timeval 10 1" by (simp add: absolute_of_def signed_divide_int_def)
  moreover have "c_signaled condition_construct = 0" by (simp add: condition_construct_def)
  ultimately show ?thesis
    using timedwait_compares_seconds [of condition_construct "Timeval 10 999999" "Timeval 10 1"]
    by (simp add: less_eq_timeval_def)
qed

text \<open>
  C32. \<open>condition_timedwait\<close> returns if the clock passes the second of the deadline, however
  often it polls before, with threads and without. It returns \<open>SUCCESS\<close> in every case, having
  left the waiting; if no signal came the time is past the deadline, and the caller cannot
  tell.
\<close>

theorem condition_timedwait_returns:
  assumes "fits TYPE(32) (c_waiting c + 1)" "c_signaled c = 0"
    and "timed_round E u (c\<lparr>c_waiting := c_waiting c + 1\<rparr>, mx) = Ret (rs 0)"
    and "rounds (\<lambda>r. timed_round E u (snd r)) rs n" "tv_sec (absolute_of abstime) < tv_sec (fst (rs n))"
    and "\<And>k tv2 c2 mx2. k \<le> n \<Longrightarrow> rs k = (tv2, c2, mx2) \<Longrightarrow>
      0 \<le> c_signaled c2 \<and> 0 < c_waiting c2 \<and> fits TYPE(32) (c_signaled c2) \<and> fits TYPE(32) (c_waiting c2)"
  shows "\<exists>m tv2 c2 mx2 c3. m \<le> n \<and> rs m = (tv2, c2, mx2) \<and>
    condition_timedwait E u abstime (c, mx) = Some (Ret (SUCCESS, c3, mx2)) \<and>
    c_waiting c3 = c_waiting c2 - 1 \<and>
    (if c_signaled c2 = 0 then c_signaled c3 = 0 \<and> absolute_of abstime < tv2 else c_signaled c3 = c_signaled c2 - 1)"
proof -
  let ?c1 = "c\<lparr>c_waiting := c_waiting c + 1\<rparr>"
  have inc: "inc_waiting c = Ret ?c1" using assms(1) by (simp add: inc_waiting_def c_inc_def)
  from timed_loop_total [OF assms(3-5)] obtain m where
    m: "m \<le> n" "\<not> goes_on (absolute_of abstime) (rs m)"
      "timed_loop E u (absolute_of abstime) (?c1, mx) = Some (Ret (snd (rs m)))" by blast
  obtain tv2 c2 mx2 where r: "rs m = (tv2, c2, mx2)" by (rule prod_cases3)
  note b = assms(6) [OF m(1) r]
  let ?c = "if c_signaled c2 \<noteq> 0 then c2\<lparr>c_signaled := c_signaled c2 - 1\<rparr> else c2"
  have "(if c_signaled c2 \<noteq> 0 then dec_signaled c2 else Ret c2) = Ret ?c"
    using b by (auto simp: dec_signaled_def c_dec_def fits_def)
  moreover have "dec_waiting ?c = Ret (?c\<lparr>c_waiting := c_waiting c2 - 1\<rparr>)"
    using b by (simp add: dec_waiting_def c_dec_def fits_def)
  ultimately have "condition_timedwait E u abstime (c, mx) =
      Some (Ret (SUCCESS, ?c\<lparr>c_waiting := c_waiting c2 - 1\<rparr>, mx2))"
    using inc m(3) r assms(2) by (simp add: condition_timedwait_def)
  moreover have "absolute_of abstime < tv2" if "c_signaled c2 = 0"
    using m(2) r that by (simp add: keep_waiting_iff less_timeval_def)
  ultimately show ?thesis using m(1) r by (intro exI conjI) (assumption+, auto)
qed

text \<open>A clock that advances by a second per round, no signal, and the mutex released and taken.\<close>

definition ticking :: "(amutex, nat) timed_env" where
  "ticking = \<lparr>e_mutex_unlock = amutex_unlock 1, e_mutex_lock = amutex_lock 1,
     e_progress = (\<lambda>(c, m, k). (c, m, Suc k)), e_gettimeofday = (\<lambda>(c, m, k). Timeval (int k) 0)\<rparr>"

lemma ticking_round: "timed_round ticking True (c, demo_held, k) = Ret (Timeval (int (Suc k)) 0, c, demo_held, Suc k)"
  by (simp add: timed_round_def ticking_def demo_held_def amutex_unlock_def amutex_lock_def amutex_init_def Let_def)

theorem condition_timedwait_returns_witness:
  "\<exists>c3 mx. condition_timedwait ticking True (Timespec 2 0) (condition_construct, demo_held, 0) = Some (Ret (SUCCESS, c3, mx)) \<and>
     c_waiting c3 = 0"
proof -
  let ?c = "condition_construct\<lparr>c_waiting := c_waiting condition_construct + 1\<rparr>"
  let ?rs = "\<lambda>k. (Timeval (int (Suc k)) 0, ?c, demo_held, Suc k)"
  have "\<exists>m tv2 c2 mx2 c3. m \<le> 2 \<and> ?rs m = (tv2, c2, mx2) \<and>
    condition_timedwait ticking True (Timespec 2 0) (condition_construct, demo_held, 0) = Some (Ret (SUCCESS, c3, mx2)) \<and>
    c_waiting c3 = c_waiting c2 - 1 \<and>
    (if c_signaled c2 = 0 then c_signaled c3 = 0 \<and> absolute_of (Timespec 2 0) < tv2 else c_signaled c3 = c_signaled c2 - 1)"
    by (rule condition_timedwait_returns)
      (auto simp: condition_construct_def fits_def absolute_of_def rounds_def ticking_round)
  then show ?thesis by (auto simp: condition_construct_def)
qed

end
