(* ===== verification/Monitor.thy ===== *)
theory Monitor
  imports Sync_Spec Condition
begin

text \<open>
  \<open>threads.h\<close>: \<open>ACQUIRE_THREAD\<close>, \<open>RELEASE_THREAD\<close> and \<open>WAKEUP_THREAD\<close>, a monitor made of a
  mutex, a counting condition and a flag, run by any number of threads. \<open>ACQUIRE_THREAD\<close> and
  \<open>RELEASE_THREAD\<close> touch the condition and the flag only while they have the mutex.
  \<open>WAKEUP_THREAD\<close> does not take the mutex: that is left to its caller. Both kinds of caller
  are modelled, the one that holds the mutex around the macro and the one that does not. A step
  ends where a thread takes or releases the mutex, and also between the test of the flag and
  the call of \<open>condition_wait\<close>, where a caller without the mutex can come in between.
\<close>

section \<open>The machine\<close>

text \<open>
  Where a thread stands: before \<open>THREAD_LOCK\<close>, at the test of the flag, at the call of
  \<open>condition_wait\<close> after it found the flag set, in the two places of \<open>condition_wait\<close> where it has released the mutex (the early return and the loop), at the
  test of the loop, past \<open>ACQUIRE_THREAD\<close> with the mutex, and past it while the caller has
  released the mutex for a time.
\<close>

datatype mon_pc = MIdle | MLock | MTest | MEnter | MEarly | MSpin | MPoll | MHeld | MAway

record 'g monitor =
  mon_lock :: 'g
  mon_cond :: condition_t
  mon_act :: bool
  mon_pc :: "tid \<Rightarrow> mon_pc"

text \<open>
  The functions the macros and \<open>condition_wait\<close> call on the mutex; over the abstract mutex
  they are its two operations.
\<close>

record 'g mon_locks =
  l_THREAD_LOCK :: "tid \<Rightarrow> 'g \<Rightarrow> 'g outcome"
  l_THREAD_UNLOCK :: "tid \<Rightarrow> 'g \<Rightarrow> 'g outcome"
  l_mutex_lock :: "tid \<Rightarrow> 'g \<Rightarrow> 'g outcome"
  l_mutex_unlock :: "tid \<Rightarrow> 'g \<Rightarrow> 'g outcome"

definition spec_locks :: "amutex mon_locks" where
  "spec_locks = \<lparr>l_THREAD_LOCK = amutex_lock, l_THREAD_UNLOCK = amutex_unlock,
     l_mutex_lock = amutex_lock, l_mutex_unlock = amutex_unlock\<rparr>"

lemma spec_locks_sel [simp]:
  "l_THREAD_LOCK spec_locks = amutex_lock" "l_THREAD_UNLOCK spec_locks = amutex_unlock"
  "l_mutex_lock spec_locks = amutex_lock" "l_mutex_unlock spec_locks = amutex_unlock"
  by (simp_all add: spec_locks_def)

definition mgoto :: "tid \<Rightarrow> mon_pc \<Rightarrow> 'g monitor \<Rightarrow> 'g monitor" where
  "mgoto t p s = s\<lparr>mon_pc := (mon_pc s)(t := p)\<rparr>"

definition on_lock :: "(tid \<Rightarrow> 'g \<Rightarrow> 'g outcome) \<Rightarrow> tid \<Rightarrow> 'g monitor \<Rightarrow> 'g monitor outcome" where
  "on_lock f t s = obind (f t (mon_lock s)) (\<lambda>m. Ret (s\<lparr>mon_lock := m\<rparr>))"

abbreviation mlock :: "tid \<Rightarrow> amutex monitor \<Rightarrow> amutex monitor outcome" where
  "mlock \<equiv> on_lock amutex_lock"

abbreviation munlock :: "tid \<Rightarrow> amutex monitor \<Rightarrow> amutex monitor outcome" where
  "munlock \<equiv> on_lock amutex_unlock"

text \<open>
  The next step of \<open>ACQUIRE_THREAD\<close> and of the \<open>condition_wait\<close> it calls; the flag is tested
  again after \<open>condition_wait\<close> has returned.
\<close>

definition acquire_step :: "'g mon_locks \<Rightarrow> tid \<Rightarrow> 'g monitor \<Rightarrow> 'g monitor outcome" where
  "acquire_step K t s =
     (case mon_pc s t of
        MLock \<Rightarrow> obind (on_lock (l_THREAD_LOCK K) t s) (\<lambda>s. Ret (mgoto t MTest s))
      | MTest \<Rightarrow>
          if mon_act s then Ret (mgoto t MEnter s) else Ret (mgoto t MHeld (s\<lparr>mon_act := True\<rparr>))
      | MEnter \<Rightarrow> obind (condition_wait_enter (mon_cond s)) (\<lambda>(k, c).
          obind (on_lock (l_mutex_unlock K) t (s\<lparr>mon_cond := c\<rparr>)) (\<lambda>s.
            Ret (mgoto t (case k of EarlyReturn \<Rightarrow> MEarly | Looping \<Rightarrow> MSpin) s)))
      | MEarly \<Rightarrow> obind (on_lock (l_mutex_lock K) t s) (\<lambda>s. Ret (mgoto t MTest s))
      | MSpin \<Rightarrow> obind (on_lock (l_mutex_lock K) t s) (\<lambda>s. Ret (mgoto t MPoll s))
      | MPoll \<Rightarrow> obind (condition_wait_poll (mon_cond s)) (\<lambda>r.
          case r of None \<Rightarrow> obind (on_lock (l_mutex_unlock K) t s) (\<lambda>s. Ret (mgoto t MSpin s))
          | Some c \<Rightarrow> Ret (mgoto t MTest (s\<lparr>mon_cond := c\<rparr>)))
      | _ \<Rightarrow> Block)"

definition RELEASE_THREAD :: "'g mon_locks \<Rightarrow> tid \<Rightarrow> 'g monitor \<Rightarrow> 'g monitor outcome" where
  "RELEASE_THREAD K t s =
     obind (on_lock (l_THREAD_UNLOCK K) t (s\<lparr>mon_act := False, mon_cond := snd (condition_broadcast (mon_cond s))\<rparr>))
       (\<lambda>s. Ret (mgoto t MIdle s))"

definition WAKEUP_THREAD :: "'g monitor \<Rightarrow> 'g monitor" where
  "WAKEUP_THREAD s = s\<lparr>mon_act := False, mon_cond := snd (condition_broadcast (mon_cond s))\<rparr>"

text \<open>
  What threads do: acquire, release, release the mutex for a time while they are past
  \<open>ACQUIRE_THREAD\<close>, and, if \<open>wakeups\<close>, take the mutex, run \<open>WAKEUP_THREAD\<close>, which frees the
  monitor on behalf of its holder, and release the mutex. The last is a rule for callers: the
  two lock calls around \<open>WAKEUP_THREAD\<close> are the caller's, not the macro's.
\<close>

inductive mon_step :: "'g mon_locks \<Rightarrow> nat \<Rightarrow> bool \<Rightarrow> 'g monitor \<Rightarrow> 'g monitor \<Rightarrow> bool" for K N wakeups where
  mon_start: "t < N \<Longrightarrow> mon_pc s t = MIdle \<Longrightarrow> mon_step K N wakeups s (mgoto t MLock s)"
| mon_run: "t < N \<Longrightarrow> acquire_step K t s = Ret s' \<Longrightarrow> mon_step K N wakeups s s'"
| mon_release: "t < N \<Longrightarrow> mon_pc s t = MHeld \<Longrightarrow> RELEASE_THREAD K t s = Ret s' \<Longrightarrow> mon_step K N wakeups s s'"
| mon_away: "t < N \<Longrightarrow> mon_pc s t = MHeld \<Longrightarrow> on_lock (l_THREAD_UNLOCK K) t s = Ret s' \<Longrightarrow>
    mon_step K N wakeups s (mgoto t MAway s')"
| mon_back: "t < N \<Longrightarrow> mon_pc s t = MAway \<Longrightarrow> on_lock (l_THREAD_LOCK K) t s = Ret s' \<Longrightarrow>
    mon_step K N wakeups s (mgoto t MHeld s')"
| mon_wakeup: "wakeups \<Longrightarrow> t < N \<Longrightarrow> mon_pc s t = MIdle \<Longrightarrow> on_lock (l_THREAD_LOCK K) t s = Ret s1 \<Longrightarrow>
    on_lock (l_THREAD_UNLOCK K) t (WAKEUP_THREAD s1) = Ret s' \<Longrightarrow> mon_step K N wakeups s s'"

text \<open>The same threads, of which some run \<open>WAKEUP_THREAD\<close> as it is, without the mutex.\<close>

inductive mon_step_bare :: "'g mon_locks \<Rightarrow> nat \<Rightarrow> 'g monitor \<Rightarrow> 'g monitor \<Rightarrow> bool" for K N where
  bare_other: "mon_step K N True s s' \<Longrightarrow> mon_step_bare K N s s'"
| bare_wakeup: "t < N \<Longrightarrow> mon_pc s t = MIdle \<Longrightarrow> mon_step_bare K N s (WAKEUP_THREAD s)"

definition mon_init :: "amutex monitor \<Rightarrow> bool" where
  "mon_init s \<longleftrightarrow> s = \<lparr>mon_lock = amutex_init False, mon_cond = condition_construct, mon_act = False,
     mon_pc = (\<lambda>_. MIdle)\<rparr>"

section \<open>The invariant\<close>

definition has_lock :: "mon_pc \<Rightarrow> bool" where
  "has_lock p \<longleftrightarrow> p \<in> {MTest, MEnter, MPoll, MHeld}"

definition waits :: "mon_pc \<Rightarrow> int" where
  "waits p = (if p \<in> {MSpin, MPoll} then 1 else 0)"

definition acquired :: "mon_pc \<Rightarrow> bool" where
  "acquired p \<longleftrightarrow> p \<in> {MHeld, MAway}"

definition mon_inv :: "nat \<Rightarrow> bool \<Rightarrow> amutex monitor \<Rightarrow> bool" where
  "mon_inv N wakeups s \<longleftrightarrow> plain (mon_lock s) \<and>
     (\<forall>t. has_lock (mon_pc s t) \<longleftrightarrow> mx_owner (mon_lock s) = Some t) \<and>
     c_waiting (mon_cond s) = (\<Sum>t<N. waits (mon_pc s t)) \<and>
     0 \<le> c_signaled (mon_cond s) \<and> c_signaled (mon_cond s) \<le> c_waiting (mon_cond s) \<and>
     (\<not> mon_act s \<longrightarrow> c_signaled (mon_cond s) = c_waiting (mon_cond s)) \<and>
     (\<forall>t. mon_pc s t = MEnter \<longrightarrow> mon_act s) \<and>
     (\<not> wakeups \<longrightarrow> (\<forall>t. acquired (mon_pc s t) \<longrightarrow> mon_act s) \<and>
        (\<forall>t u. acquired (mon_pc s t) \<longrightarrow> acquired (mon_pc s u) \<longrightarrow> t = u))"

lemmas mon_attrs = has_lock_def waits_def acquired_def

lemma waits_nonneg: "0 \<le> waits p" by (simp add: waits_def)

lemma mon_invD:
  assumes "mon_inv N wakeups s"
  shows "plain (mon_lock s)" "has_lock (mon_pc s t) \<longleftrightarrow> mx_owner (mon_lock s) = Some t"
    "c_waiting (mon_cond s) = (\<Sum>t<N. waits (mon_pc s t))" "0 \<le> c_signaled (mon_cond s)"
    "c_signaled (mon_cond s) \<le> c_waiting (mon_cond s)"
    "\<not> mon_act s \<Longrightarrow> c_signaled (mon_cond s) = c_waiting (mon_cond s)"
    "\<not> wakeups \<Longrightarrow> acquired (mon_pc s t) \<Longrightarrow> mon_act s"
    "\<not> wakeups \<Longrightarrow> acquired (mon_pc s t) \<Longrightarrow> acquired (mon_pc s u) \<Longrightarrow> t = u"
    "mon_pc s t = MEnter \<Longrightarrow> mon_act s"
  using assms unfolding mon_inv_def by blast+

text \<open>A thread about to enter \<open>condition_wait\<close> has the mutex.\<close>

lemma enter_has_lock: "mon_inv N wakeups s \<Longrightarrow> mx_owner (mon_lock s) \<noteq> Some u \<Longrightarrow> mon_pc s u \<noteq> MEnter"
  using mon_invD(2) [of N wakeups s u] by (auto simp: has_lock_def)

text \<open>The steps keep the invariant; a step is described by what it does to each part.\<close>

lemma mon_inv_upd:
  assumes inv: "mon_inv N wakeups s" and t: "t < N" and pc: "mon_pc s' = (mon_pc s)(t := p)"
    and lock: "plain (mon_lock s')" "\<And>u. u \<noteq> t \<Longrightarrow> mx_owner (mon_lock s') = Some u \<longleftrightarrow> mx_owner (mon_lock s) = Some u"
      "has_lock p \<longleftrightarrow> mx_owner (mon_lock s') = Some t"
    and cnt: "c_waiting (mon_cond s') = c_waiting (mon_cond s) - waits (mon_pc s t) + waits p"
      "0 \<le> c_signaled (mon_cond s')" "c_signaled (mon_cond s') \<le> c_waiting (mon_cond s')"
      "\<not> mon_act s' \<Longrightarrow> c_signaled (mon_cond s') = c_waiting (mon_cond s')"
    and act: "\<not> wakeups \<Longrightarrow> acquired p \<Longrightarrow> mon_act s' \<and> (\<forall>u. u \<noteq> t \<longrightarrow> \<not> acquired (mon_pc s u))"
      "\<not> wakeups \<Longrightarrow> mon_act s' \<or> (\<forall>u. u \<noteq> t \<longrightarrow> \<not> acquired (mon_pc s u))"
    and enter: "p = MEnter \<Longrightarrow> mon_act s'" "mon_act s' \<or> (\<forall>u. u \<noteq> t \<longrightarrow> mon_pc s u \<noteq> MEnter)"
  shows "mon_inv N wakeups s'"
proof -
  have sum: "(\<Sum>u<N. waits (mon_pc s' u)) = (\<Sum>u<N. waits (mon_pc s u)) - waits (mon_pc s t) + waits p"
    using sum_fun_upd [of "{..<N}" t waits "mon_pc s" p] t by (simp add: pc)
  have 1: "has_lock (mon_pc s' u) \<longleftrightarrow> mx_owner (mon_lock s') = Some u" for u
    using mon_invD(2) [OF inv, of u] lock(2) [of u] lock(3) pc by (cases "u = t") auto
  have 2: "acquired (mon_pc s' u) \<Longrightarrow> mon_act s'" if "\<not> wakeups" for u
    using act that pc by (cases "u = t") auto
  have 3: "u = v" if "\<not> wakeups" "acquired (mon_pc s' u)" "acquired (mon_pc s' v)" for u v
    using that act(1) [OF that(1)] mon_invD(8) [OF inv that(1), of u v] pc
    by (cases "u = t"; cases "v = t") auto
  have 4: "c_waiting (mon_cond s') = (\<Sum>u<N. waits (mon_pc s' u))" using cnt(1) sum mon_invD(3) [OF inv] by linarith
  have 5: "mon_pc s' u = MEnter \<Longrightarrow> mon_act s'" for u
    using enter pc by (cases "u = t") auto
  show ?thesis unfolding mon_inv_def using lock(1) cnt(2-4) 1 2 3 4 5 by blast
qed

lemma mgoto_fields [simp]:
  "mon_lock (mgoto t p s) = mon_lock s" "mon_cond (mgoto t p s) = mon_cond s" "mon_act (mgoto t p s) = mon_act s"
  "mon_pc (mgoto t p s) = (mon_pc s)(t := p)"
  by (simp_all add: mgoto_def)

lemma mlock_Ret:
  "plain (mon_lock s) \<Longrightarrow> mlock t s = Ret s' \<longleftrightarrow>
     mx_owner (mon_lock s) = None \<and> s' = s\<lparr>mon_lock := (mon_lock s)\<lparr>mx_owner := Some t, mx_depth := Suc 0\<rparr>\<rparr>"
  by (auto simp: on_lock_def amutex_lock_plain)

lemma munlock_Ret:
  "plain (mon_lock s) \<Longrightarrow> munlock t s = Ret s' \<longleftrightarrow>
     mx_owner (mon_lock s) = Some t \<and> s' = s\<lparr>mon_lock := (mon_lock s)\<lparr>mx_owner := None, mx_depth := 0\<rparr>\<rparr>"
  by (auto simp: on_lock_def amutex_unlock_plain)

lemma wait_enter_Ret:
  "condition_wait_enter c = Ret (k, c') \<Longrightarrow>
     (k = EarlyReturn \<and> c_signaled c \<noteq> 0 \<and> c' = c \<or>
      k = Looping \<and> c_signaled c = 0 \<and> c' = c\<lparr>c_waiting := c_waiting c + 1\<rparr>)"
  by (auto simp: condition_wait_enter_def inc_waiting_def dec_waiting_def c_inc_def c_dec_def split: if_splits)

lemma wait_poll_Ret:
  "condition_wait_poll c = Ret r \<Longrightarrow>
     (r = None \<and> c_signaled c = 0 \<or>
      r = Some (c\<lparr>c_signaled := c_signaled c - 1, c_waiting := c_waiting c - 1\<rparr>) \<and> c_signaled c \<noteq> 0)"
  by (auto simp: condition_wait_poll_def condition_wait_leave_def dec_signaled_def dec_waiting_def c_dec_def
      split: if_splits)

lemma mon_inv_acquire:
  assumes inv: "mon_inv N wakeups s" and t: "t < N" and ex: "acquire_step spec_locks t s = Ret s'"
  shows "mon_inv N wakeups s'"
proof -
  note d = mon_invD [OF inv] and up = mon_inv_upd [OF inv t]
  have o: "has_lock (mon_pc s t) \<Longrightarrow> mx_owner (mon_lock s) = Some t" using d(2) by simp
  have one: "\<not> wakeups \<Longrightarrow> mon_act s \<or> (\<forall>u. u \<noteq> t \<longrightarrow> \<not> acquired (mon_pc s u))" using d(7) by blast
  have ent: "mon_act s \<or> (\<forall>u. u \<noteq> t \<longrightarrow> mon_pc s u \<noteq> MEnter)" using d(9) by blast
  show ?thesis
  proof (cases "mon_pc s t")
    case MLock
    with ex d(1) have "mx_owner (mon_lock s) = None"
      "s' = mgoto t MTest (s\<lparr>mon_lock := (mon_lock s)\<lparr>mx_owner := Some t, mx_depth := Suc 0\<rparr>\<rparr>)"
      by (auto simp: acquire_step_def mlock_Ret)
    with MLock d(1,4-6) one ent show ?thesis by (intro up [of _ MTest]) (auto simp: mon_attrs)
  next
    case MEarly
    with ex d(1) have "mx_owner (mon_lock s) = None"
      "s' = mgoto t MTest (s\<lparr>mon_lock := (mon_lock s)\<lparr>mx_owner := Some t, mx_depth := Suc 0\<rparr>\<rparr>)"
      by (auto simp: acquire_step_def mlock_Ret)
    with MEarly d(1,4-6) one ent show ?thesis by (intro up [of _ MTest]) (auto simp: mon_attrs)
  next
    case MSpin
    with ex d(1) have "mx_owner (mon_lock s) = None"
      "s' = mgoto t MPoll (s\<lparr>mon_lock := (mon_lock s)\<lparr>mx_owner := Some t, mx_depth := Suc 0\<rparr>\<rparr>)"
      by (auto simp: acquire_step_def mlock_Ret)
    with MSpin d(1,4-6) one ent show ?thesis by (intro up [of _ MPoll]) (auto simp: mon_attrs)
  next
    case MTest
    show ?thesis
    proof (cases "mon_act s")
      case True
      with MTest ex have "s' = mgoto t MEnter s" by (simp add: acquire_step_def)
      with MTest True d(1,4-6) o show ?thesis by (intro up [of _ MEnter]) (auto simp: mon_attrs)
    next
      case False
      with MTest ex have "s' = mgoto t MHeld (s\<lparr>mon_act := True\<rparr>)" by (simp add: acquire_step_def)
      with MTest False d(1,4,5,6,7) o show ?thesis by (intro up [of _ MHeld]) (auto simp: mon_attrs)
    qed
  next
    case MEnter
    with ex obtain k c s1 where e: "condition_wait_enter (mon_cond s) = Ret (k, c)"
      "munlock t (s\<lparr>mon_cond := c\<rparr>) = Ret s1"
      "s' = mgoto t (case k of EarlyReturn \<Rightarrow> MEarly | Looping \<Rightarrow> MSpin) s1"
      by (auto simp: acquire_step_def)
    from e(2) d(1) have s1: "s1 = s\<lparr>mon_cond := c, mon_lock := (mon_lock s)\<lparr>mx_owner := None, mx_depth := 0\<rparr>\<rparr>"
      by (simp add: munlock_Ret)
    from wait_enter_Ret [OF e(1)] MEnter d(9) [of t] d(1,4,5) o show ?thesis
      by (intro up [of _ "case k of EarlyReturn \<Rightarrow> MEarly | Looping \<Rightarrow> MSpin"]) (auto simp: e(3) s1 mon_attrs)
  next
    case MPoll
    with ex obtain r where r: "condition_wait_poll (mon_cond s) = Ret r" by (auto simp: acquire_step_def)
    from MPoll d(2) [of t] have w: "1 \<le> c_waiting (mon_cond s)"
      unfolding d(3) using member_le_sum [of t "{..<N}" "\<lambda>u. waits (mon_pc s u)"] t waits_nonneg by (simp add: waits_def)
    from wait_poll_Ret [OF r] show ?thesis
    proof
      assume "r = None \<and> c_signaled (mon_cond s) = 0"
      with r MPoll ex d(1) have "s' = mgoto t MSpin (s\<lparr>mon_lock := (mon_lock s)\<lparr>mx_owner := None, mx_depth := 0\<rparr>\<rparr>)"
        by (auto simp: acquire_step_def munlock_Ret)
      with MPoll d(1,4-6) o one ent show ?thesis by (intro up [of _ MSpin]) (auto simp: mon_attrs)
    next
      assume a: "r = Some ((mon_cond s)\<lparr>c_signaled := c_signaled (mon_cond s) - 1, c_waiting := c_waiting (mon_cond s) - 1\<rparr>) \<and>
        c_signaled (mon_cond s) \<noteq> 0"
      with r MPoll ex have "s' = mgoto t MTest (s\<lparr>mon_cond := (mon_cond s)\<lparr>c_signaled := c_signaled (mon_cond s) - 1,
          c_waiting := c_waiting (mon_cond s) - 1\<rparr>\<rparr>)"
        by (simp add: acquire_step_def)
      with MPoll a d(1,4-6) o one ent show ?thesis by (intro up [of _ MTest]) (auto simp: mon_attrs)
    qed
  qed (use ex in \<open>simp_all add: acquire_step_def\<close>)
qed

lemma mon_inv_step:
  assumes inv: "mon_inv N wakeups s" and st: "mon_step spec_locks N wakeups s s'"
  shows "mon_inv N wakeups s'"
  using st
proof cases
  case (mon_start t)
  with mon_invD(1,4-9) [OF inv] mon_invD(2) [OF inv, of t] show ?thesis
    by (intro mon_inv_upd [OF inv, of t _ MLock]) (auto simp: mon_attrs)
next
  case (mon_run t)
  then show ?thesis using mon_inv_acquire [OF inv] by blast
next
  case (mon_release t)
  from mon_release(3) mon_invD(1) [OF inv] have "mx_owner (mon_lock s) = Some t"
    "s' = mgoto t MIdle (s\<lparr>mon_act := False, mon_cond := snd (condition_broadcast (mon_cond s)),
       mon_lock := (mon_lock s)\<lparr>mx_owner := None, mx_depth := 0\<rparr>\<rparr>)"
    by (auto simp: RELEASE_THREAD_def munlock_Ret)
  with mon_release mon_invD [OF inv] enter_has_lock [OF inv] show ?thesis
    by (intro mon_inv_upd [OF inv, of t _ MIdle]) (auto simp: mon_attrs condition_broadcast_def)
next
  case (mon_away t s1)
  with mon_invD [OF inv] show ?thesis
    by (intro mon_inv_upd [OF inv, of t _ MAway]) (auto simp: mon_attrs munlock_Ret)
next
  case (mon_back t s1)
  with mon_invD [OF inv] show ?thesis
    by (intro mon_inv_upd [OF inv, of t _ MHeld]) (auto simp: mon_attrs mlock_Ret)
next
  case (mon_wakeup t s1)
  with mon_invD(1) [OF inv] have "mx_owner (mon_lock s) = None"
    "s' = s\<lparr>mon_act := False, mon_cond := snd (condition_broadcast (mon_cond s)),
       mon_lock := (mon_lock s)\<lparr>mx_owner := None, mx_depth := 0\<rparr>\<rparr>"
    by (auto simp: mlock_Ret munlock_Ret WAKEUP_THREAD_def)
  with mon_wakeup mon_invD [OF inv] enter_has_lock [OF inv] show ?thesis
    by (intro mon_inv_upd [OF inv, of t _ MIdle]) (auto simp: mon_attrs condition_broadcast_def)
qed

lemma mon_inv_init: "mon_init s \<Longrightarrow> mon_inv N wakeups s"
  by (simp add: mon_init_def mon_inv_def condition_construct_def mon_attrs)

interpretation mon: inv_system mon_init "mon_step spec_locks N wakeups" "mon_inv N wakeups" for N wakeups
  by unfold_locales (auto intro: mon_inv_init mon_inv_step)

section \<open>Progress\<close>

lemma waiting_bounds:
  assumes inv: "mon_inv N wakeups s" and N: "N < 2 ^ 31"
  shows "0 \<le> c_waiting (mon_cond s)" "c_waiting (mon_cond s) \<le> int N"
    "t < N \<Longrightarrow> waits (mon_pc s t) \<le> c_waiting (mon_cond s)"
    "t < N \<Longrightarrow> waits (mon_pc s t) = 0 \<Longrightarrow> c_waiting (mon_cond s) < int N"
proof -
  have le: "(\<Sum>u\<in>A. waits (mon_pc s u)) \<le> int (card A)" if "finite A" for A
    using sum_bounded_above [of A "\<lambda>u. waits (mon_pc s u)" 1] by (simp add: waits_def)
  show "0 \<le> c_waiting (mon_cond s)" unfolding mon_invD(3) [OF inv] by (intro sum_nonneg waits_nonneg)
  show "c_waiting (mon_cond s) \<le> int N" unfolding mon_invD(3) [OF inv] using le [of "{..<N}"] by simp
  show "waits (mon_pc s t) \<le> c_waiting (mon_cond s)" if "t < N"
    unfolding mon_invD(3) [OF inv] by (rule member_le_sum) (use that waits_nonneg in auto)
  show "c_waiting (mon_cond s) < int N" if "t < N" "waits (mon_pc s t) = 0"
    unfolding mon_invD(3) [OF inv] using that le [of "{..<N} - {t}"] sum.remove [of "{..<N}" t "\<lambda>u. waits (mon_pc s u)"]
    by (simp add: of_nat_diff)
qed

lemma waiting_card:
  assumes "mon_inv N wakeups s"
  shows "c_waiting (mon_cond s) = int (card {t. t < N \<and> mon_pc s t \<in> {MSpin, MPoll}})"
proof -
  have "{t. t < N \<and> mon_pc s t \<in> {MSpin, MPoll}} = {..<N} \<inter> {t. mon_pc s t \<in> {MSpin, MPoll}}" by auto
  then show ?thesis unfolding mon_invD(3) [OF assms] waits_def by (subst sum.If_cases) simp_all
qed

text \<open>No counter overflows and no lock is misused.\<close>

lemma acquire_defined:
  assumes inv: "mon_inv N wakeups s" and N: "N < 2 ^ 31" and t: "t < N"
  shows "acquire_step spec_locks t s \<noteq> UB \<and> acquire_step spec_locks t s \<noteq> AssertFail"
proof -
  note d = mon_invD [OF inv] and w = waiting_bounds [OF inv N] and wt = waiting_bounds(3,4) [OF inv N t]
  have lk: "mlock t s \<noteq> UB \<and> mlock t s \<noteq> AssertFail"
    using d(1) by (auto simp: on_lock_def amutex_lock_plain obind_eq_UB obind_eq_AssertFail)
  have ul: "munlock t (s\<lparr>mon_cond := c\<rparr>) \<noteq> UB \<and> munlock t (s\<lparr>mon_cond := c\<rparr>) \<noteq> AssertFail" if "has_lock (mon_pc s t)" for c
    using d(1) d(2) [of t] that by (auto simp: on_lock_def amutex_unlock_plain obind_eq_UB obind_eq_AssertFail)
  have ul': "munlock t s \<noteq> UB \<and> munlock t s \<noteq> AssertFail" if "has_lock (mon_pc s t)"
    using d(1) d(2) [of t] that by (auto simp: on_lock_def amutex_unlock_plain obind_eq_UB obind_eq_AssertFail)
  have en: "\<exists>r. condition_wait_enter (mon_cond s) = Ret r" if "waits (mon_pc s t) = 0"
    using w(1) wt(2) [OF that] N d(4,5)
    by (auto simp: condition_wait_enter_def inc_waiting_def dec_waiting_def c_inc_def c_dec_def fits_def)
  have po: "\<exists>r. condition_wait_poll (mon_cond s) = Ret r" if "waits (mon_pc s t) = 1"
    using w(2) wt(1) that N d(4,5)
    by (auto simp: condition_wait_poll_def condition_wait_leave_def dec_signaled_def dec_waiting_def c_dec_def fits_def)
  show ?thesis
    using lk ul ul' en po
    by (cases "mon_pc s t") (auto simp: acquire_step_def obind_eq_UB obind_eq_AssertFail mon_attrs split: option.splits)
qed

text \<open>A waiting thread that runs alone while the monitor is free acquires it.\<close>

lemma spinner_acquires:
  assumes inv: "mon_inv N wakeups s" and N: "N < 2 ^ 31" and t: "t < N" and p: "mon_pc s t = MSpin"
    and free: "\<not> mon_act s" "mx_owner (mon_lock s) = None"
  shows "\<exists>s1 s2 s3. acquire_step spec_locks t s = Ret s1 \<and> acquire_step spec_locks t s1 = Ret s2 \<and> acquire_step spec_locks t s2 = Ret s3 \<and>
    mon_pc s3 t = MHeld \<and> mon_act s3 \<and> mx_owner (mon_lock s3) = Some t"
proof -
  note d = mon_invD [OF inv]
  have c: "1 \<le> c_waiting (mon_cond s)" "c_signaled (mon_cond s) = c_waiting (mon_cond s)"
    "c_waiting (mon_cond s) \<le> int N"
    using waiting_bounds(2,3) [OF inv N] t p d(6) [OF free(1)] by (auto simp: waits_def dest: meta_spec [of _ t])
  let ?l = "(mon_lock s)\<lparr>mx_owner := Some t, mx_depth := Suc 0\<rparr>"
  let ?c = "(mon_cond s)\<lparr>c_signaled := c_signaled (mon_cond s) - 1, c_waiting := c_waiting (mon_cond s) - 1\<rparr>"
  let ?s1 = "mgoto t MPoll (s\<lparr>mon_lock := ?l\<rparr>)"
  have 1: "acquire_step spec_locks t s = Ret ?s1" using p free(2) d(1) by (simp add: acquire_step_def on_lock_def amutex_lock_plain)
  have "condition_wait_poll (mon_cond s) = Ret (Some ?c)"
    using c N by (simp add: condition_wait_poll_def condition_wait_leave_def dec_signaled_def dec_waiting_def c_dec_def fits_def)
  then have 2: "acquire_step spec_locks t ?s1 = Ret (mgoto t MTest (?s1\<lparr>mon_cond := ?c\<rparr>))" by (simp add: acquire_step_def)
  have 3: "acquire_step spec_locks t (mgoto t MTest (?s1\<lparr>mon_cond := ?c\<rparr>)) =
      Ret (mgoto t MHeld ((mgoto t MTest (?s1\<lparr>mon_cond := ?c\<rparr>))\<lparr>mon_act := True\<rparr>))"
    using free(1) by (simp add: acquire_step_def mgoto_def)
  show ?thesis using 1 2 3 by (intro exI conjI) (assumption+, simp_all add: mgoto_def)
qed

section \<open>Runs\<close>

text \<open>A run given as a list of steps, to exhibit reachable states.\<close>

datatype mon_action = DoStart tid | DoRun tid | DoRelease tid | DoAway tid | DoBack tid

definition returned :: "'a outcome \<Rightarrow> 'a option" where
  "returned r = (case r of Ret x \<Rightarrow> Some x | _ \<Rightarrow> None)"

fun mon_do :: "'g mon_locks \<Rightarrow> nat \<Rightarrow> mon_action \<Rightarrow> 'g monitor \<Rightarrow> 'g monitor option" where
  "mon_do K N (DoStart t) s = (if t < N \<and> mon_pc s t = MIdle then Some (mgoto t MLock s) else None)"
| "mon_do K N (DoRun t) s = (if t < N then returned (acquire_step K t s) else None)"
| "mon_do K N (DoRelease t) s = (if t < N \<and> mon_pc s t = MHeld then returned (RELEASE_THREAD K t s) else None)"
| "mon_do K N (DoAway t) s =
     (if t < N \<and> mon_pc s t = MHeld then map_option (mgoto t MAway) (returned (on_lock (l_THREAD_UNLOCK K) t s)) else None)"
| "mon_do K N (DoBack t) s =
     (if t < N \<and> mon_pc s t = MAway then map_option (mgoto t MHeld) (returned (on_lock (l_THREAD_LOCK K) t s)) else None)"

fun mon_runs :: "'g mon_locks \<Rightarrow> nat \<Rightarrow> mon_action list \<Rightarrow> 'g monitor \<Rightarrow> 'g monitor option" where
  "mon_runs K N [] s = Some s"
| "mon_runs K N (x # xs) s = (case mon_do K N x s of None \<Rightarrow> None | Some s' \<Rightarrow> mon_runs K N xs s')"

lemma returned_Some [simp]: "returned r = Some x \<longleftrightarrow> r = Ret x"
  by (cases r) (auto simp: returned_def)

lemma mon_do_step: "mon_do K N x s = Some s' \<Longrightarrow> mon_step K N wakeups s s'"
  by (cases x) (auto intro: mon_step.intros split: if_splits)

lemma mon_runs_reach:
  assumes "\<And>s s'. mon_step K N wakeups s s' \<Longrightarrow> R s s'"
  shows "mon_runs K N xs s = Some s' \<Longrightarrow> reach init R s \<Longrightarrow> reach init R s'"
proof (induction xs arbitrary: s)
  case (Cons x xs)
  then obtain r where r: "mon_do K N x s = Some r" "mon_runs K N xs r = Some s'" by (auto split: option.splits)
  show ?case by (rule Cons.IH [OF r(2) reach.reach_step [OF Cons.prems(2) assms [OF mon_do_step [OF r(1)]]]])
qed simp

definition mon_start_state :: "amutex monitor" where
  "mon_start_state = \<lparr>mon_lock = amutex_init False, mon_cond = condition_construct, mon_act = False,
     mon_pc = (\<lambda>_. MIdle)\<rparr>"

lemma start_state_reach: "reach mon_init R mon_start_state"
  by (rule reach.reach_init) (simp add: mon_init_def mon_start_state_def)

lemmas mon_runs_init_reach = mon_runs_reach [where K = spec_locks, OF _ _ start_state_reach]

text \<open>
  Thread 0 acquires the monitor and lets go of the mutex, thread 1 waits; then thread 0 comes
  back and releases.
\<close>

definition contended :: "mon_action list" where
  "contended = [DoStart 0, DoRun 0, DoRun 0, DoAway 0, DoStart 1, DoRun 1, DoRun 1, DoRun 1]"

lemma freed_reachable:
  "\<exists>s. reach mon_init (mon_step spec_locks 2 wakeups) s \<and> mon_pc s 1 = MSpin \<and> \<not> mon_act s \<and> mx_owner (mon_lock s) = None"
proof -
  have "map_option (\<lambda>s. (mon_pc s 1, mon_act s, mx_owner (mon_lock s)))
      (mon_runs spec_locks 2 (contended @ [DoBack 0, DoRelease 0]) mon_start_state) = Some (MSpin, False, None)"
    by code_simp
  then show ?thesis by (auto dest: mon_runs_init_reach [where R = "mon_step spec_locks 2 wakeups", rotated])
qed

text \<open>The steps of one thread that runs alone in \<open>ACQUIRE_THREAD\<close>.\<close>

primrec acquire_steps :: "'g mon_locks \<Rightarrow> tid \<Rightarrow> nat \<Rightarrow> 'g monitor \<Rightarrow> 'g monitor outcome" where
  "acquire_steps K t 0 s = Ret s"
| "acquire_steps K t (Suc n) s = obind (acquire_step K t s) (acquire_steps K t n)"

text \<open>With no signal to consume the loop of \<open>condition_wait\<close> takes and releases the mutex forever.\<close>

lemma spinner_stays:
  assumes "plain (mon_lock s)" "c_signaled (mon_cond s) = 0"
    and "mon_pc s t = MSpin \<and> mx_owner (mon_lock s) = None \<or> mon_pc s t = MPoll \<and> mx_owner (mon_lock s) = Some t"
  shows "\<exists>s'. acquire_steps spec_locks t n s = Ret s' \<and> mon_pc s' t \<in> {MSpin, MPoll} \<and> mon_act s' = mon_act s"
  using assms
proof (induction n arbitrary: s)
  case (Suc n)
  let ?held = "mgoto t MPoll (s\<lparr>mon_lock := (mon_lock s)\<lparr>mx_owner := Some t, mx_depth := Suc 0\<rparr>\<rparr>)"
  let ?left = "mgoto t MSpin (s\<lparr>mon_lock := (mon_lock s)\<lparr>mx_owner := None, mx_depth := 0\<rparr>\<rparr>)"
  from Suc.prems(3) show ?case
  proof
    assume p: "mon_pc s t = MSpin \<and> mx_owner (mon_lock s) = None"
    with Suc.prems(1) have "acquire_step spec_locks t s = Ret ?held"
      by (simp add: acquire_step_def on_lock_def amutex_lock_plain)
    with Suc.IH [of ?held] Suc.prems(1,2) show ?thesis by simp
  next
    assume p: "mon_pc s t = MPoll \<and> mx_owner (mon_lock s) = Some t"
    with Suc.prems(1,2) have "acquire_step spec_locks t s = Ret ?left"
      by (simp add: acquire_step_def condition_wait_poll_def on_lock_def amutex_unlock_plain)
    with Suc.IH [of ?left] Suc.prems(1,2) show ?thesis by simp
  qed
qed auto

text \<open>
  Thread 0 has the monitor and has let go of the mutex. Thread 1 has found the flag set and is
  about to enter \<open>condition_wait\<close> when thread 2 runs \<open>WAKEUP_THREAD\<close> without the mutex.
\<close>

definition before_wakeup :: "mon_action list" where
  "before_wakeup = [DoStart 0, DoRun 0, DoRun 0, DoAway 0, DoStart 1, DoRun 1, DoRun 1]"

definition overtaken :: "amutex monitor option" where
  "overtaken = (case mon_runs spec_locks 3 before_wakeup mon_start_state of None \<Rightarrow> None
     | Some s \<Rightarrow> mon_runs spec_locks 3 [DoRun 1] (WAKEUP_THREAD s))"

lemma bare_runs_reach:
  "mon_runs K N xs s = Some s' \<Longrightarrow> reach init (mon_step_bare K N) s \<Longrightarrow> reach init (mon_step_bare K N) s'"
  by (rule mon_runs_reach [of K N True]) (rule bare_other)

lemma overtaken_reach:
  assumes "overtaken = Some s"
  shows "reach mon_init (mon_step_bare spec_locks 3) s"
proof -
  from assms obtain r where r: "mon_runs spec_locks 3 before_wakeup mon_start_state = Some r"
    "mon_runs spec_locks 3 [DoRun 1] (WAKEUP_THREAD r) = Some s"
    unfolding overtaken_def by (auto split: option.splits)
  have "map_option (\<lambda>s. mon_pc s 2) (mon_runs spec_locks 3 before_wakeup mon_start_state) = Some MIdle" by code_simp
  with r(1) have idle: "mon_pc r 2 = MIdle" by simp
  have "reach mon_init (mon_step_bare spec_locks 3) r" by (rule bare_runs_reach [OF r(1) start_state_reach])
  then have "reach mon_init (mon_step_bare spec_locks 3) (WAKEUP_THREAD r)"
    by (rule reach.reach_step) (rule bare_wakeup [of 2], simp_all add: idle)
  then show ?thesis by (rule bare_runs_reach [OF r(2)])
qed

section \<open>Properties\<close>

text \<open>
  C17. No wake-up is lost by callers that hold the mutex around \<open>WAKEUP_THREAD\<close>, or do not
  use it. \<open>c_waiting\<close> is the number of threads in the loop of \<open>condition_wait\<close>,
  \<open>c_signaled\<close> never exceeds it, and whenever the monitor is free every one of these threads
  has a signal to consume; a thread that has found the flag set and has not yet entered
  \<open>condition_wait\<close> still finds it set.
\<close>

theorem monitor_no_lost_wakeup:
  assumes "reach mon_init (mon_step spec_locks N locked_wakeups) s"
  shows "c_waiting (mon_cond s) = int (card {t. t < N \<and> mon_pc s t \<in> {MSpin, MPoll}}) \<and>
    0 \<le> c_signaled (mon_cond s) \<and> c_signaled (mon_cond s) \<le> c_waiting (mon_cond s) \<and>
    (\<not> mon_act s \<longrightarrow> c_signaled (mon_cond s) = c_waiting (mon_cond s)) \<and>
    (\<forall>t. mon_pc s t = MEnter \<longrightarrow> mon_act s)"
  using waiting_card [OF mon.reach_inv [OF assms]] mon_invD(4-6,9) [OF mon.reach_inv [OF assms]] by simp

theorem monitor_no_lost_wakeup_witness:
  "\<exists>s :: amutex monitor. mon_pc s 1 = MSpin \<and> \<not> mon_act s \<and> c_signaled (mon_cond s) = c_waiting (mon_cond s)"
  using freed_reachable [of True] monitor_no_lost_wakeup by blast

text \<open>
  C18. \<open>WAKEUP_THREAD\<close> takes no lock, and a caller that does not hold the mutex can lose the
  wake-up: three threads reach a state in which the monitor and the mutex are free and thread
  1 waits in the loop of \<open>condition_wait\<close> without a signal, because the flag was cleared and
  the condition broadcast between its test of the flag and its \<open>c_waiting++\<close>. However long
  thread 1 then runs, it stays in the loop and never acquires the free monitor.
\<close>

theorem unlocked_wakeup_lost:
  "\<exists>s. reach mon_init (mon_step_bare spec_locks 3) s \<and> \<not> mon_act s \<and> mx_owner (mon_lock s) = None \<and>
     mon_pc s 0 = MAway \<and> mon_pc s 1 = MSpin \<and> mon_pc s 2 = MIdle \<and>
     c_waiting (mon_cond s) = 1 \<and> c_signaled (mon_cond s) = 0 \<and>
     (\<forall>n. \<exists>s'. acquire_steps spec_locks 1 n s = Ret s' \<and> mon_pc s' 1 \<in> {MSpin, MPoll} \<and> \<not> mon_act s')"
proof -
  have "map_option (\<lambda>s. (mon_lock s, mon_cond s, mon_act s, map (mon_pc s) [0, 1, 2])) overtaken =
      Some (amutex_init False, \<lparr>c_waiting = 1, c_signaled = 0\<rparr>, False, [MAway, MSpin, MIdle])" by code_simp
  then obtain s where s: "overtaken = Some s" "mon_lock s = amutex_init False"
    "mon_cond s = \<lparr>c_waiting = 1, c_signaled = 0\<rparr>" "\<not> mon_act s" "map (mon_pc s) [0, 1, 2] = [MAway, MSpin, MIdle]" by auto
  with spinner_stays [of s 1] overtaken_reach [OF s(1)] show ?thesis by (intro exI [of _ s]) simp
qed

end
