(* ===== verification/Monitor_Backend.thy ===== *)
theory Monitor_Backend
  imports Monitor Mutex
begin

text \<open>
  The monitor of \<open>threads.h\<close> composed with a backend: the machine of \<open>Monitor\<close> run with
  \<open>THREAD_LOCK\<close>, \<open>THREAD_UNLOCK\<close>, \<open>mutex_lock\<close> and \<open>mutex_unlock\<close> of \<open>mutex.h\<close> on a constructed
  mutex. It is simulated by the machine over the abstract mutex.
\<close>

section \<open>The functions on the mutex\<close>

definition backend_locks :: "'m mutex_ops \<Rightarrow> ('m, 'a) mutex_t mon_locks" where
  "backend_locks B =
     \<lparr>l_THREAD_LOCK = (\<lambda>t g. drop_log (THREAD_LOCK B True t g)),
      l_THREAD_UNLOCK = (\<lambda>t g. drop_log (THREAD_UNLOCK B True t g)),
      l_mutex_lock = (\<lambda>t g. drop_log (mutex_lock B t g)),
      l_mutex_unlock = (\<lambda>t g. drop_log (mutex_unlock B t g))\<rparr>"

text \<open>What the monitor needs of these functions.\<close>

locale monitor_locks =
  fixes K :: "'l \<Rightarrow> 'g mon_locks" and ok :: "'l \<Rightarrow> ('g \<Rightarrow> amutex) \<Rightarrow> bool"
  assumes lock_ok: "ok L repg \<Longrightarrow> mx_owner (repg g) \<noteq> Some t \<Longrightarrow> f \<in> {l_THREAD_LOCK (K L), l_mutex_lock (K L)} \<Longrightarrow>
      matches (\<lambda>g a. repg g = a) (amutex_lock t (repg g)) (f t g)"
    and unlock_ok: "ok L repg \<Longrightarrow> f \<in> {l_THREAD_UNLOCK (K L), l_mutex_unlock (K L)} \<Longrightarrow>
      matches (\<lambda>g a. repg g = a) (amutex_unlock t (repg g)) (f t g)"

definition rep_ok :: "('l \<Rightarrow> ('m \<Rightarrow> amutex) \<Rightarrow> bool) \<Rightarrow> 'l \<Rightarrow> (('m, 'a) mutex_t \<Rightarrow> amutex) \<Rightarrow> bool" where
  "rep_ok ok L repg \<longleftrightarrow> (\<exists>rep. ok L rep \<and> repg = (\<lambda>g. rep (mutex_m_lock g)))"

sublocale mutex_backend \<subseteq> mon: monitor_locks "\<lambda>L. backend_locks (ops L)" "rep_ok ok"
proof (unfold_locales, goal_cases)
  case (1 L repg g t f)
  then show ?case unfolding backend_locks_def rep_ok_def
    by (auto intro!: matches_drop_log dest: lock_law lock_waits simp: mutex_defs)
next
  case (2 L repg f t g)
  then show ?case unfolding backend_locks_def rep_ok_def
    by (auto intro!: matches_drop_log dest: unlock_law simp: never_waits mutex_defs)
qed

section \<open>The simulation\<close>

definition mon_abs :: "('g \<Rightarrow> amutex) \<Rightarrow> 'g monitor \<Rightarrow> amutex monitor" where
  "mon_abs repg cs = \<lparr>mon_lock = repg (mon_lock cs), mon_cond = mon_cond cs, mon_act = mon_act cs, mon_pc = mon_pc cs\<rparr>"

abbreviation mon_refines :: "('g \<Rightarrow> amutex) \<Rightarrow> amutex monitor outcome \<Rightarrow> 'g monitor outcome \<Rightarrow> bool" where
  "mon_refines repg \<equiv> matches (\<lambda>cs s. mon_abs repg cs = s)"

lemma mon_abs_sel [simp]:
  "mon_lock (mon_abs repg cs) = repg (mon_lock cs)" "mon_cond (mon_abs repg cs) = mon_cond cs"
  "mon_act (mon_abs repg cs) = mon_act cs" "mon_pc (mon_abs repg cs) = mon_pc cs"
  by (simp_all add: mon_abs_def)

lemma mon_abs_upd [simp]:
  "mon_abs repg (mgoto t p cs) = mgoto t p (mon_abs repg cs)"
  "mon_abs repg (cs\<lparr>mon_act := b\<rparr>) = (mon_abs repg cs)\<lparr>mon_act := b\<rparr>"
  "mon_abs repg (cs\<lparr>mon_cond := c\<rparr>) = (mon_abs repg cs)\<lparr>mon_cond := c\<rparr>"
  "mon_abs repg (cs\<lparr>mon_lock := g\<rparr>) = (mon_abs repg cs)\<lparr>mon_lock := repg g\<rparr>"
  "mon_abs repg (WAKEUP_THREAD cs) = WAKEUP_THREAD (mon_abs repg cs)"
  by (simp_all add: mon_abs_def mgoto_def WAKEUP_THREAD_def)

lemma on_lock_refines:
  assumes "matches (\<lambda>g a. repg g = a) (fa t (repg (mon_lock cs))) (f t (mon_lock cs))"
  shows "mon_refines repg (on_lock fa t (mon_abs repg cs)) (on_lock f t cs)"
  unfolding on_lock_def mon_abs_sel by (rule matches_bind [OF assms]) simp

lemma refines_goto:
  "mon_refines repg ra rc \<Longrightarrow>
     mon_refines repg (obind ra (\<lambda>s. Ret (mgoto t p s))) (obind rc (\<lambda>s. Ret (mgoto t p s)))"
  by (rule matches_bind) simp_all

context monitor_locks
begin

lemma on_lock_ok:
  assumes "ok L repg" "mx_owner (repg (mon_lock cs)) \<noteq> Some t" "f \<in> {l_THREAD_LOCK (K L), l_mutex_lock (K L)}"
  shows "mon_refines repg (mlock t (mon_abs repg cs)) (on_lock f t cs)"
  using lock_ok [OF assms] by (rule on_lock_refines)

lemma on_unlock_ok:
  assumes "ok L repg" "f \<in> {l_THREAD_UNLOCK (K L), l_mutex_unlock (K L)}"
  shows "mon_refines repg (munlock t (mon_abs repg cs)) (on_lock f t cs)"
  using unlock_ok [OF assms] by (rule on_lock_refines)

lemma acquire_refines:
  assumes ok: "ok L repg" and own: "\<not> has_lock (mon_pc cs t) \<Longrightarrow> mx_owner (repg (mon_lock cs)) \<noteq> Some t"
  shows "mon_refines repg (acquire_step spec_locks t (mon_abs repg cs)) (acquire_step (K L) t cs)"
proof -
  have l: "mon_refines repg (mlock t (mon_abs repg cs)) (on_lock f t cs)"
    if "\<not> has_lock (mon_pc cs t)" "f \<in> {l_THREAD_LOCK (K L), l_mutex_lock (K L)}" for f
    by (rule on_lock_ok [OF ok own]) (use that in auto)
  have u: "mon_refines repg (munlock t (mon_abs repg cs)) (on_lock (l_mutex_unlock (K L)) t cs)" for cs
    by (rule on_unlock_ok [OF ok]) simp
  show ?thesis
  proof (cases "mon_pc cs t")
    case MEnter
    have "mon_refines repg (obind (munlock t ((mon_abs repg cs)\<lparr>mon_cond := c\<rparr>)) (\<lambda>s. Ret (mgoto t p s)))
        (obind (on_lock (l_mutex_unlock (K L)) t (cs\<lparr>mon_cond := c\<rparr>)) (\<lambda>s. Ret (mgoto t p s)))" for c p
      using refines_goto [OF u [of "cs\<lparr>mon_cond := c\<rparr>"]] by simp
    with MEnter show ?thesis by (auto simp: acquire_step_def intro!: matches_same)
  next
    case MPoll
    with refines_goto [OF u [of cs]] show ?thesis
      by (auto simp: acquire_step_def intro!: matches_same split: option.split)
  qed (use l in \<open>auto simp: acquire_step_def has_lock_def intro!: refines_goto\<close>)
qed

lemma release_refines:
  assumes "ok L repg"
  shows "mon_refines repg (RELEASE_THREAD spec_locks t (mon_abs repg cs)) (RELEASE_THREAD (K L) t cs)"
  using refines_goto [OF on_unlock_ok [OF assms, of "l_THREAD_UNLOCK (K L)" t "WAKEUP_THREAD cs"]]
  by (simp add: RELEASE_THREAD_def WAKEUP_THREAD_def)

text \<open>A step over the backend is a step over the abstract mutex.\<close>

lemma step_abs:
  assumes ok: "ok L repg" and N: "N < 2 ^ 31" and inv: "mon_inv N wakeups (mon_abs repg cs)"
    and st: "mon_step (K L) N wakeups cs cs'"
  shows "mon_step spec_locks N wakeups (mon_abs repg cs) (mon_abs repg cs')"
  using st
proof cases
  case (mon_start t)
  then show ?thesis by (simp add: mon_step.mon_start)
next
  case (mon_run t)
  have "mon_refines repg (acquire_step spec_locks t (mon_abs repg cs)) (Ret cs')"
    using acquire_refines [OF ok, of cs t] mon_invD(2) [OF inv, of t] mon_run(2) by simp
  with acquire_defined [OF inv N mon_run(1)] have "acquire_step spec_locks t (mon_abs repg cs) = Ret (mon_abs repg cs')"
    by (cases "acquire_step spec_locks t (mon_abs repg cs)") auto
  then show ?thesis by (rule mon_step.mon_run [OF mon_run(1)])
next
  case (mon_release t)
  have o: "mx_owner (repg (mon_lock cs)) = Some t" using mon_invD(2) [OF inv, of t] mon_release(2) by (simp add: has_lock_def)
  then obtain s where s: "RELEASE_THREAD spec_locks t (mon_abs repg cs) = Ret s"
    using mon_invD(1) [OF inv] by (simp add: RELEASE_THREAD_def on_lock_def amutex_unlock_plain)
  with release_refines [OF ok, of t cs] mon_release(3) show ?thesis
    by (auto intro: mon_step.mon_release [OF mon_release(1)] simp: mon_release(2))
next
  case (mon_away t s1)
  have o: "mx_owner (repg (mon_lock cs)) = Some t" using mon_invD(2) [OF inv, of t] mon_away(3) by (simp add: has_lock_def)
  then obtain s where s: "munlock t (mon_abs repg cs) = Ret s"
    using mon_invD(1) [OF inv] by (simp add: on_lock_def amutex_unlock_plain)
  with on_unlock_ok [OF ok, of "l_THREAD_UNLOCK (K L)" t cs] mon_away(1,4) have "s = mon_abs repg s1" by simp
  with s mon_step.mon_away [of t N "mon_abs repg cs" spec_locks s] mon_away show ?thesis by simp
next
  case (mon_back t s1)
  have "mx_owner (repg (mon_lock cs)) \<noteq> Some t" using mon_invD(2) [OF inv, of t] mon_back(3) by (simp add: has_lock_def)
  from on_lock_ok [OF ok this, of "l_THREAD_LOCK (K L)"] mon_back(4) mon_invD(1) [OF inv]
  have "mlock t (mon_abs repg cs) = Ret (mon_abs repg s1)"
    by (auto simp: on_lock_def amutex_lock_plain split: if_splits)
  with mon_step.mon_back [of t N "mon_abs repg cs" spec_locks] mon_back show ?thesis by simp
next
  case (mon_wakeup t s1)
  note plain = mon_invD(1) [OF inv]
  have "mx_owner (repg (mon_lock cs)) \<noteq> Some t" using mon_invD(2) [OF inv, of t] mon_wakeup(3) by (simp add: has_lock_def)
  from on_lock_ok [OF ok this, of "l_THREAD_LOCK (K L)"] mon_wakeup(4) plain
  have 1: "mlock t (mon_abs repg cs) = Ret (mon_abs repg s1)"
    by (auto simp: on_lock_def amutex_lock_plain split: if_splits)
  with plain obtain s where "munlock t (mon_abs repg (WAKEUP_THREAD s1)) = Ret s"
    by (auto simp: mlock_Ret munlock_Ret WAKEUP_THREAD_def)
  with on_unlock_ok [OF ok, of "l_THREAD_UNLOCK (K L)" t "WAKEUP_THREAD s1"] mon_wakeup(5)
  have "munlock t (WAKEUP_THREAD (mon_abs repg s1)) = Ret (mon_abs repg cs')" by simp
  with 1 mon_step.mon_wakeup [of wakeups t N "mon_abs repg cs" spec_locks] mon_wakeup show ?thesis by simp
qed

lemma reach_abs:
  assumes ok: "ok L repg" and N: "N < 2 ^ 31" and init: "\<And>cs. init cs \<Longrightarrow> mon_init (mon_abs repg cs)"
    and r: "reach init (mon_step (K L) N wakeups) cs"
  shows "reach mon_init (mon_step spec_locks N wakeups) (mon_abs repg cs)"
  using r
proof induction
  case (reach_init cs)
  from reach.reach_init [of mon_init, OF init [OF reach_init]] show ?case .
next
  case (reach_step cs cs')
  from reach.reach_step [OF reach_step.IH step_abs [OF ok N mon.reach_inv [OF reach_step.IH] reach_step.hyps(2)]] show ?case .
qed

end

section \<open>What holds over a backend\<close>

text \<open>
  At the start the mutex has been built by its constructor, whose initialisation succeeded,
  the condition has been constructed, and the flag is clear.
\<close>

definition mon_built :: "bool \<Rightarrow> 'm mutex_ops \<Rightarrow> 'a atomic_lock_lib \<Rightarrow> ('m, 'a) mutex_t monitor \<Rightarrow> bool" where
  "mon_built debug B A s \<longleftrightarrow>
     (\<exists>p m e1 e2. ti_mutex_init B False (mutex_m_lock p) = Ret ((SUCCESS, m), e1) \<and>
        mca_threads_mutex_constructor debug B A p = Ret (mon_lock s, e2)) \<and>
     mon_cond s = condition_construct \<and> \<not> mon_act s \<and> mon_pc s = (\<lambda>_. MIdle)"

text \<open>
  What is shown of a state: no step is undefined, a holder can release; only one thread is
  between the end of \<open>ACQUIRE_THREAD\<close> and \<open>RELEASE_THREAD\<close>, unless \<open>WAKEUP_THREAD\<close> is used
  (by callers that hold the mutex around it);
  \<open>c_waiting\<close> counts the threads in the loop of \<open>condition_wait\<close>, and all of them have a signal
  when the monitor is free; and then such a thread that runs alone acquires the monitor,
  provided nobody has the mutex.
\<close>

definition monitor_correct :: "'g mon_locks \<Rightarrow> ('g \<Rightarrow> amutex) \<Rightarrow> nat \<Rightarrow> bool \<Rightarrow> 'g monitor \<Rightarrow> bool" where
  "monitor_correct K repg N wakeups s \<longleftrightarrow>
     (\<forall>t<N. acquire_step K t s \<notin> {UB, AssertFail}) \<and>
     (\<forall>t<N. mon_pc s t = MHeld \<longrightarrow> (\<exists>s'. RELEASE_THREAD K t s = Ret s')) \<and>
     (\<not> wakeups \<longrightarrow> (\<forall>t. acquired (mon_pc s t) \<longrightarrow> mon_act s \<and> (\<forall>u. acquired (mon_pc s u) \<longrightarrow> u = t))) \<and>
     c_waiting (mon_cond s) = int (card {t. t < N \<and> mon_pc s t \<in> {MSpin, MPoll}}) \<and>
     (\<not> mon_act s \<longrightarrow> c_signaled (mon_cond s) = c_waiting (mon_cond s)) \<and>
     (\<forall>t<N. mon_pc s t = MSpin \<longrightarrow> \<not> mon_act s \<longrightarrow> mx_owner (repg (mon_lock s)) = None \<longrightarrow>
        (\<exists>s1 s2 s3. acquire_step K t s = Ret s1 \<and> acquire_step K t s1 = Ret s2 \<and> acquire_step K t s2 = Ret s3 \<and>
           mon_pc s3 t = MHeld \<and> mon_act s3 \<and> mx_owner (repg (mon_lock s3)) = Some t))"

context monitor_locks
begin

text \<open>A step that the abstract machine takes is taken over the backend.\<close>

lemma acquire_Ret:
  assumes "ok L repg" "mon_inv N wakeups (mon_abs repg cs)" "acquire_step spec_locks t (mon_abs repg cs) = Ret s'"
  shows "\<exists>cs'. acquire_step (K L) t cs = Ret cs' \<and> mon_abs repg cs' = s'"
  using acquire_refines [OF assms(1), of cs t] mon_invD(2) [OF assms(2), of t] assms(3) by auto

lemma waiter_acquires:
  assumes ok: "ok L repg" and N: "N < 2 ^ 31" and inv: "mon_inv N wakeups (mon_abs repg cs)"
    and t: "t < N" and free: "mon_pc cs t = MSpin" "\<not> mon_act cs" "mx_owner (repg (mon_lock cs)) = None"
  shows "\<exists>s1 s2 s3. acquire_step (K L) t cs = Ret s1 \<and> acquire_step (K L) t s1 = Ret s2 \<and> acquire_step (K L) t s2 = Ret s3 \<and>
    mon_pc s3 t = MHeld \<and> mon_act s3 \<and> mx_owner (repg (mon_lock s3)) = Some t"
proof -
  from spinner_acquires [OF inv N t] free obtain s1 s2 s3 where
    s: "acquire_step spec_locks t (mon_abs repg cs) = Ret s1" "acquire_step spec_locks t s1 = Ret s2"
      "acquire_step spec_locks t s2 = Ret s3" "mon_pc s3 t = MHeld" "mon_act s3" "mx_owner (mon_lock s3) = Some t" by auto
  from acquire_Ret [OF ok inv s(1)] obtain c1 where c1: "acquire_step (K L) t cs = Ret c1" "mon_abs repg c1 = s1" by blast
  have inv1: "mon_inv N wakeups (mon_abs repg c1)" using mon_inv_acquire [OF inv t s(1)] c1(2) by simp
  from acquire_Ret [OF ok inv1] s(2) c1(2) obtain c2 where c2: "acquire_step (K L) t c1 = Ret c2" "mon_abs repg c2 = s2" by blast
  have inv2: "mon_inv N wakeups (mon_abs repg c2)" using mon_inv_acquire [OF inv1 t] s(2) c1(2) c2(2) by simp
  from acquire_Ret [OF ok inv2] s(3) c2(2) obtain c3 where c3: "acquire_step (K L) t c2 = Ret c3" "mon_abs repg c3 = s3" by blast
  from c1(1) c2(1) c3 s(4-6) show ?thesis by (metis mon_abs_sel(1,3,4))
qed

lemma inv_correct:
  assumes ok: "ok L repg" and N: "N < 2 ^ 31" and inv: "mon_inv N wakeups (mon_abs repg cs)"
  shows "monitor_correct (K L) repg N wakeups cs"
proof -
  have def: "acquire_step (K L) t cs \<notin> {UB, AssertFail}" if "t < N" for t
    using acquire_refines [OF ok, of cs t] mon_invD(2) [OF inv, of t] acquire_defined [OF inv N that]
    by (cases "acquire_step spec_locks t (mon_abs repg cs)") auto
  have rel: "\<exists>s'. RELEASE_THREAD (K L) t cs = Ret s'" if "mon_pc cs t = MHeld" for t
  proof -
    have "mx_owner (repg (mon_lock cs)) = Some t" using mon_invD(2) [OF inv, of t] that by (simp add: has_lock_def)
    with release_refines [OF ok, of t cs] mon_invD(1) [OF inv] show ?thesis
      by (auto simp: RELEASE_THREAD_def on_lock_def amutex_unlock_plain)
  qed
  have excl: "mon_act cs \<and> (\<forall>u. acquired (mon_pc cs u) \<longrightarrow> u = t)" if "\<not> wakeups" "acquired (mon_pc cs t)" for t
    using mon_invD(7,8) [OF inv that(1)] that(2) by simp
  have cnt: "c_waiting (mon_cond cs) = int (card {t. t < N \<and> mon_pc cs t \<in> {MSpin, MPoll}})"
    using waiting_card [OF inv] by simp
  have sig: "\<not> mon_act cs \<Longrightarrow> c_signaled (mon_cond cs) = c_waiting (mon_cond cs)" using mon_invD(6) [OF inv] by simp
  show ?thesis unfolding monitor_correct_def
    using def rel excl cnt sig waiter_acquires [OF ok N inv] by (intro conjI) blast+
qed

end

context mutex_backend
begin

lemma monitor_over_backend:
  assumes ok: "ok L rep" "init_ok L False" and N: "N < 2 ^ 31"
    and r: "reach (mon_built debug (ops L) A) (mon_step (backend_locks (ops L)) N wakeups) cs"
  shows "monitor_correct (backend_locks (ops L)) (\<lambda>g. rep (mutex_m_lock g)) N wakeups cs"
proof -
  have o: "rep_ok ok L (\<lambda>g. rep (mutex_m_lock g))" using ok(1) by (auto simp: rep_ok_def)
  have "mon_init (mon_abs (\<lambda>g. rep (mutex_m_lock g)) s)" if "mon_built debug (ops L) A s" for s
    using that init_law [OF ok]
    by (cases debug) (auto simp: mon_built_def mon_init_def mon_abs_def mca_threads_mutex_constructor_def
        construct_mutex_def c_assert_def dest!: arg_cong [where f = mutex_m_lock])
  from mon.reach_abs [OF o N this r] show ?thesis
    by (intro mon.inv_correct [OF o N] Monitor.mon.reach_inv)
qed

end

section \<open>Runs\<close>

definition demo_monitor :: "(amutex, unit) mutex_t monitor" where
  "demo_monitor = \<lparr>mon_lock = demo_mutex False, mon_cond = condition_construct, mon_act = False, mon_pc = (\<lambda>_. MIdle)\<rparr>"

lemma demo_built:
  assumes "ti_mutex_init B False (amutex_init False) = Ret ((SUCCESS, amutex_init False), ev)"
  shows "mon_built debug B demo_atomic_lock demo_monitor"
  unfolding mon_built_def mca_threads_mutex_constructor_def construct_mutex_def
  by (cases debug) (auto simp: assms demo_monitor_def demo_mutex_def demo_atomic_lock_def c_assert_def
      intro!: exI [of _ "demo_mutex False"])

lemma backend_contended:
  assumes "ti_mutex_init B False (amutex_init False) = Ret ((SUCCESS, amutex_init False), ev)"
    and "map_option (\<lambda>s. (mon_pc s 1, mon_act s, mx_owner (mutex_m_lock (mon_lock s))))
      (mon_runs (backend_locks B) 2 (contended @ [DoBack 0, DoRelease 0]) demo_monitor) = Some (MSpin, False, None)"
  shows "\<exists>s. reach (mon_built debug B demo_atomic_lock) (mon_step (backend_locks B) 2 wakeups) s \<and>
    mon_pc s 1 = MSpin \<and> \<not> mon_act s \<and> mx_owner (mutex_m_lock (mon_lock s)) = None"
proof -
  from assms(2) obtain s where s: "mon_runs (backend_locks B) 2 (contended @ [DoBack 0, DoRelease 0]) demo_monitor = Some s"
    "mon_pc s 1 = MSpin" "\<not> mon_act s" "mx_owner (mutex_m_lock (mon_lock s)) = None" by auto
  with mon_runs_reach [OF _ s(1) reach.reach_init] demo_built [OF assms(1)] show ?thesis by blast
qed

lemma pthreads_contended:
  "\<exists>s. reach (mon_built True (pthreads_mutex_ops True (ref_pthreads True)) demo_atomic_lock)
      (mon_step (backend_locks (pthreads_mutex_ops True (ref_pthreads True))) 2 wakeups) s \<and>
    mon_pc s 1 = MSpin \<and> \<not> mon_act s \<and> mx_owner (mutex_m_lock (mon_lock s)) = None"
  by (rule backend_contended, simp add: pthreads_mutex_ops_def thread_internal_mutex_init_pt_def ref_pthreads_def, code_simp)

lemma argobots_contended:
  "\<exists>s. reach (mon_built True (argobots_mutex_ops True ref_argobots) demo_atomic_lock)
      (mon_step (backend_locks (argobots_mutex_ops True ref_argobots)) 2 wakeups) s \<and>
    mon_pc s 1 = MSpin \<and> \<not> mon_act s \<and> mx_owner (mutex_m_lock (mon_lock s)) = None"
  by (rule backend_contended, simp add: argobots_mutex_ops_def thread_internal_mutex_init_abt_def ref_argobots_def, code_simp)

lemma qthreads_contended:
  "\<exists>s. reach (mon_built True (qthreads_mutex_ops True ref_qthreads) demo_atomic_lock)
      (mon_step (backend_locks (qthreads_mutex_ops True ref_qthreads)) 2 wakeups) s \<and>
    mon_pc s 1 = MSpin \<and> \<not> mon_act s \<and> mx_owner (mutex_m_lock (mon_lock s)) = None"
  by (rule backend_contended, simp add: qthreads_mutex_ops_def thread_internal_mutex_init_qt_def ref_qthreads_def, code_simp)

section \<open>Properties\<close>

text \<open>
  C30. Composed with each of the three backends, in debug and release builds, and for any
  number of threads that an \<open>int\<close> can count, the monitor is correct for callers that hold the
  mutex around \<open>WAKEUP_THREAD\<close> or do not use it: no counter overflows and no mutex is misused,
  a holder can release, no wake-up is lost, and a waiting thread that runs while the monitor is
  free acquires it. If nobody frees the monitor by \<open>WAKEUP_THREAD\<close>, only
  one thread at a time is between the end of \<open>ACQUIRE_THREAD\<close> and \<open>RELEASE_THREAD\<close>, also while
  it has released the mutex in between, and the flag is set then.
\<close>

theorem monitor_correct_on_backends:
  assumes "some_backend debug LP LA LQ rep B" "N < 2 ^ 31"
    and "reach (mon_built debug B A) (mon_step (backend_locks B) N locked_wakeups) cs"
  shows "monitor_correct (backend_locks B) (\<lambda>g. rep (mutex_m_lock g)) N locked_wakeups cs"
proof -
  have "pt_init_ok debug LP False" by (simp add: pt_init_ok_def)
  with assms(1) pt.monitor_over_backend [OF _ _ assms(2), of LP rep debug]
    abt.monitor_over_backend [OF _ TrueI assms(2), of LA rep] qt.monitor_over_backend [OF _ TrueI assms(2), of LQ rep] assms(3)
  show ?thesis unfolding some_backend_def by blast
qed

theorem monitor_correct_on_backends_witness:
  "(\<exists>s :: (amutex, unit) mutex_t monitor. mon_pc s 1 = MSpin \<and> \<not> mon_act s \<and>
      monitor_correct (backend_locks (pthreads_mutex_ops True (ref_pthreads True))) (\<lambda>g. id (mutex_m_lock g)) 2 False s) \<and>
   (\<exists>s :: (amutex, unit) mutex_t monitor. mon_pc s 1 = MSpin \<and> \<not> mon_act s \<and>
      monitor_correct (backend_locks (argobots_mutex_ops True ref_argobots)) (\<lambda>g. id (mutex_m_lock g)) 2 False s) \<and>
   (\<exists>s :: (amutex, unit) mutex_t monitor. mon_pc s 1 = MSpin \<and> \<not> mon_act s \<and>
      monitor_correct (backend_locks (qthreads_mutex_ops True ref_qthreads)) (\<lambda>g. id (mutex_m_lock g)) 2 False s)"
proof -
  note correct = monitor_correct_on_backends [OF demo_backends(1) [of True], of 2]
    monitor_correct_on_backends [OF demo_backends(2) [of True], of 2] monitor_correct_on_backends [OF demo_backends(3) [of True], of 2]
  show ?thesis
    using pthreads_contended [of False] argobots_contended [of False] qthreads_contended [of False] correct
    by simp blast
qed

end
