(* ===== verification/Tsd.thy ===== *)
theory Tsd
  imports Mutex
begin

text \<open>
  Thread-specific data: the keys of the three backends (\<open>threads_*_tsd.h\<close> and
  \<open>threads_*_module.c\<close>), and tracked keys (\<open>tsd.h\<close>, \<open>impl/base/tsd.c\<close>), which also remember
  the values of all threads so that destroying the key destroys them.

  The native keys of the thread libraries, OPAL's lists and its allocator are not in the
  repository: they are arguments, with what their documentation says as hypotheses.
\<close>

section \<open>Keys of the backends\<close>

text \<open>
  The library's functions on keys. A key holds a pointer per thread and the function that
  is called with it when the thread ends, here by its name and \<open>None\<close> for \<open>NULL\<close>; \<open>key_calls\<close>
  is that function. \<open>key_get\<close> returns a code and the pointer, where only Argobots' code is looked
  at. \<open>key_initialized\<close> is the result of \<open>ABT_initialized\<close>, which the other backends do not
  call.
\<close>

type_synonym fn_ptr = "string option"

record 'k key_lib =
  key_success :: int
  key_initialized :: int
  key_create :: "fn_ptr \<Rightarrow> int \<times> 'k"
  key_calls :: "'k \<Rightarrow> fn_ptr"
  key_delete :: "'k \<Rightarrow> int \<times> 'k"
  key_set :: "tid \<Rightarrow> 'k \<Rightarrow> addr option \<Rightarrow> int \<times> 'k"
  key_get :: "tid \<Rightarrow> 'k \<Rightarrow> int \<times> addr option"

text \<open>
  What a backend offers. The result of \<open>tsd_get\<close> is \<open>None\<close> when it has not written through
  its pointer argument. Functions that first make sure that the library is initialised also
  return that event, which the record leaves out.
\<close>

record 'k tsd_ops =
  tsd_key_create :: "fn_ptr \<Rightarrow> rc \<times> 'k"
  tsd_key_delete :: "'k \<Rightarrow> rc \<times> 'k"
  tsd_set :: "tid \<Rightarrow> 'k \<Rightarrow> addr option \<Rightarrow> rc \<times> 'k"
  tsd_get :: "tid \<Rightarrow> 'k \<Rightarrow> rc \<times> addr option option"

text \<open>pthreads\<close>

definition tsd_key_create_pt :: "'k key_lib \<Rightarrow> fn_ptr \<Rightarrow> rc \<times> 'k" where
  "tsd_key_create_pt K destructor = (let (r, k) = key_create K destructor in (if r = 0 then SUCCESS else ERR_IN_ERRNO, k))"

definition tsd_key_delete_pt :: "'k key_lib \<Rightarrow> 'k \<Rightarrow> rc \<times> 'k" where
  "tsd_key_delete_pt K k = (let (r, k) = key_delete K k in (if r = 0 then SUCCESS else ERR_IN_ERRNO, k))"

definition tsd_set_pt :: "'k key_lib \<Rightarrow> tid \<Rightarrow> 'k \<Rightarrow> addr option \<Rightarrow> rc \<times> 'k" where
  "tsd_set_pt K t k v = (let (r, k) = key_set K t k v in (if r = 0 then SUCCESS else ERR_IN_ERRNO, k))"

definition tsd_get_pt :: "'k key_lib \<Rightarrow> tid \<Rightarrow> 'k \<Rightarrow> rc \<times> addr option option" where
  "tsd_get_pt K t k = (SUCCESS, Some (snd (key_get K t k)))"

definition pthreads_tsd :: "'k key_lib \<Rightarrow> 'k tsd_ops" where
  "pthreads_tsd K = \<lparr>tsd_key_create = tsd_key_create_pt K, tsd_key_delete = tsd_key_delete_pt K,
     tsd_set = tsd_set_pt K, tsd_get = tsd_get_pt K\<rparr>"

text \<open>Argobots\<close>

definition tsd_key_create_abt :: "'k key_lib \<Rightarrow> fn_ptr \<Rightarrow> (rc \<times> 'k) \<times> event list" where
  "tsd_key_create_abt K destructor =
     (let (r, k) = key_create K destructor in
      ((if r = key_success K then SUCCESS else ERROR, k), threads_argobots_ensure_init (key_success K) (key_initialized K)))"

definition tsd_key_delete_abt :: "'k key_lib \<Rightarrow> 'k \<Rightarrow> rc \<times> 'k" where
  "tsd_key_delete_abt K k = (let (r, k) = key_delete K k in (if r = key_success K then SUCCESS else ERROR, k))"

definition tsd_set_abt :: "'k key_lib \<Rightarrow> tid \<Rightarrow> 'k \<Rightarrow> addr option \<Rightarrow> (rc \<times> 'k) \<times> event list" where
  "tsd_set_abt K t k v =
     (let (r, k) = key_set K t k v in
      ((if r = key_success K then SUCCESS else ERROR, k), threads_argobots_ensure_init (key_success K) (key_initialized K)))"

definition tsd_get_abt :: "'k key_lib \<Rightarrow> tid \<Rightarrow> 'k \<Rightarrow> rc \<times> addr option option" where
  "tsd_get_abt K t k =
     (let (r, v) = key_get K t k in if r = key_success K then (SUCCESS, Some v) else (ERROR, None))"

definition argobots_tsd :: "'k key_lib \<Rightarrow> 'k tsd_ops" where
  "argobots_tsd K = \<lparr>tsd_key_create = (\<lambda>d. fst (tsd_key_create_abt K d)), tsd_key_delete = tsd_key_delete_abt K,
     tsd_set = (\<lambda>t k v. fst (tsd_set_abt K t k v)), tsd_get = tsd_get_abt K\<rparr>"

text \<open>Qthreads; the result of \<open>qthread_key_create\<close> is not looked at.\<close>

definition tsd_key_create_qt :: "'k key_lib \<Rightarrow> fn_ptr \<Rightarrow> (rc \<times> 'k) \<times> event list" where
  "tsd_key_create_qt K destructor = ((SUCCESS, snd (key_create K destructor)), threads_ensure_init_qthreads)"

definition tsd_key_delete_qt :: "'k key_lib \<Rightarrow> 'k \<Rightarrow> rc \<times> 'k" where
  "tsd_key_delete_qt K k = (let (r, k) = key_delete K k in (if 0 = r then SUCCESS else ERROR, k))"

definition tsd_set_qt :: "'k key_lib \<Rightarrow> tid \<Rightarrow> 'k \<Rightarrow> addr option \<Rightarrow> rc \<times> 'k" where
  "tsd_set_qt K t k v = (let (r, k) = key_set K t k v in (if 0 = r then SUCCESS else ERROR, k))"

definition tsd_get_qt :: "'k key_lib \<Rightarrow> tid \<Rightarrow> 'k \<Rightarrow> rc \<times> addr option option" where
  "tsd_get_qt K t k = (SUCCESS, Some (snd (key_get K t k)))"

definition qthreads_tsd :: "'k key_lib \<Rightarrow> 'k tsd_ops" where
  "qthreads_tsd K = \<lparr>tsd_key_create = (\<lambda>d. fst (tsd_key_create_qt K d)), tsd_key_delete = tsd_key_delete_qt K,
     tsd_set = tsd_set_qt K, tsd_get = tsd_get_qt K\<rparr>"

section \<open>The contract of a backend\<close>

text \<open>
  A library whose key \<open>k\<close> holds the value \<open>vals k t\<close> of thread \<open>t\<close>: a fresh key holds nothing and
  has the destructor it was created with, a set keeps the destructor and either stores the value for its thread alone or fails and changes nothing, and a get
  of a usable key succeeds.
\<close>

definition key_lib_ok :: "'k key_lib \<Rightarrow> ('k \<Rightarrow> tid \<Rightarrow> addr option) \<Rightarrow> bool" where
  "key_lib_ok K vals \<longleftrightarrow> key_success K = 0 \<and>
     (\<forall>d k. key_create K d = (0, k) \<longrightarrow> vals k = (\<lambda>_. None) \<and> key_calls K k = d) \<and>
     (\<forall>t k v r k'. key_set K t k v = (r, k') \<longrightarrow> key_calls K k' = key_calls K k \<and> vals k' = (if r = 0 then (vals k)(t := v) else vals k)) \<and>
     (\<forall>t k. key_get K t k = (0, vals k t))"

locale tsd_backend =
  fixes ops :: "'k key_lib \<Rightarrow> 'k tsd_ops"
  assumes create_law: "key_lib_ok K vals \<Longrightarrow> fst (key_create K d) = 0 \<Longrightarrow>
      fst (tsd_key_create (ops K) d) = SUCCESS \<and> vals (snd (tsd_key_create (ops K) d)) = (\<lambda>_. None) \<and>
      key_calls K (snd (tsd_key_create (ops K) d)) = d"
    and set_law: "key_lib_ok K vals \<Longrightarrow> tsd_set (ops K) t k v = (r, k') \<Longrightarrow>
      key_calls K k' = key_calls K k \<and> vals k' = (if r = SUCCESS then (vals k)(t := v) else vals k)"
    and get_law: "key_lib_ok K vals \<Longrightarrow> tsd_get (ops K) t k = (SUCCESS, Some (vals k t))"
begin

text \<open>A value that was set is read back by its thread, and no other thread's value changes.\<close>

lemma get_after_set:
  assumes "key_lib_ok K vals" "tsd_set (ops K) t k v = (SUCCESS, k')"
  shows "tsd_get (ops K) t k' = (SUCCESS, Some v)"
    "u \<noteq> t \<Longrightarrow> tsd_get (ops K) u k' = tsd_get (ops K) u k"
  using set_law [OF assms] get_law [OF assms(1)] by simp_all

end

lemmas tsd_backend_defs = pthreads_tsd_def tsd_key_create_pt_def tsd_set_pt_def tsd_get_pt_def
  argobots_tsd_def tsd_key_create_abt_def tsd_set_abt_def tsd_get_abt_def
  qthreads_tsd_def tsd_key_create_qt_def tsd_set_qt_def tsd_get_qt_def key_lib_ok_def

interpretation ptk: tsd_backend pthreads_tsd
  by unfold_locales (auto simp: tsd_backend_defs split: prod.splits if_splits)

interpretation abtk: tsd_backend argobots_tsd
  by unfold_locales (auto simp: tsd_backend_defs split: prod.splits if_splits)

lemma key_create_vals:
  "key_lib_ok K vals \<Longrightarrow> fst (key_create K d) = 0 \<Longrightarrow>
     vals (snd (key_create K d)) = (\<lambda>_. None) \<and> key_calls K (snd (key_create K d)) = d"
  by (cases "key_create K d") (simp add: key_lib_ok_def)

interpretation qtk: tsd_backend qthreads_tsd
proof (unfold_locales, goal_cases)
  case (1 K vals d)
  with key_create_vals show ?case by (auto simp: qthreads_tsd_def tsd_key_create_qt_def)
qed (auto simp: tsd_backend_defs split: prod.splits if_splits)

section \<open>Tracked keys\<close>

text \<open>
  OPAL's lists, as far as they are used, and the allocator behind \<open>OBJ_NEW\<close>, which returns
  the address of an object that is not in use, or nothing.
\<close>

record 'l obj_lib =
  list_new :: 'l
  list_append :: "'l \<Rightarrow> addr \<Rightarrow> 'l"
  list_remove_item :: "'l \<Rightarrow> addr \<Rightarrow> 'l"
  list_items :: "'l \<Rightarrow> addr list"
  obj_new :: "addr set \<Rightarrow> addr option"

definition obj_lib_ok :: "'l obj_lib \<Rightarrow> bool" where
  "obj_lib_ok J \<longleftrightarrow> list_items J (list_new J) = [] \<and>
     (\<forall>l a. list_items J (list_append J l a) = list_items J l @ [a]) \<and>
     (\<forall>l a. list_items J (list_remove_item J l a) = remove1 a (list_items J l)) \<and>
     (\<forall>live a. obj_new J live = Some a \<longrightarrow> a \<notin> live)"

text \<open>
  A tracked key with its items: \<open>tk_data\<close> is the field \<open>data\<close> of the item at an address,
  \<open>tk_live\<close> the items that have been allocated and not released, and \<open>tk_destroyed\<close> the
  values handed to the user's destructor so far. The field \<open>tracked_key\<close> of every item is
  this key. A pointer value is an \<open>option\<close>, \<open>None\<close> being \<open>NULL\<close>.
\<close>

record ('k, 'm, 'a, 'l, 'v) tracked_key =
  tk_key :: 'k
  tk_mutex :: "('m, 'a) mutex_t"
  tk_list :: 'l
  tk_user_destructor :: bool
  tk_data :: "addr \<Rightarrow> 'v option"
  tk_live :: "addr set"
  tk_destroyed :: "'v option list"

definition under_mutex :: "'m mutex_ops \<Rightarrow> tid \<Rightarrow>
    (('k, 'm, 'a, 'l, 'v) tracked_key \<Rightarrow> ('k, 'm, 'a, 'l, 'v) tracked_key) \<Rightarrow>
    ('k, 'm, 'a, 'l, 'v) tracked_key \<Rightarrow> ('k, 'm, 'a, 'l, 'v) tracked_key outcome" where
  "under_mutex B t f key =
     obind (mutex_lock B t (tk_mutex key)) (\<lambda>(m, _).
       let key = f (key\<lparr>tk_mutex := m\<rparr>) in
       obind (mutex_unlock B t (tk_mutex key)) (\<lambda>(m, _). Ret (key\<lparr>tk_mutex := m\<rparr>)))"

text \<open>The user's destructor, when there is one, and \<open>OBJ_RELEASE\<close> of the item.\<close>

definition finish_item :: "addr \<Rightarrow> ('k, 'm, 'a, 'l, 'v) tracked_key \<Rightarrow> ('k, 'm, 'a, 'l, 'v) tracked_key" where
  "finish_item a key =
     (let key = (if tk_user_destructor key then key\<lparr>tk_destroyed := tk_destroyed key @ [tk_data key a]\<rparr> else key)
      in key\<lparr>tk_live := tk_live key - {a}\<rparr>)"

definition tracked_destructor :: "'m mutex_ops \<Rightarrow> 'l obj_lib \<Rightarrow> tid \<Rightarrow> addr option \<Rightarrow>
    ('k, 'm, 'a, 'l, 'v) tracked_key \<Rightarrow> ('k, 'm, 'a, 'l, 'v) tracked_key outcome" where
  "tracked_destructor B J t arg key =
     (case arg of None \<Rightarrow> Ret key
      | Some a \<Rightarrow>
          obind (under_mutex B t (\<lambda>key. key\<lparr>tk_list := list_remove_item J (tk_list key) a\<rparr>) key)
            (\<lambda>key. Ret (finish_item a key)))"

definition tsd_tracked_key_constructor :: "bool \<Rightarrow> 'm mutex_ops \<Rightarrow> 'a atomic_lock_lib \<Rightarrow> 'l obj_lib \<Rightarrow> 'k tsd_ops \<Rightarrow>
    ('k, 'm, 'a, 'l, 'v) tracked_key \<Rightarrow> ('k, 'm, 'a, 'l, 'v) tracked_key outcome" where
  "tsd_tracked_key_constructor debug B A J T key =
     obind (mca_threads_mutex_constructor debug B A (tk_mutex key)) (\<lambda>(m, _).
       Ret (key\<lparr>tk_mutex := m, tk_list := list_new J, tk_user_destructor := False,
                tk_key := snd (tsd_key_create T (Some ''_tracked_destructor''))\<rparr>))"

text \<open>The loop of \<open>tsd_tracked_key_destructor\<close> over the items the list had at its start.\<close>

fun destroy_items :: "'l obj_lib \<Rightarrow> addr list \<Rightarrow> ('k, 'm, 'a, 'l, 'v) tracked_key \<Rightarrow> ('k, 'm, 'a, 'l, 'v) tracked_key" where
  "destroy_items J [] key = key"
| "destroy_items J (a # as) key =
     destroy_items J as (finish_item a (key\<lparr>tk_list := list_remove_item J (tk_list key) a\<rparr>))"

definition tsd_tracked_key_destructor :: "'m mutex_ops \<Rightarrow> 'l obj_lib \<Rightarrow> 'k tsd_ops \<Rightarrow>
    ('k, 'm, 'a, 'l, 'v) tracked_key \<Rightarrow> ('k, 'm, 'a, 'l, 'v) tracked_key outcome" where
  "tsd_tracked_key_destructor B J T key =
     (let key = key\<lparr>tk_key := snd (tsd_key_delete T (tk_key key))\<rparr>;
          key = destroy_items J (list_items J (tk_list key)) key
      in obind (mca_threads_mutex_destructor B (tk_mutex key)) (\<lambda>(m, _). Ret (key\<lparr>tk_mutex := m\<rparr>)))"

text \<open>The item a thread has, as \<open>tsd_get\<close> leaves it in a variable that was \<open>NULL\<close>.\<close>

definition own_item :: "'k tsd_ops \<Rightarrow> tid \<Rightarrow> ('k, 'm, 'a, 'l, 'v) tracked_key \<Rightarrow> addr option" where
  "own_item T t key = (case snd (tsd_get T t (tk_key key)) of None \<Rightarrow> None | Some v \<Rightarrow> v)"

definition tsd_tracked_key_get :: "'k tsd_ops \<Rightarrow> tid \<Rightarrow> ('k, 'm, 'a, 'l, 'v) tracked_key \<Rightarrow> rc \<times> 'v option" where
  "tsd_tracked_key_get T t key =
     (SUCCESS, case own_item T t key of None \<Rightarrow> None | Some a \<Rightarrow> tk_data key a)"

definition tsd_tracked_key_set :: "'m mutex_ops \<Rightarrow> 'l obj_lib \<Rightarrow> 'k tsd_ops \<Rightarrow> tid \<Rightarrow> 'v option \<Rightarrow>
    ('k, 'm, 'a, 'l, 'v) tracked_key \<Rightarrow> (rc \<times> ('k, 'm, 'a, 'l, 'v) tracked_key) outcome" where
  "tsd_tracked_key_set B J T t p key =
     (let store = (\<lambda>a key.
            let key = key\<lparr>tk_data := (tk_data key)(a := p)\<rparr>;
                (r, k) = tsd_set T t (tk_key key) (Some a)
            in (r, key\<lparr>tk_key := k\<rparr>))
      in case own_item T t key of
           Some a \<Rightarrow> Ret (store a key)
         | None \<Rightarrow>
             (case obj_new J (tk_live key) of
                None \<Rightarrow> Ret (ERR_OUT_OF_RESOURCE, key)
              | Some a \<Rightarrow>
                  obind (under_mutex B t (\<lambda>key. key\<lparr>tk_list := list_append J (tk_list key) a\<rparr>)
                           (key\<lparr>tk_live := insert a (tk_live key)\<rparr>))
                    (\<lambda>key. Ret (store a key))))"

definition tsd_tracked_key_set_destructor :: "bool \<Rightarrow>
    ('k, 'm, 'a, 'l, 'v) tracked_key \<Rightarrow> ('k, 'm, 'a, 'l, 'v) tracked_key" where
  "tsd_tracked_key_set_destructor destructor key = key\<lparr>tk_user_destructor := destructor\<rparr>"

section \<open>What tracked keys rely on\<close>

text \<open>The parts of the contracts of the mutexes and of the keys that the code uses.\<close>

definition locks_ok :: "'m mutex_ops \<Rightarrow> ('m \<Rightarrow> amutex) \<Rightarrow> bool" where
  "locks_ok B rep \<longleftrightarrow>
     (\<forall>t m. mx_owner (rep m) \<noteq> Some t \<longrightarrow>
        matches (\<lambda>m a. rep m = a) (amutex_lock t (rep m)) (drop_log (ti_mutex_lock B t m))) \<and>
     (\<forall>t m. matches (\<lambda>m a. rep m = a) (amutex_unlock t (rep m)) (drop_log (ti_mutex_unlock B t m))) \<and>
     (\<forall>m. matches (\<lambda>_ _. True) (amutex_destroy (rep m)) (drop_log (ti_mutex_destroy B m)))"

definition keys_ok :: "'k tsd_ops \<Rightarrow> ('k \<Rightarrow> tid \<Rightarrow> addr option) \<Rightarrow> bool" where
  "keys_ok T vals \<longleftrightarrow>
     (\<forall>t k v r k'. tsd_set T t k v = (r, k') \<longrightarrow> vals k' = (if r = SUCCESS then (vals k)(t := v) else vals k)) \<and>
     (\<forall>t k. tsd_get T t k = (SUCCESS, Some (vals k t)))"

context mutex_backend
begin

lemma locks_ok: "ok L rep \<Longrightarrow> locks_ok (ops L) rep"
  unfolding locks_ok_def
  by (auto intro!: matches_drop_log dest: lock_law lock_waits unlock_law destroy_law simp: never_waits)

end

context tsd_backend
begin

text \<open>The library calls \<open>_tracked_destructor\<close> for the values of a tracked key.\<close>

lemma constructed_key:
  assumes "key_lib_ok K vals" "fst (key_create K (Some ''_tracked_destructor'')) = 0"
    and "tsd_tracked_key_constructor debug B A J (ops K) raw = Ret key"
  shows "key_calls K (tk_key key) = Some ''_tracked_destructor''" "vals (tk_key key) = (\<lambda>_. None)"
  using create_law [OF assms(1,2)] assms(3) by (auto simp: tsd_tracked_key_constructor_def)

lemma keys_ok: "key_lib_ok K vals \<Longrightarrow> keys_ok (ops K) vals"
  unfolding keys_ok_def using set_law get_law by blast

end

lemma keys_okD:
  assumes "keys_ok T vals"
  shows "tsd_set T t k v = (r, k') \<Longrightarrow> vals k' = (if r = SUCCESS then (vals k)(t := v) else vals k)"
    "own_item T t key = vals (tk_key key) t"
  using assms unfolding keys_ok_def own_item_def by auto

lemma obj_lib_okD:
  assumes "obj_lib_ok J"
  shows "list_items J (list_new J) = []" "list_items J (list_append J l a) = list_items J l @ [a]"
    "list_items J (list_remove_item J l a) = remove1 a (list_items J l)"
    "obj_new J live = Some a \<Longrightarrow> a \<notin> live"
  using assms unfolding obj_lib_ok_def by blast+

text \<open>On a plain mutex the functions of a backend do what the abstract mutex does.\<close>

lemma locks_plain:
  assumes ok: "locks_ok B rep" and p: "plain (rep (mutex_m_lock m))"
  shows "mx_owner (rep (mutex_m_lock m)) = None \<Longrightarrow> \<exists>x ev. mutex_lock B t m = Ret (m\<lparr>mutex_m_lock := x\<rparr>, ev) \<and>
      rep x = (rep (mutex_m_lock m))\<lparr>mx_owner := Some t, mx_depth := Suc 0\<rparr>"
    "mx_owner (rep (mutex_m_lock m)) = Some u \<Longrightarrow> u \<noteq> t \<Longrightarrow> mutex_lock B t m = Block"
    "mx_owner (rep (mutex_m_lock m)) = Some t \<Longrightarrow> \<exists>x ev. mutex_unlock B t m = Ret (m\<lparr>mutex_m_lock := x\<rparr>, ev) \<and>
      rep x = (rep (mutex_m_lock m))\<lparr>mx_owner := None, mx_depth := 0\<rparr>"
    "mx_owner (rep (mutex_m_lock m)) = None \<Longrightarrow> \<exists>x ev. mca_threads_mutex_destructor B m = Ret (m\<lparr>mutex_m_lock := x\<rparr>, ev)"
proof -
  let ?m = "mutex_m_lock m"
  have l: "mx_owner (rep ?m) \<noteq> Some t \<Longrightarrow>
      matches (\<lambda>m a. rep m = a) (amutex_lock t (rep ?m)) (drop_log (ti_mutex_lock B t ?m))"
    and u: "matches (\<lambda>m a. rep m = a) (amutex_unlock t (rep ?m)) (drop_log (ti_mutex_unlock B t ?m))"
    and d: "matches (\<lambda>_ _. True) (amutex_destroy (rep ?m)) (drop_log (ti_mutex_destroy B ?m))"
    using ok unfolding locks_ok_def by blast+
  show "\<exists>x ev. mutex_lock B t m = Ret (m\<lparr>mutex_m_lock := x\<rparr>, ev) \<and>
      rep x = (rep ?m)\<lparr>mx_owner := Some t, mx_depth := Suc 0\<rparr>" if "mx_owner (rep ?m) = None"
    using l p that by (auto simp: amutex_lock_plain drop_log_def mutex_lock_def on_m_lock_def)
  show "mutex_lock B t m = Block" if "mx_owner (rep ?m) = Some u" "u \<noteq> t"
    using l p that by (auto simp: amutex_lock_plain drop_log_def mutex_lock_def on_m_lock_def obind_eq_Block)
  show "\<exists>x ev. mutex_unlock B t m = Ret (m\<lparr>mutex_m_lock := x\<rparr>, ev) \<and>
      rep x = (rep ?m)\<lparr>mx_owner := None, mx_depth := 0\<rparr>" if "mx_owner (rep ?m) = Some t"
    using u p that by (auto simp: amutex_unlock_plain drop_log_def mutex_unlock_def on_m_lock_def)
  show "\<exists>x ev. mca_threads_mutex_destructor B m = Ret (m\<lparr>mutex_m_lock := x\<rparr>, ev)" if "mx_owner (rep ?m) = None"
    using d p that by (auto simp: amutex_destroy_def plain_def drop_log_def mca_threads_mutex_destructor_def on_m_lock_def)
qed

lemma finish_item_fields [simp]:
  "tk_key (finish_item a key) = tk_key key" "tk_mutex (finish_item a key) = tk_mutex key"
  "tk_list (finish_item a key) = tk_list key" "tk_data (finish_item a key) = tk_data key"
  "tk_live (finish_item a key) = tk_live key - {a}"
  "tk_user_destructor (finish_item a key) = tk_user_destructor key"
  "tk_destroyed (finish_item a key) =
     (if tk_user_destructor key then tk_destroyed key @ [tk_data key a] else tk_destroyed key)"
  by (simp_all add: finish_item_def Let_def)

lemma destroy_items_effect:
  "obj_lib_ok J \<Longrightarrow> list_items J (tk_list key) = as \<Longrightarrow>
     tk_live (destroy_items J as key) = tk_live key - set as \<and>
     list_items J (tk_list (destroy_items J as key)) = [] \<and>
     tk_mutex (destroy_items J as key) = tk_mutex key \<and>
     tk_destroyed (destroy_items J as key) =
       (if tk_user_destructor key then tk_destroyed key @ map (tk_data key) as else tk_destroyed key)"
proof (induction as arbitrary: key)
  case (Cons a as)
  let ?k = "finish_item a (key\<lparr>tk_list := list_remove_item J (tk_list key) a\<rparr>)"
  have "list_items J (tk_list ?k) = as" using Cons.prems by (simp add: obj_lib_okD(3))
  from Cons.IH [OF Cons.prems(1) this] show ?case by auto
qed simp

section \<open>Libraries to run on\<close>

text \<open>A library all of whose keys have the destructor of tracked keys; it has no room for others.\<close>

definition ref_keys :: "(tid \<Rightarrow> addr option) key_lib" where
  "ref_keys = \<lparr>key_success = 0, key_initialized = 0,
     key_create = (\<lambda>d. (if d = Some ''_tracked_destructor'' then 0 else 12, \<lambda>_. None)),
     key_calls = (\<lambda>_. Some ''_tracked_destructor''), key_delete = (\<lambda>k. (0, k)),
     key_set = (\<lambda>t k v. (0, k(t := v))), key_get = (\<lambda>t k. (0, k t))\<rparr>"

text \<open>The allocator has eight objects.\<close>

definition ref_objs :: "addr list obj_lib" where
  "ref_objs = \<lparr>list_new = [], list_append = (\<lambda>l a. l @ [a]), list_remove_item = (\<lambda>l a. remove1 a l),
     list_items = (\<lambda>l. l), obj_new = (\<lambda>live. List.find (\<lambda>a. a \<notin> live) [1..<9])\<rparr>"

lemma ref_keys_ok: "key_lib_ok ref_keys (\<lambda>k. k)"
  by (simp add: key_lib_ok_def ref_keys_def)

lemma ref_objs_ok: "obj_lib_ok ref_objs"
  by (simp add: obj_lib_ok_def ref_objs_def find_Some_iff) blast

end
