(* ===== verification/Tracked_Keys.thy ===== *)
theory Tracked_Keys
  imports Tsd
begin

text \<open>
  Tracked keys (\<open>tsd.h\<close>, \<open>impl/base/tsd.c\<close>) used by any number of threads at once:
  \<open>tsd_tracked_key_set\<close> and \<open>_tracked_destructor\<close> as sequences of steps that interleave with
  those of other threads. A thread that runs alone computes the functions of \<open>Tsd\<close>.
\<close>

section \<open>The machine\<close>

text \<open>
  Where a thread stands in \<open>tsd_tracked_key_set\<close>, whose value argument is kept, or in
  \<open>_tracked_destructor\<close>, which the library calls when the thread ends. The names say what is
  done next.
\<close>

datatype 'v tk_pc = TkIdle
  | SetGet "'v option" | SetNew "'v option" | SetLock addr "'v option" | SetAppend addr "'v option"
  | SetUnlock addr "'v option" | SetData addr "'v option" | SetKey addr "'v option" | SetReturned rc "'v option"
  | ExitTest "addr option" | ExitLock addr | ExitRemove addr | ExitUnlock addr | ExitFinish addr | TkEnded

record ('k, 'm, 'a, 'l, 'v) tk_machine =
  tm_key :: "('k, 'm, 'a, 'l, 'v) tracked_key"
  tm_pc :: "tid \<Rightarrow> 'v tk_pc"

definition tgo :: "tid \<Rightarrow> 'v tk_pc \<Rightarrow> ('k, 'm, 'a, 'l, 'v) tracked_key \<Rightarrow>
    ('k, 'm, 'a, 'l, 'v) tk_machine \<Rightarrow> ('k, 'm, 'a, 'l, 'v) tk_machine outcome" where
  "tgo t p key s = Ret (s\<lparr>tm_key := key, tm_pc := (tm_pc s)(t := p)\<rparr>)"

definition tk_lock :: "'m mutex_ops \<Rightarrow> tid \<Rightarrow> ('k, 'm, 'a, 'l, 'v) tracked_key \<Rightarrow> ('k, 'm, 'a, 'l, 'v) tracked_key outcome" where
  "tk_lock B t key = obind (mutex_lock B t (tk_mutex key)) (\<lambda>(m, _). Ret (key\<lparr>tk_mutex := m\<rparr>))"

definition tk_unlock :: "'m mutex_ops \<Rightarrow> tid \<Rightarrow> ('k, 'm, 'a, 'l, 'v) tracked_key \<Rightarrow> ('k, 'm, 'a, 'l, 'v) tracked_key outcome" where
  "tk_unlock B t key = obind (mutex_unlock B t (tk_mutex key)) (\<lambda>(m, _). Ret (key\<lparr>tk_mutex := m\<rparr>))"

text \<open>The next step of \<open>tsd_tracked_key_set\<close> and of \<open>_tracked_destructor\<close>.\<close>

definition exec_set :: "'m mutex_ops \<Rightarrow> 'l obj_lib \<Rightarrow> 'k tsd_ops \<Rightarrow> tid \<Rightarrow> 'v tk_pc \<Rightarrow>
    ('k, 'm, 'a, 'l, 'v) tk_machine \<Rightarrow> ('k, 'm, 'a, 'l, 'v) tk_machine outcome" where
  "exec_set B J T t pc s =
     (let key = tm_key s in
      case pc of
        SetGet p \<Rightarrow> (case own_item T t key of Some a \<Rightarrow> tgo t (SetData a p) key s | None \<Rightarrow> tgo t (SetNew p) key s)
      | SetNew p \<Rightarrow> (case obj_new J (tk_live key) of
            None \<Rightarrow> tgo t (SetReturned ERR_OUT_OF_RESOURCE p) key s
          | Some a \<Rightarrow> tgo t (SetLock a p) (key\<lparr>tk_live := insert a (tk_live key)\<rparr>) s)
      | SetLock a p \<Rightarrow> obind (tk_lock B t key) (\<lambda>key. tgo t (SetAppend a p) key s)
      | SetAppend a p \<Rightarrow> tgo t (SetUnlock a p) (key\<lparr>tk_list := list_append J (tk_list key) a\<rparr>) s
      | SetUnlock a p \<Rightarrow> obind (tk_unlock B t key) (\<lambda>key. tgo t (SetData a p) key s)
      | SetData a p \<Rightarrow> tgo t (SetKey a p) (key\<lparr>tk_data := (tk_data key)(a := p)\<rparr>) s
      | SetKey a p \<Rightarrow> let (r, k) = tsd_set T t (tk_key key) (Some a)
          in tgo t (SetReturned r p) (key\<lparr>tk_key := k\<rparr>) s
      | _ \<Rightarrow> Block)"

definition exec_exit :: "'m mutex_ops \<Rightarrow> 'l obj_lib \<Rightarrow> tid \<Rightarrow> 'v tk_pc \<Rightarrow>
    ('k, 'm, 'a, 'l, 'v) tk_machine \<Rightarrow> ('k, 'm, 'a, 'l, 'v) tk_machine outcome" where
  "exec_exit B J t pc s =
     (let key = tm_key s in
      case pc of
        ExitTest arg \<Rightarrow> (case arg of None \<Rightarrow> tgo t TkEnded key s | Some a \<Rightarrow> tgo t (ExitLock a) key s)
      | ExitLock a \<Rightarrow> obind (tk_lock B t key) (\<lambda>key. tgo t (ExitRemove a) key s)
      | ExitRemove a \<Rightarrow> tgo t (ExitUnlock a) (key\<lparr>tk_list := list_remove_item J (tk_list key) a\<rparr>) s
      | ExitUnlock a \<Rightarrow> obind (tk_unlock B t key) (\<lambda>key. tgo t (ExitFinish a) key s)
      | ExitFinish a \<Rightarrow> tgo t TkEnded (finish_item a key) s
      | _ \<Rightarrow> Block)"

text \<open>What is true of a thread by where it stands.\<close>

fun pc_item :: "'v tk_pc \<Rightarrow> addr option" where
  "pc_item (SetLock a _) = Some a" | "pc_item (SetAppend a _) = Some a" | "pc_item (SetUnlock a _) = Some a"
| "pc_item (SetData a _) = Some a" | "pc_item (SetKey a _) = Some a" | "pc_item (ExitTest arg) = arg"
| "pc_item (ExitLock a) = Some a" | "pc_item (ExitRemove a) = Some a" | "pc_item (ExitUnlock a) = Some a"
| "pc_item (ExitFinish a) = Some a" | "pc_item _ = None"

fun off_list :: "'v tk_pc \<Rightarrow> addr option" where
  "off_list (SetLock a _) = Some a" | "off_list (SetAppend a _) = Some a" | "off_list (ExitUnlock a) = Some a"
| "off_list (ExitFinish a) = Some a" | "off_list _ = None"

fun tk_locked :: "'v tk_pc \<Rightarrow> bool" where
  "tk_locked (SetAppend _ _) = True" | "tk_locked (SetUnlock _ _) = True" | "tk_locked (ExitRemove _) = True"
| "tk_locked (ExitUnlock _) = True" | "tk_locked _ = False"

fun ending :: "'v tk_pc \<Rightarrow> bool" where
  "ending (ExitTest _) = True" | "ending (ExitLock _) = True" | "ending (ExitRemove _) = True"
| "ending (ExitUnlock _) = True" | "ending (ExitFinish _) = True" | "ending TkEnded = True" | "ending _ = False"

text \<open>How many steps a thread has left.\<close>

fun pc_left :: "'v tk_pc \<Rightarrow> nat" where
  "pc_left (SetGet _) = 7" | "pc_left (SetNew _) = 6" | "pc_left (SetLock _ _) = 5" | "pc_left (SetAppend _ _) = 4"
| "pc_left (SetUnlock _ _) = 3" | "pc_left (SetData _ _) = 2" | "pc_left (SetKey _ _) = 1" | "pc_left (ExitTest _) = 5"
| "pc_left (ExitLock _) = 4" | "pc_left (ExitRemove _) = 3" | "pc_left (ExitUnlock _) = 2" | "pc_left (ExitFinish _) = 1"
| "pc_left _ = 0"

definition tk_exec :: "'m mutex_ops \<Rightarrow> 'l obj_lib \<Rightarrow> 'k tsd_ops \<Rightarrow> tid \<Rightarrow>
    ('k, 'm, 'a, 'l, 'v) tk_machine \<Rightarrow> ('k, 'm, 'a, 'l, 'v) tk_machine outcome" where
  "tk_exec B J T t s =
     (if ending (tm_pc s t) then exec_exit B J t (tm_pc s t) s else exec_set B J T t (tm_pc s t) s)"

text \<open>
  What happens to a key after its construction: a thread that is in no call sets a value or
  ends, whereupon the library clears the thread's value and calls the key's destructor on
  it; a thread inside a call takes a step; and the user's destructor is set.
\<close>

inductive tk_step :: "'m mutex_ops \<Rightarrow> 'l obj_lib \<Rightarrow> 'k tsd_ops \<Rightarrow> ('k \<Rightarrow> tid \<Rightarrow> addr option) \<Rightarrow> nat \<Rightarrow>
    ('k, 'm, 'a, 'l, 'v) tk_machine \<Rightarrow> ('k, 'm, 'a, 'l, 'v) tk_machine \<Rightarrow> bool" for B J T vals N where
  tk_set: "t < N \<Longrightarrow> pc_left (tm_pc s t) = 0 \<Longrightarrow> \<not> ending (tm_pc s t) \<Longrightarrow>
    tgo t (SetGet p) (tm_key s) s = Ret s' \<Longrightarrow> tk_step B J T vals N s s'"
| tk_end: "t < N \<Longrightarrow> pc_left (tm_pc s t) = 0 \<Longrightarrow> \<not> ending (tm_pc s t) \<Longrightarrow>
    vals k = (vals (tk_key (tm_key s)))(t := None) \<Longrightarrow>
    tgo t (ExitTest (vals (tk_key (tm_key s)) t)) ((tm_key s)\<lparr>tk_key := k\<rparr>) s = Ret s' \<Longrightarrow> tk_step B J T vals N s s'"
| tk_run: "t < N \<Longrightarrow> tk_exec B J T t s = Ret s' \<Longrightarrow> tk_step B J T vals N s s'"
| tk_destructor: "tk_step B J T vals N s (s\<lparr>tm_key := tsd_tracked_key_set_destructor d (tm_key s)\<rparr>)"

text \<open>At the start the key has been built by its constructor, whose calls succeeded.\<close>

definition tk_init :: "bool \<Rightarrow> 'a atomic_lock_lib \<Rightarrow> 'm mutex_ops \<Rightarrow> 'l obj_lib \<Rightarrow> 'k tsd_ops \<Rightarrow>
    ('k \<Rightarrow> tid \<Rightarrow> addr option) \<Rightarrow> ('m \<Rightarrow> amutex) \<Rightarrow> ('k, 'm, 'a, 'l, 'v) tk_machine \<Rightarrow> bool" where
  "tk_init debug A B J T vals rep s \<longleftrightarrow>
     (\<exists>raw. tk_live raw = {} \<and> tk_destroyed raw = [] \<and> tsd_tracked_key_constructor debug B A J T raw = Ret (tm_key s)) \<and>
     rep (mutex_m_lock (tk_mutex (tm_key s))) = amutex_init False \<and> vals (tk_key (tm_key s)) = (\<lambda>_. None) \<and>
     tm_pc s = (\<lambda>_. TkIdle)"

section \<open>A thread that runs alone\<close>

fun tk_alone :: "nat \<Rightarrow> 'm mutex_ops \<Rightarrow> 'l obj_lib \<Rightarrow> 'k tsd_ops \<Rightarrow> tid \<Rightarrow>
    ('k, 'm, 'a, 'l, 'v) tk_machine \<Rightarrow> ('k, 'm, 'a, 'l, 'v) tk_machine outcome" where
  "tk_alone 0 B J T t s = Ret s"
| "tk_alone (Suc n) B J T t s =
     (if pc_left (tm_pc s t) = 0 then Ret s else obind (tk_exec B J T t s) (tk_alone n B J T t))"

lemma tk_alone_set:
  assumes "tm_pc s t = SetGet p"
  shows "tk_alone 7 B J T t s =
    obind (tsd_tracked_key_set B J T t p (tm_key s)) (\<lambda>(r, key). tgo t (SetReturned r p) key s)"
proof -
  have n: "(7 :: nat) = Suc (Suc (Suc (Suc (Suc (Suc (Suc 0))))))" by simp
  show ?thesis unfolding n
    using assms
    by (auto simp: tsd_tracked_key_set_def tk_exec_def exec_set_def tgo_def under_mutex_def tk_lock_def tk_unlock_def
        obind_assoc Let_def split_def split: option.split)
qed

lemma tk_alone_exit:
  assumes "tm_pc s t = ExitTest arg"
  shows "tk_alone 5 B J T t s = obind (tracked_destructor B J t arg (tm_key s)) (\<lambda>key. tgo t TkEnded key s)"
proof -
  have n: "(5 :: nat) = Suc (Suc (Suc (Suc (Suc 0))))" by simp
  show ?thesis unfolding n
    using assms
    by (auto simp: tracked_destructor_def tk_exec_def exec_exit_def tgo_def under_mutex_def tk_lock_def tk_unlock_def
        obind_assoc Let_def split_def split: option.split)
qed

section \<open>The invariant\<close>

abbreviation value_of :: "('k \<Rightarrow> tid \<Rightarrow> addr option) \<Rightarrow> ('k, 'm, 'a, 'l, 'v) tk_machine \<Rightarrow> tid \<Rightarrow> addr option" where
  "value_of vals s \<equiv> vals (tk_key (tm_key s))"

abbreviation items :: "'l obj_lib \<Rightarrow> ('k, 'm, 'a, 'l, 'v) tk_machine \<Rightarrow> addr list" where
  "items J s \<equiv> list_items J (tk_list (tm_key s))"

abbreviation key_mutex :: "('m \<Rightarrow> amutex) \<Rightarrow> ('k, 'm, 'a, 'l, 'v) tk_machine \<Rightarrow> amutex" where
  "key_mutex rep s \<equiv> rep (mutex_m_lock (tk_mutex (tm_key s)))"

text \<open>The items a thread may touch: the one it works on and the one its value points to.\<close>

definition claims :: "('k \<Rightarrow> tid \<Rightarrow> addr option) \<Rightarrow> ('k, 'm, 'a, 'l, 'v) tk_machine \<Rightarrow> tid \<Rightarrow> addr \<Rightarrow> bool" where
  "claims vals s t a \<longleftrightarrow> value_of vals s t = Some a \<or> pc_item (tm_pc s t) = Some a"

text \<open>
  The mutex is held by the thread that works on the list. The items in use are those of the
  list and those a thread has not appended yet or has removed. No two threads may touch the
  same item; a thread that ends has no value; and a thread that has set its value has it.
\<close>

definition inv_mutex :: "('m \<Rightarrow> amutex) \<Rightarrow> ('k, 'm, 'a, 'l, 'v) tk_machine \<Rightarrow> bool" where
  "inv_mutex rep s \<longleftrightarrow> plain (key_mutex rep s) \<and> (\<forall>t. tk_locked (tm_pc s t) \<longleftrightarrow> mx_owner (key_mutex rep s) = Some t)"

definition inv_items :: "'l obj_lib \<Rightarrow> ('k \<Rightarrow> tid \<Rightarrow> addr option) \<Rightarrow> ('k, 'm, 'a, 'l, 'v) tk_machine \<Rightarrow> bool" where
  "inv_items J vals s \<longleftrightarrow> distinct (items J s) \<and>
     (\<forall>a. a \<in> tk_live (tm_key s) \<longleftrightarrow> a \<in> set (items J s) \<or> (\<exists>t. off_list (tm_pc s t) = Some a)) \<and>
     (\<forall>t a. off_list (tm_pc s t) = Some a \<longrightarrow> a \<notin> set (items J s)) \<and>
     (\<forall>t a. pc_item (tm_pc s t) = Some a \<longrightarrow> off_list (tm_pc s t) = None \<longrightarrow> a \<in> set (items J s)) \<and>
     (\<forall>t a. value_of vals s t = Some a \<longrightarrow> a \<in> set (items J s)) \<and>
     (\<forall>t u a. claims vals s t a \<longrightarrow> claims vals s u a \<longrightarrow> t = u)"

definition inv_values :: "('k \<Rightarrow> tid \<Rightarrow> addr option) \<Rightarrow> ('k, 'm, 'a, 'l, 'v) tk_machine \<Rightarrow> bool" where
  "inv_values vals s \<longleftrightarrow>
     (\<forall>t. ending (tm_pc s t) \<or> tm_pc s t = TkIdle \<longrightarrow> value_of vals s t = None) \<and>
     (\<forall>t a p. tm_pc s t = SetKey a p \<longrightarrow> tk_data (tm_key s) a = p) \<and>
     (\<forall>t p. tm_pc s t = SetReturned SUCCESS p \<longrightarrow> (\<exists>a. value_of vals s t = Some a \<and> tk_data (tm_key s) a = p))"

definition tk_inv :: "'l obj_lib \<Rightarrow> ('k \<Rightarrow> tid \<Rightarrow> addr option) \<Rightarrow> ('m \<Rightarrow> amutex) \<Rightarrow> ('k, 'm, 'a, 'l, 'v) tk_machine \<Rightarrow> bool" where
  "tk_inv J vals rep s \<longleftrightarrow> inv_mutex rep s \<and> inv_items J vals s \<and> inv_values vals s"

lemma inv_itemsD:
  assumes "inv_items J vals s"
  shows "distinct (items J s)"
    "a \<in> tk_live (tm_key s) \<longleftrightarrow> a \<in> set (items J s) \<or> (\<exists>t. off_list (tm_pc s t) = Some a)"
    "off_list (tm_pc s t) = Some a \<Longrightarrow> a \<notin> set (items J s)"
    "pc_item (tm_pc s t) = Some a \<Longrightarrow> off_list (tm_pc s t) = None \<Longrightarrow> a \<in> set (items J s)"
    "value_of vals s t = Some a \<Longrightarrow> a \<in> set (items J s)"
    "claims vals s t a \<Longrightarrow> claims vals s u a \<Longrightarrow> t = u"
  using assms unfolding inv_items_def by blast+

lemma inv_valuesD:
  assumes "inv_values vals s"
  shows "ending (tm_pc s t) \<or> tm_pc s t = TkIdle \<Longrightarrow> value_of vals s t = None"
    "tm_pc s t = SetKey a p \<Longrightarrow> tk_data (tm_key s) a = p"
    "tm_pc s t = SetReturned SUCCESS p \<Longrightarrow> \<exists>a. value_of vals s t = Some a \<and> tk_data (tm_key s) a = p"
  using assms unfolding inv_values_def by blast+

lemma off_list_item: "off_list pc = Some a \<Longrightarrow> pc_item pc = Some a"
  by (cases pc) auto

text \<open>The items in use, seen from thread \<open>t\<close>.\<close>

lemma live_split:
  assumes "inv_items J vals s"
  shows "tk_live (tm_key s) = set (items J s) \<union> {a. off_list (tm_pc s t) = Some a} \<union>
    {a. \<exists>u. u \<noteq> t \<and> off_list (tm_pc s u) = Some a}"
proof (rule set_eqI)
  fix a
  show "a \<in> tk_live (tm_key s) \<longleftrightarrow> a \<in> set (items J s) \<union> {a. off_list (tm_pc s t) = Some a} \<union>
      {a. \<exists>u. u \<noteq> t \<and> off_list (tm_pc s u) = Some a}"
    using inv_itemsD(2) [OF assms, of a] by (cases "off_list (tm_pc s t) = Some a") auto
qed

lemma claims_live:
  assumes "inv_items J vals s" "claims vals s t a"
  shows "a \<in> tk_live (tm_key s)"
proof (cases "off_list (tm_pc s t)")
  case None
  with assms(2) inv_itemsD(2,4,5) [OF assms(1)] show ?thesis by (auto simp: claims_def)
next
  case (Some b)
  with assms(2) inv_itemsD(2,5) [OF assms(1)] off_list_item [OF Some] show ?thesis by (auto simp: claims_def)
qed

text \<open>The key mutex, locked and unlocked.\<close>

lemma tk_lock_cases:
  assumes ok: "locks_ok B rep" and p: "plain (rep (mutex_m_lock (tk_mutex key)))" and t: "mx_owner (rep (mutex_m_lock (tk_mutex key))) \<noteq> Some t"
  shows "tk_lock B t key = Block \<and> mx_owner (rep (mutex_m_lock (tk_mutex key))) \<noteq> None \<or>
    mx_owner (rep (mutex_m_lock (tk_mutex key))) = None \<and> (\<exists>m. tk_lock B t key = Ret (key\<lparr>tk_mutex := m\<rparr>) \<and>
      rep (mutex_m_lock m) = (rep (mutex_m_lock (tk_mutex key)))\<lparr>mx_owner := Some t, mx_depth := Suc 0\<rparr>)"
  using locks_plain(1,2) [OF ok p] t
  by (cases "mx_owner (rep (mutex_m_lock (tk_mutex key)))") (fastforce simp: tk_lock_def)+

lemma tk_unlock_runs:
  assumes "locks_ok B rep" "plain (rep (mutex_m_lock (tk_mutex key)))" "mx_owner (rep (mutex_m_lock (tk_mutex key))) = Some t"
  shows "\<exists>m. tk_unlock B t key = Ret (key\<lparr>tk_mutex := m\<rparr>) \<and>
      rep (mutex_m_lock m) = (rep (mutex_m_lock (tk_mutex key)))\<lparr>mx_owner := None, mx_depth := 0\<rparr>"
  using locks_plain(3) [OF assms] by (auto simp: tk_unlock_def)

text \<open>
  A step of thread \<open>t\<close> replaces the key and where \<open>t\<close> stands. The mutex part of the invariant:
  the step leaves the mutex alone, takes it or releases it.
\<close>

lemma inv_mutex_upd:
  assumes "inv_mutex rep s" "tm_pc s' = (tm_pc s)(t := p)" "plain (key_mutex rep s')"
    and "tk_locked p \<longleftrightarrow> mx_owner (key_mutex rep s') = Some t"
    and "\<And>u. u \<noteq> t \<Longrightarrow> mx_owner (key_mutex rep s') = Some u \<longleftrightarrow> mx_owner (key_mutex rep s) = Some u"
  shows "inv_mutex rep s'"
  using assms unfolding inv_mutex_def by auto

lemma inv_items_upd:
  assumes inv: "inv_items J vals s" and pc: "tm_pc s' = (tm_pc s)(t := p)"
    and val: "\<And>u. u \<noteq> t \<Longrightarrow> value_of vals s' u = value_of vals s u"
    and list: "distinct (items J s')" "\<And>u a. u \<noteq> t \<Longrightarrow> claims vals s u a \<Longrightarrow> a \<in> set (items J s') \<longleftrightarrow> a \<in> set (items J s)"
    and live: "tk_live (tm_key s') = set (items J s') \<union> {a. off_list p = Some a} \<union> {a. \<exists>u. u \<noteq> t \<and> off_list (tm_pc s u) = Some a}"
    and own: "\<And>a. off_list p = Some a \<Longrightarrow> a \<notin> set (items J s')"
      "\<And>a. pc_item p = Some a \<Longrightarrow> off_list p = None \<Longrightarrow> a \<in> set (items J s')"
      "\<And>a. value_of vals s' t = Some a \<Longrightarrow> a \<in> set (items J s')"
      "\<And>a u. claims vals s' t a \<Longrightarrow> u \<noteq> t \<Longrightarrow> \<not> claims vals s u a"
  shows "inv_items J vals s'"
proof -
  note d = inv_itemsD [OF inv]
  have cl: "claims vals s' u a = claims vals s u a" if "u \<noteq> t" for u a
    using that val pc by (simp add: claims_def)
  have c: "claims vals s u a" if "off_list (tm_pc s u) = Some a \<or> pc_item (tm_pc s u) = Some a \<or> value_of vals s u = Some a" for u a
    using that off_list_item by (auto simp: claims_def)
  have 1: "a \<in> tk_live (tm_key s') \<longleftrightarrow> a \<in> set (items J s') \<or> (\<exists>u. off_list (tm_pc s' u) = Some a)" for a
    using live pc by auto
  have 2: "a \<notin> set (items J s')" if "off_list (tm_pc s' u) = Some a" for u a
    using that own(1) list(2) [of u a] c d(3) [of u a] pc by (cases "u = t") auto
  have 3: "a \<in> set (items J s')" if "pc_item (tm_pc s' u) = Some a" "off_list (tm_pc s' u) = None" for u a
    using that own(2) list(2) [of u a] c d(4) [of u a] pc by (cases "u = t") auto
  have 4: "a \<in> set (items J s')" if "value_of vals s' u = Some a" for u a
    using that own(3) list(2) [of u a] c d(5) [of u a] val by (cases "u = t") auto
  have 5: "u = v" if "claims vals s' u a" "claims vals s' v a" for u v a
    using that own(4) cl d(6) [of u a v] by (cases "u = t"; cases "v = t") auto
  show ?thesis unfolding inv_items_def using list(1) 1 2 3 4 5 by blast
qed

lemma inv_values_upd:
  assumes inv: "inv_values vals s" and pc: "tm_pc s' = (tm_pc s)(t := p)"
    and val: "\<And>u. u \<noteq> t \<Longrightarrow> value_of vals s' u = value_of vals s u"
    and data: "\<And>u a. u \<noteq> t \<Longrightarrow> claims vals s u a \<Longrightarrow> tk_data (tm_key s') a = tk_data (tm_key s) a"
    and own: "ending p \<or> p = TkIdle \<Longrightarrow> value_of vals s' t = None"
      "\<And>a x. p = SetKey a x \<Longrightarrow> tk_data (tm_key s') a = x"
      "\<And>x. p = SetReturned SUCCESS x \<Longrightarrow> \<exists>a. value_of vals s' t = Some a \<and> tk_data (tm_key s') a = x"
  shows "inv_values vals s'"
proof -
  note d = inv_valuesD [OF inv]
  have 1: "value_of vals s' u = None" if "ending (tm_pc s' u) \<or> tm_pc s' u = TkIdle" for u
    using that d(1) [of u] own(1) val pc by (cases "u = t") auto
  have 2: "tk_data (tm_key s') a = x" if "tm_pc s' u = SetKey a x" for u a x
    using that d(2) [of u a x] own(2) data [of u a] pc by (cases "u = t") (auto simp: claims_def)
  have 3: "\<exists>a. value_of vals s' u = Some a \<and> tk_data (tm_key s') a = x" if p: "tm_pc s' u = SetReturned SUCCESS x" for u x
  proof (cases "u = t")
    case False
    with p pc d(3) [of u x] obtain a where "value_of vals s u = Some a" "tk_data (tm_key s) a = x" by auto
    with data [OF False, of a] val [OF False] show ?thesis by (auto simp: claims_def)
  qed (use p pc own(3) in simp)
  show ?thesis unfolding inv_values_def using 1 2 3 by blast
qed

lemmas tk_inv_intro = tk_inv_def [THEN iffD2, OF conjI [OF inv_mutex_upd conjI [OF inv_items_upd inv_values_upd]]]

lemma tk_invD:
  assumes "tk_inv J vals rep s"
  shows "inv_mutex rep s" "inv_items J vals s" "inv_values vals s" "plain (key_mutex rep s)"
    "tk_locked (tm_pc s t) \<longleftrightarrow> mx_owner (key_mutex rep s) = Some t"
  using assms unfolding tk_inv_def inv_mutex_def by blast+

text \<open>A step that changes at most the mutex.\<close>

lemma tk_inv_move:
  assumes inv: "tk_inv J vals rep s" and s': "s' = s\<lparr>tm_key := (tm_key s)\<lparr>tk_mutex := m\<rparr>, tm_pc := (tm_pc s)(t := p)\<rparr>"
    and m: "plain (rep (mutex_m_lock m))" "tk_locked p \<longleftrightarrow> mx_owner (rep (mutex_m_lock m)) = Some t"
      "\<And>u. u \<noteq> t \<Longrightarrow> mx_owner (rep (mutex_m_lock m)) = Some u \<longleftrightarrow> mx_owner (key_mutex rep s) = Some u"
    and p: "off_list p = off_list (tm_pc s t)" "pc_item p = None \<or> pc_item p = pc_item (tm_pc s t) \<or> pc_item p = value_of vals s t"
      "ending p \<Longrightarrow> ending (tm_pc s t)" "p \<noteq> TkIdle" "\<And>a x. p \<noteq> SetKey a x" "\<And>x. p \<noteq> SetReturned SUCCESS x"
  shows "tk_inv J vals rep s'"
proof -
  note i = tk_invD [OF inv] and d = inv_itemsD [OF i(2)]
  have cl: "claims vals s' t a \<Longrightarrow> claims vals s t a" for a using p(2) by (auto simp: claims_def s')
  have it: "a \<in> set (items J s)" if "pc_item p = Some a" "off_list p = None" for a
    using that p(1,2) d(4) [of t a] d(5) [of t a] by auto
  show ?thesis
  proof (rule tk_inv_intro [OF i(1) _ _ _ _ i(2) _ _ _ _ _ _ _ _ _ i(3)])
    show "tk_live (tm_key s') = set (items J s') \<union> {a. off_list p = Some a} \<union> {a. \<exists>u. u \<noteq> t \<and> off_list (tm_pc s u) = Some a}"
      using live_split [OF i(2), of t] p(1) by (simp add: s')
    show "\<not> claims vals s u a" if "claims vals s' t a" "u \<noteq> t" for u a
      using d(6) [OF cl [OF that(1)], of u] that(2) by blast
    show "\<exists>a. value_of vals s' t = Some a \<and> tk_data (tm_key s') a = x" if "p = SetReturned SUCCESS x" for x
      using p(6) [of x] that by blast
  qed (use m p(1,3-5) d(1,3,5) it inv_valuesD(1) [OF i(3), of t] in \<open>auto simp: s'\<close>)
qed

lemma tk_inv_new:
  assumes J: "obj_lib_ok J" and inv: "tk_inv J vals rep s" and pc: "tm_pc s t = SetNew x" and a: "obj_new J (tk_live (tm_key s)) = Some a"
    and s': "s' = s\<lparr>tm_key := (tm_key s)\<lparr>tk_live := insert a (tk_live (tm_key s))\<rparr>, tm_pc := (tm_pc s)(t := SetLock a x)\<rparr>"
  shows "tk_inv J vals rep s'"
proof -
  note i = tk_invD [OF inv] and d = inv_itemsD [OF i(2)]
  have a': "a \<notin> tk_live (tm_key s)" using obj_lib_okD(4) [OF J a] .
  show ?thesis
  proof (rule tk_inv_intro [where p = "SetLock a x" and t = t, OF i(1) _ _ _ _ i(2) _ _ _ _ _ _ _ _ _ i(3)])
    show "tk_live (tm_key s') = set (items J s') \<union> {b. off_list (SetLock a x) = Some b} \<union> {b. \<exists>u. u \<noteq> t \<and> off_list (tm_pc s u) = Some b}"
      using live_split [OF i(2), of t] pc by (auto simp: s')
    show "\<not> claims vals s u b" if "claims vals s' t b" "u \<noteq> t" for u b
      using that d(6) [of t b u] claims_live [OF i(2), of u b] a' by (auto simp: s' claims_def)
  qed (use i(4) i(5) [of t] d(1,2,5) a' pc in \<open>auto simp: s'\<close>)
qed

lemma tk_inv_append:
  assumes J: "obj_lib_ok J" and inv: "tk_inv J vals rep s" and pc: "tm_pc s t = SetAppend a x"
    and s': "s' = s\<lparr>tm_key := (tm_key s)\<lparr>tk_list := list_append J (tk_list (tm_key s)) a\<rparr>, tm_pc := (tm_pc s)(t := SetUnlock a x)\<rparr>"
  shows "tk_inv J vals rep s'"
proof -
  note i = tk_invD [OF inv] and d = inv_itemsD [OF i(2)]
  have it: "items J s' = items J s @ [a]" by (simp add: s' obj_lib_okD(2) [OF J])
  have a: "a \<notin> set (items J s)" "claims vals s t a" using d(3) [of t a] pc by (auto simp: claims_def)
  show ?thesis
  proof (rule tk_inv_intro [where p = "SetUnlock a x" and t = t, OF i(1) _ _ _ _ i(2) _ _ _ _ _ _ _ _ _ i(3)])
    show "tk_live (tm_key s') = set (items J s') \<union> {b. off_list (SetUnlock a x) = Some b} \<union> {b. \<exists>u. u \<noteq> t \<and> off_list (tm_pc s u) = Some b}"
      unfolding it using live_split [OF i(2), of t] pc by (auto simp: s')
    show "\<not> claims vals s u b" if "claims vals s' t b" "u \<noteq> t" for u b
      using that d(6) [of t b u] pc by (auto simp: s' claims_def)
    show "b \<in> set (items J s') \<longleftrightarrow> b \<in> set (items J s)" if "u \<noteq> t" "claims vals s u b" for u b
      using that d(6) [OF a(2), of u] by (auto simp: it)
  qed (use i(4) i(5) [of t] d(1,5) a(1) pc it in \<open>auto simp: s'\<close>)
qed

lemma tk_inv_data:
  assumes inv: "tk_inv J vals rep s" and pc: "tm_pc s t = SetData a x"
    and s': "s' = s\<lparr>tm_key := (tm_key s)\<lparr>tk_data := (tk_data (tm_key s))(a := x)\<rparr>, tm_pc := (tm_pc s)(t := SetKey a x)\<rparr>"
  shows "tk_inv J vals rep s'"
proof -
  note i = tk_invD [OF inv] and d = inv_itemsD [OF i(2)]
  have a: "claims vals s t a" using pc by (auto simp: claims_def)
  show ?thesis
  proof (rule tk_inv_intro [where p = "SetKey a x" and t = t, OF i(1) _ _ _ _ i(2) _ _ _ _ _ _ _ _ _ i(3)])
    show "tk_live (tm_key s') = set (items J s') \<union> {b. off_list (SetKey a x) = Some b} \<union> {b. \<exists>u. u \<noteq> t \<and> off_list (tm_pc s u) = Some b}"
      using live_split [OF i(2), of t] pc by (auto simp: s')
    show "\<not> claims vals s u b" if "claims vals s' t b" "u \<noteq> t" for u b
      using that d(6) [of t b u] pc by (auto simp: s' claims_def)
    show "tk_data (tm_key s') b = tk_data (tm_key s) b" if "u \<noteq> t" "claims vals s u b" for u b
      using that d(6) [OF a, of u] by (auto simp: s')
  qed (use i(4) i(5) [of t] d(1,5) d(4) [of t a] pc in \<open>auto simp: s'\<close>)
qed

lemma tk_inv_key:
  assumes T: "keys_ok T vals" and inv: "tk_inv J vals rep s" and pc: "tm_pc s t = SetKey a x"
    and k: "tsd_set T t (tk_key (tm_key s)) (Some a) = (r, k)"
    and s': "s' = s\<lparr>tm_key := (tm_key s)\<lparr>tk_key := k\<rparr>, tm_pc := (tm_pc s)(t := SetReturned r x)\<rparr>"
  shows "tk_inv J vals rep s'"
proof -
  note i = tk_invD [OF inv] and d = inv_itemsD [OF i(2)]
  note v = keys_okD(1) [OF T k]
  have a: "a \<in> set (items J s)" "tk_data (tm_key s) a = x" using d(4) [of t a] pc inv_valuesD(2) [OF i(3) pc] by auto
  have cl: "claims vals s' t b \<Longrightarrow> claims vals s t b" for b using pc v by (auto simp: claims_def s' split: if_splits)
  show ?thesis
  proof (rule tk_inv_intro [where p = "SetReturned r x" and t = t, OF i(1) _ _ _ _ i(2) _ _ _ _ _ _ _ _ _ i(3)])
    show "tk_live (tm_key s') = set (items J s') \<union> {b. off_list (SetReturned r x) = Some b} \<union> {b. \<exists>u. u \<noteq> t \<and> off_list (tm_pc s u) = Some b}"
      using live_split [OF i(2), of t] pc by (auto simp: s')
    show "\<not> claims vals s u b" if "claims vals s' t b" "u \<noteq> t" for u b
      using that d(6) [OF cl [OF that(1)], of u] by auto
    show "b \<in> set (items J s')" if "value_of vals s' t = Some b" for b
      using that d(5) [of t b] a(1) v by (auto simp: s' split: if_splits)
  qed (use i(4) i(5) [of t] d(1,5) d(4) [of t a] a pc v in \<open>auto simp: s'\<close>)
qed

lemma tk_inv_end:
  assumes inv: "tk_inv J vals rep s" and pc: "pc_left (tm_pc s t) = 0" and k: "vals k = (value_of vals s)(t := None)"
    and s': "s' = s\<lparr>tm_key := (tm_key s)\<lparr>tk_key := k\<rparr>, tm_pc := (tm_pc s)(t := ExitTest (value_of vals s t))\<rparr>"
  shows "tk_inv J vals rep s'"
proof -
  note i = tk_invD [OF inv] and d = inv_itemsD [OF i(2)]
  have off: "off_list (tm_pc s t) = None" "\<not> tk_locked (tm_pc s t)" using pc by (cases "tm_pc s t"; simp)+
  have cl: "claims vals s' t b \<Longrightarrow> claims vals s t b" for b using k by (auto simp: claims_def s')
  show ?thesis
  proof (rule tk_inv_intro [where p = "ExitTest (value_of vals s t)" and t = t, OF i(1) _ _ _ _ i(2) _ _ _ _ _ _ _ _ _ i(3)])
    show "tk_live (tm_key s') = set (items J s') \<union> {b. off_list (ExitTest (value_of vals s t)) = Some b} \<union>
        {b. \<exists>u. u \<noteq> t \<and> off_list (tm_pc s u) = Some b}"
      using live_split [OF i(2), of t] off(1) by (simp add: s')
    show "\<not> claims vals s u b" if "claims vals s' t b" "u \<noteq> t" for u b
      using that d(6) [OF cl [OF that(1)], of u] by auto
  qed (use i(4) i(5) [of t] d(1,5) off k in \<open>auto simp: s'\<close>)
qed

lemma tk_inv_remove:
  assumes J: "obj_lib_ok J" and inv: "tk_inv J vals rep s" and pc: "tm_pc s t = ExitRemove a"
    and s': "s' = s\<lparr>tm_key := (tm_key s)\<lparr>tk_list := list_remove_item J (tk_list (tm_key s)) a\<rparr>, tm_pc := (tm_pc s)(t := ExitUnlock a)\<rparr>"
  shows "tk_inv J vals rep s'"
proof -
  note i = tk_invD [OF inv] and d = inv_itemsD [OF i(2)]
  have it: "items J s' = remove1 a (items J s)" by (simp add: s' obj_lib_okD(3) [OF J])
  have a: "a \<in> set (items J s)" "claims vals s t a" using d(4) [of t a] pc by (auto simp: claims_def)
  have v: "value_of vals s t = None" using inv_valuesD(1) [OF i(3), of t] pc by simp
  have set: "set (items J s') = set (items J s) - {a}" using d(1) by (simp add: it)
  show ?thesis
  proof (rule tk_inv_intro [where p = "ExitUnlock a" and t = t, OF i(1) _ _ _ _ i(2) _ _ _ _ _ _ _ _ _ i(3)])
    show "tk_live (tm_key s') = set (items J s') \<union> {b. off_list (ExitUnlock a) = Some b} \<union> {b. \<exists>u. u \<noteq> t \<and> off_list (tm_pc s u) = Some b}"
      unfolding set using live_split [OF i(2), of t] pc a(1) by (auto simp: s')
    show "\<not> claims vals s u b" if "claims vals s' t b" "u \<noteq> t" for u b
      using that d(6) [of t b u] pc by (auto simp: s' claims_def)
    show "b \<in> set (items J s') \<longleftrightarrow> b \<in> set (items J s)" if "u \<noteq> t" "claims vals s u b" for u b
      using that d(6) [OF a(2), of u] by (auto simp: set)
    show "distinct (items J s')" using d(1) by (simp add: it)
    show "\<And>b. off_list (ExitUnlock a) = Some b \<Longrightarrow> b \<notin> set (items J s')" by (simp add: set)
    show "b \<in> set (items J s')" if "value_of vals s' t = Some b" for b using that v by (simp add: s')
  qed (use i(4) i(5) [of t] v pc in \<open>auto simp: s'\<close>)
qed

lemma tk_inv_finish:
  assumes inv: "tk_inv J vals rep s" and pc: "tm_pc s t = ExitFinish a"
    and s': "s' = s\<lparr>tm_key := finish_item a (tm_key s), tm_pc := (tm_pc s)(t := TkEnded)\<rparr>"
  shows "tk_inv J vals rep s'"
proof -
  note i = tk_invD [OF inv] and d = inv_itemsD [OF i(2)]
  have a: "a \<notin> set (items J s)" "claims vals s t a" using d(3) [of t a] pc by (auto simp: claims_def)
  have v: "value_of vals s t = None" using inv_valuesD(1) [OF i(3), of t] pc by simp
  have o: "u = t" if "off_list (tm_pc s u) = Some a" for u
    using d(6) [OF a(2), of u] off_list_item [OF that] by (simp add: claims_def)
  show ?thesis
  proof (rule tk_inv_intro [where p = TkEnded and t = t, OF i(1) _ _ _ _ i(2) _ _ _ _ _ _ _ _ _ i(3)])
    show "tk_live (tm_key s') = set (items J s') \<union> {b. off_list TkEnded = Some b} \<union> {b. \<exists>u. u \<noteq> t \<and> off_list (tm_pc s u) = Some b}"
      using live_split [OF i(2), of t] pc a(1) o by (auto simp: s')
    show "\<not> claims vals s u b" if "claims vals s' t b" "u \<noteq> t" for u b
      using that v by (auto simp: s' claims_def)
  qed (use i(4) i(5) [of t] d(1,5) v pc in \<open>auto simp: s'\<close>)
qed

text \<open>A step that changes nothing but where the thread stands.\<close>

lemma tk_inv_go:
  assumes "tk_inv J vals rep s" "tgo t p (tm_key s) s = Ret s'" "tk_locked p \<longleftrightarrow> tk_locked (tm_pc s t)"
    and "off_list p = off_list (tm_pc s t)" "pc_item p = None \<or> pc_item p = pc_item (tm_pc s t) \<or> pc_item p = value_of vals s t"
    and "ending p \<Longrightarrow> ending (tm_pc s t)" "p \<noteq> TkIdle" "\<And>a x. p \<noteq> SetKey a x" "\<And>x. p \<noteq> SetReturned SUCCESS x"
  shows "tk_inv J vals rep s'"
  using assms(2)
  by (intro tk_inv_move [OF assms(1), where m = "tk_mutex (tm_key s)" and t = t and p = p])
    (use assms(3-) tk_invD(4,5) [OF assms(1)] in \<open>auto simp: tgo_def\<close>)

lemma tk_inv_lock:
  assumes B: "locks_ok B rep" and inv: "tk_inv J vals rep s" and ex: "obind (tk_lock B t (tm_key s)) (\<lambda>key. tgo t p key s) = Ret s'"
    and pc: "\<not> tk_locked (tm_pc s t)" "tk_locked p" "off_list p = off_list (tm_pc s t)" "pc_item p = pc_item (tm_pc s t)"
      "ending p \<longleftrightarrow> ending (tm_pc s t)"
  shows "tk_inv J vals rep s'"
proof -
  note i = tk_invD [OF inv]
  have "mx_owner (key_mutex rep s) \<noteq> Some t" using i(5) [of t] pc(1) by simp
  from tk_lock_cases [OF B i(4) this] ex obtain m where
    m: "tk_lock B t (tm_key s) = Ret ((tm_key s)\<lparr>tk_mutex := m\<rparr>)"
      "rep (mutex_m_lock m) = (key_mutex rep s)\<lparr>mx_owner := Some t, mx_depth := Suc 0\<rparr>" "mx_owner (key_mutex rep s) = None" by auto
  have "p \<noteq> TkIdle \<and> p \<noteq> SetKey a x \<and> p \<noteq> SetReturned r x" for a x r using pc(2) by auto
  then show ?thesis
    by (intro tk_inv_move [OF inv, where m = m and t = t and p = p]) (use m ex pc i(4) in \<open>auto simp: tgo_def\<close>)
qed

lemma tk_inv_unlock:
  assumes B: "locks_ok B rep" and inv: "tk_inv J vals rep s" and ex: "obind (tk_unlock B t (tm_key s)) (\<lambda>key. tgo t p key s) = Ret s'"
    and pc: "tk_locked (tm_pc s t)" "\<not> tk_locked p" "off_list p = off_list (tm_pc s t)" "pc_item p = pc_item (tm_pc s t)"
      "ending p \<longleftrightarrow> ending (tm_pc s t)" "\<And>a x. p \<noteq> SetKey a x" "pc_item p \<noteq> None"
  shows "tk_inv J vals rep s'"
proof -
  note i = tk_invD [OF inv]
  have o: "mx_owner (key_mutex rep s) = Some t" using i(5) [of t] pc(1) by simp
  from tk_unlock_runs [OF B i(4) this] obtain m where
    m: "tk_unlock B t (tm_key s) = Ret ((tm_key s)\<lparr>tk_mutex := m\<rparr>)"
      "rep (mutex_m_lock m) = (key_mutex rep s)\<lparr>mx_owner := None, mx_depth := 0\<rparr>" by auto
  have "p \<noteq> TkIdle \<and> p \<noteq> SetReturned r x" for x r using pc(7) by auto
  then show ?thesis
    by (intro tk_inv_move [OF inv, where m = m and t = t and p = p]) (use m ex pc i(4) o in \<open>auto simp: tgo_def\<close>)
qed

lemmas exec_defs = tk_exec_def exec_set_def exec_exit_def Let_def

lemma tk_inv_exec:
  assumes J: "obj_lib_ok J" and B: "locks_ok B rep" and T: "keys_ok T vals" and inv: "tk_inv J vals rep s"
    and ex: "tk_exec B J T t s = Ret s'"
  shows "tk_inv J vals rep s'"
proof (cases "tm_pc s t")
  case (SetGet p)
  with ex inv show ?thesis
    by (auto simp: exec_defs Let_def keys_okD(2) [OF T] split: option.splits intro: tk_inv_go)
next
  case (SetNew p)
  show ?thesis
  proof (cases "obj_new J (tk_live (tm_key s))")
    case None
    with SetNew ex inv show ?thesis by (auto simp: exec_defs intro: tk_inv_go)
  next
    case (Some a)
    with SetNew ex show ?thesis by (intro tk_inv_new [OF J inv SetNew Some]) (simp add: exec_defs tgo_def)
  qed
next
  case (SetLock a p)
  with ex show ?thesis by (intro tk_inv_lock [OF B inv, of t "SetAppend a p"]) (simp_all add: exec_defs)
next
  case (SetAppend a p)
  with ex show ?thesis by (intro tk_inv_append [OF J inv SetAppend]) (simp add: exec_defs tgo_def)
next
  case (SetUnlock a p)
  with ex show ?thesis by (intro tk_inv_unlock [OF B inv, of t "SetData a p"]) (simp_all add: exec_defs)
next
  case (SetData a p)
  with ex show ?thesis by (intro tk_inv_data [OF inv SetData]) (simp add: exec_defs tgo_def)
next
  case (SetKey a p)
  obtain r k where k: "tsd_set T t (tk_key (tm_key s)) (Some a) = (r, k)" by fastforce
  with SetKey ex show ?thesis by (intro tk_inv_key [OF T inv SetKey k]) (simp add: exec_defs tgo_def)
next
  case (ExitTest arg)
  with ex inv show ?thesis by (auto simp: exec_defs split: option.splits intro: tk_inv_go)
next
  case (ExitLock a)
  with ex show ?thesis by (intro tk_inv_lock [OF B inv, of t "ExitRemove a"]) (simp_all add: exec_defs)
next
  case (ExitRemove a)
  with ex show ?thesis by (intro tk_inv_remove [OF J inv ExitRemove]) (simp add: exec_defs tgo_def)
next
  case (ExitUnlock a)
  with ex show ?thesis by (intro tk_inv_unlock [OF B inv, of t "ExitFinish a"]) (simp_all add: exec_defs)
next
  case (ExitFinish a)
  with ex show ?thesis by (intro tk_inv_finish [OF inv ExitFinish]) (simp add: exec_defs tgo_def)
qed (use ex in \<open>simp_all add: exec_defs\<close>)

lemma tk_inv_init:
  assumes "obj_lib_ok J" "tk_init debug A B J T vals rep s"
  shows "tk_inv J vals rep s"
proof -
  have "tk_live (tm_key s) = {}" "items J s = []"
    using assms by (auto simp: tk_init_def tsd_tracked_key_constructor_def obj_lib_okD(1) dest!: sym [of _ "tm_key s"])
  with assms(2) show ?thesis
    by (simp add: tk_init_def tk_inv_def inv_mutex_def inv_items_def inv_values_def claims_def)
qed

lemma tk_inv_step:
  assumes J: "obj_lib_ok J" and B: "locks_ok B rep" and T: "keys_ok T vals" and inv: "tk_inv J vals rep s"
    and st: "tk_step B J T vals N s s'"
  shows "tk_inv J vals rep s'"
  using st
proof cases
  case (tk_set t p)
  then have "off_list (tm_pc s t) = None \<and> \<not> tk_locked (tm_pc s t)" by (cases "tm_pc s t") auto
  with tk_set inv show ?thesis by (intro tk_inv_go [OF inv tk_set(4)]) auto
next
  case (tk_end t k)
  then show ?thesis by (intro tk_inv_end [OF inv tk_end(2,4)]) (simp add: tgo_def)
next
  case (tk_run t)
  show ?thesis by (rule tk_inv_exec [OF J B T inv tk_run(2)])
next
  case (tk_destructor d)
  with inv show ?thesis
    by (simp add: tk_inv_def inv_mutex_def inv_items_def inv_values_def claims_def tsd_tracked_key_set_destructor_def)
qed

interpretation tk: inv_system "tk_init debug A B J T vals rep" "tk_step B J T vals N"
  "\<lambda>s. obj_lib_ok J \<and> locks_ok B rep \<and> keys_ok T vals \<longrightarrow> tk_inv J vals rep s"
  for debug A J B T vals rep N
  by unfold_locales (auto intro: tk_inv_init tk_inv_step)

section \<open>Progress\<close>

text \<open>Threads that are not counted do nothing.\<close>

lemma tk_exec_pc:
  assumes "tk_exec B J T t s = Ret s'"
  shows "\<exists>p. tm_pc s' = (tm_pc s)(t := p) \<and> pc_left p < pc_left (tm_pc s t)"
  using assms by (cases "tm_pc s t") (auto simp: exec_defs tgo_def split: option.splits prod.splits)

interpretation tkn: inv_system "tk_init debug A B J T vals rep" "tk_step B J T vals N" "\<lambda>s. \<forall>t\<ge>N. tm_pc s t = TkIdle"
  for debug A J B T vals rep N
proof (unfold_locales, goal_cases)
  case (2 s s')
  from 2(2) show ?case
  proof cases
    case (tk_run t)
    with tk_exec_pc [OF tk_run(2)] 2(1) show ?thesis by fastforce
  qed (use 2(1) in \<open>auto simp: tgo_def\<close>)
qed (simp add: tk_init_def)

lemma exec_defined:
  assumes B: "locks_ok B rep" and inv: "tk_inv J vals rep s" and t: "pc_left (tm_pc s t) \<noteq> 0"
  shows "(\<exists>s'. tk_exec B J T t s = Ret s') \<or>
    tk_exec B J T t s = Block \<and> (\<exists>u. u \<noteq> t \<and> tk_locked (tm_pc s u)) \<and> \<not> tk_locked (tm_pc s t)"
proof -
  note i = tk_invD [OF inv]
  have l: "tk_lock B t (tm_key s) = Block \<and> (\<exists>u. u \<noteq> t \<and> tk_locked (tm_pc s u)) \<or>
      (\<exists>m. tk_lock B t (tm_key s) = Ret ((tm_key s)\<lparr>tk_mutex := m\<rparr>))" if "\<not> tk_locked (tm_pc s t)"
    using tk_lock_cases [OF B i(4), of t] i(5) that by auto
  have u: "\<exists>m. tk_unlock B t (tm_key s) = Ret ((tm_key s)\<lparr>tk_mutex := m\<rparr>)" if "tk_locked (tm_pc s t)"
    using tk_unlock_runs [OF B i(4), of t] i(5) that by auto
  show ?thesis
    using t l u by (cases "tm_pc s t") (auto simp: exec_defs tgo_def obind_eq_Block split: option.split prod.split)
qed

lemma some_thread_runs:
  assumes B: "locks_ok B rep" and inv: "tk_inv J vals rep s" and bound: "\<forall>t\<ge>N. tm_pc s t = TkIdle"
    and t: "pc_left (tm_pc s t) \<noteq> 0"
  shows "\<exists>u s'. u < N \<and> tk_exec B J T u s = Ret s'"
proof -
  have N: "u < N" if "pc_left (tm_pc s u) \<noteq> 0" for u
    using that bound by (metis linorder_not_less pc_left.simps(13))
  have l: "pc_left (tm_pc s u) \<noteq> 0" if "tk_locked (tm_pc s u)" for u using that by (cases "tm_pc s u") auto
  from exec_defined [OF B inv t, of T] show ?thesis
  proof
    assume "tk_exec B J T t s = Block \<and> (\<exists>u. u \<noteq> t \<and> tk_locked (tm_pc s u)) \<and> \<not> tk_locked (tm_pc s t)"
    then obtain u where u: "tk_locked (tm_pc s u)" by blast
    from exec_defined [OF B inv l [OF u], of T] u N [OF l [OF u]] show ?thesis by blast
  qed (use N [OF t] in blast)
qed

text \<open>The moves of a machine without further calls, and the work it has left.\<close>

definition tk_move :: "'m mutex_ops \<Rightarrow> 'l obj_lib \<Rightarrow> 'k tsd_ops \<Rightarrow> nat \<Rightarrow>
    ('k, 'm, 'a, 'l, 'v) tk_machine \<Rightarrow> ('k, 'm, 'a, 'l, 'v) tk_machine \<Rightarrow> bool" where
  "tk_move B J T N s s' \<longleftrightarrow> (\<exists>t<N. tk_exec B J T t s = Ret s')"

definition tk_work :: "nat \<Rightarrow> ('k, 'm, 'a, 'l, 'v) tk_machine \<Rightarrow> nat" where
  "tk_work N s = (\<Sum>t<N. pc_left (tm_pc s t))"

lemma tk_work_le: "tk_work N s \<le> 7 * N"
proof -
  have "pc_left (tm_pc s t) \<le> 7" for t by (cases "tm_pc s t") auto
  then show ?thesis using sum_bounded_above [of "{..<N}" "\<lambda>t. pc_left (tm_pc s t)" 7] by (simp add: tk_work_def mult.commute)
qed

lemma move_work:
  assumes "tk_move B J T N s s'"
  shows "tk_work N s' < tk_work N s"
proof -
  from assms obtain t where t: "t < N" "tk_exec B J T t s = Ret s'" by (auto simp: tk_move_def)
  from tk_exec_pc [OF t(2)] obtain p where "tm_pc s' = (tm_pc s)(t := p)" "pc_left p < pc_left (tm_pc s t)" by blast
  with sum_fun_upd_less [of "{..<N}" t pc_left p "tm_pc s"] t(1) show ?thesis by (simp add: tk_work_def)
qed

interpretation tks: settling "tk_move B J T N"
  "\<lambda>s. obj_lib_ok J \<and> locks_ok B rep \<and> keys_ok T vals \<and> tk_inv J vals rep s \<and> (\<forall>t\<ge>N. tm_pc s t = TkIdle)" "tk_work N"
  for B J T N rep vals
proof (unfold_locales, goal_cases)
  case (1 s s')
  then obtain t where t: "t < N" "tk_exec B J T t s = Ret s'" by (auto simp: tk_move_def)
  from tk_exec_pc [OF t(2)] t(1) 1(1) have "\<forall>u\<ge>N. tm_pc s' u = TkIdle" by fastforce
  with 1(1) tk_inv_exec [OF _ _ _ _ t(2)] show ?case by blast
next
  case (2 s s')
  show ?case by (rule move_work [OF 2(2)])
qed

text \<open>What one thread does does not change what the others get.\<close>

lemma exec_others:
  assumes T: "keys_ok T vals" and inv: "tk_inv J vals rep s" and ex: "tk_exec B J T t s = Ret s'" and u: "u \<noteq> t"
  shows "tsd_tracked_key_get T u (tm_key s') = tsd_tracked_key_get T u (tm_key s)"
proof -
  have no: "value_of vals s u \<noteq> Some a" if "pc_item (tm_pc s t) = Some a" for a
    using that inv_itemsD(6) [OF tk_invD(2) [OF inv], of t a u] u by (auto simp: claims_def)
  show ?thesis
    using ex no u
    by (cases "tm_pc s t")
      (auto simp: exec_defs tgo_def tk_lock_def tk_unlock_def tsd_tracked_key_get_def keys_okD(2) [OF T] keys_okD(1) [OF T]
        split: option.splits prod.splits if_splits)
qed

section \<open>On the three backends\<close>

definition some_keys :: "'k key_lib \<Rightarrow> ('k \<Rightarrow> tid \<Rightarrow> addr option) \<Rightarrow> 'k tsd_ops \<Rightarrow> bool" where
  "some_keys K vals T \<longleftrightarrow> key_lib_ok K vals \<and> T \<in> {pthreads_tsd K, argobots_tsd K, qthreads_tsd K}"

lemma some_backend_ok: "some_backend debug LP LA LQ rep B \<Longrightarrow> locks_ok B rep"
  unfolding some_backend_def by (auto intro: pt.locks_ok abt.locks_ok qt.locks_ok)

lemma some_keys_ok: "some_keys K vals T \<Longrightarrow> keys_ok T vals"
  unfolding some_keys_def by (auto intro: ptk.keys_ok abtk.keys_ok qtk.keys_ok)

lemma reach_tk_inv:
  assumes "obj_lib_ok J" "some_backend debug LP LA LQ rep B" "some_keys K vals T"
    and "reach (tk_init debug A B J T vals rep) (tk_step B J T vals N) s"
  shows "locks_ok B rep" "keys_ok T vals" "tk_inv J vals rep s" "\<forall>t\<ge>N. tm_pc s t = TkIdle"
  using some_backend_ok [OF assms(2)] some_keys_ok [OF assms(3)] tk.reach_inv [OF assms(4)] tkn.reach_inv [OF assms(4)] assms(1)
  by blast+

section \<open>Runs\<close>

text \<open>
  A run as a list of what threads do, on keys that are functions from threads to addresses.
\<close>

datatype 'v tk_action = DoSet tid "'v option" | DoEnd tid | DoSteps nat tid

type_synonym demo_tk = "(tid \<Rightarrow> addr option, amutex, unit, addr list, int) tk_machine"

fun tk_runs :: "amutex mutex_ops \<Rightarrow> (tid \<Rightarrow> addr option) tsd_ops \<Rightarrow> nat \<Rightarrow> int tk_action list \<Rightarrow> demo_tk \<Rightarrow> demo_tk option" where
  "tk_runs B T N [] s = Some s"
| "tk_runs B T N (DoSet t p # xs) s =
     (if t < N \<and> pc_left (tm_pc s t) = 0 \<and> \<not> ending (tm_pc s t)
      then (case tgo t (SetGet p) (tm_key s) s of Ret s \<Rightarrow> tk_runs B T N xs s | _ \<Rightarrow> None) else None)"
| "tk_runs B T N (DoEnd t # xs) s =
     (if t < N \<and> pc_left (tm_pc s t) = 0 \<and> \<not> ending (tm_pc s t)
      then (case tgo t (ExitTest (tk_key (tm_key s) t)) ((tm_key s)\<lparr>tk_key := (tk_key (tm_key s))(t := None)\<rparr>) s of
              Ret s \<Rightarrow> tk_runs B T N xs s | _ \<Rightarrow> None) else None)"
| "tk_runs B T N (DoSteps n t # xs) s =
     (if t < N then (case tk_alone n B ref_objs T t s of Ret s \<Rightarrow> tk_runs B T N xs s | _ \<Rightarrow> None) else None)"

lemma tk_alone_reach:
  "reach init (tk_step B J T vals N) s \<Longrightarrow> t < N \<Longrightarrow> tk_alone n B J T t s = Ret s' \<Longrightarrow> reach init (tk_step B J T vals N) s'"
proof (induction n arbitrary: s)
  case (Suc n)
  show ?case
  proof (cases "pc_left (tm_pc s t) = 0")
    case False
    with Suc.prems(3) obtain r where r: "tk_exec B J T t s = Ret r" "tk_alone n B J T t r = Ret s'" by auto
    from Suc.IH [OF reach.reach_step [OF Suc.prems(1) tk_run [OF Suc.prems(2) r(1)]] Suc.prems(2) r(2)] show ?thesis .
  qed (use Suc.prems in simp)
qed simp

lemma tk_runs_reach:
  "tk_runs B T N xs s = Some s' \<Longrightarrow> reach init (tk_step B ref_objs T (\<lambda>k. k) N) s \<Longrightarrow>
     reach init (tk_step B ref_objs T (\<lambda>k. k) N) s'"
proof (induction B T N xs s rule: tk_runs.induct)
  case (2 B T N t p xs s)
  then show ?case by (auto split: outcome.splits if_splits intro: reach.reach_step tk_set)
next
  case (3 B T N t xs s)
  then show ?case by (auto split: outcome.splits if_splits intro: reach.reach_step tk_end)
next
  case (4 B T N n t xs s)
  then show ?case by (auto split: outcome.splits if_splits intro: tk_alone_reach)
qed simp

definition demo_tk :: demo_tk where
  "demo_tk = \<lparr>tm_key = \<lparr>tk_key = (\<lambda>_. None), tk_mutex = demo_mutex False, tk_list = [], tk_user_destructor = True,
     tk_data = (\<lambda>_. None), tk_live = {}, tk_destroyed = []\<rparr>, tm_pc = (\<lambda>_. TkIdle)\<rparr>"

definition demo_tk_start :: demo_tk where
  "demo_tk_start = demo_tk\<lparr>tm_key := (tm_key demo_tk)\<lparr>tk_user_destructor := False\<rparr>\<rparr>"

lemma demo_tk_reach:
  assumes B: "ti_mutex_init B False (amutex_init False) = Ret ((SUCCESS, amutex_init False), ev)"
    and T: "tsd_key_create T (Some ''_tracked_destructor'') = (SUCCESS, \<lambda>_. None)"
  shows "reach (tk_init debug demo_atomic_lock B ref_objs T (\<lambda>k. k) id) (tk_step B ref_objs T (\<lambda>k. k) N) demo_tk"
proof -
  have "tk_init debug demo_atomic_lock B ref_objs T (\<lambda>k. k) id demo_tk_start"
    unfolding tk_init_def using B T
    by (cases debug) (auto intro!: exI [of _ "tm_key demo_tk_start"] simp: demo_tk_start_def demo_tk_def demo_mutex_def
        tsd_tracked_key_constructor_def mca_threads_mutex_constructor_def construct_mutex_def ref_objs_def demo_atomic_lock_def c_assert_def)
  moreover have "tk_step B ref_objs T (\<lambda>k. k) N demo_tk_start demo_tk"
    using tk_destructor [of B ref_objs T "\<lambda>k. k" N demo_tk_start True]
    by (simp add: demo_tk_start_def demo_tk_def tsd_tracked_key_set_destructor_def)
  ultimately show ?thesis by (blast intro: reach.reach_init reach.reach_step)
qed

text \<open>
  Two threads set a value; the second allocates its item while the first holds the mutex.
  Then the second thread ends.
\<close>

definition two_set :: "int tk_action list" where
  "two_set = [DoSet 0 (Some 5), DoSteps 3 0, DoSet 1 (Some 6), DoSteps 2 1, DoSteps 4 0, DoSteps 5 1]"

definition one_ends :: "int tk_action list" where
  "one_ends = two_set @ [DoEnd 1, DoSteps 4 1]"

lemma demo_tk_run:
  assumes "ti_mutex_init B False (amutex_init False) = Ret ((SUCCESS, amutex_init False), ev)"
    and "tsd_key_create T (Some ''_tracked_destructor'') = (SUCCESS, \<lambda>_. None)" "map_option f (tk_runs B T N xs demo_tk) = Some y"
  shows "\<exists>s. reach (tk_init debug demo_atomic_lock B ref_objs T (\<lambda>k. k) id) (tk_step B ref_objs T (\<lambda>k. k) N) s \<and> f s = y"
proof -
  from assms(3) obtain s where "tk_runs B T N xs demo_tk = Some s" "f s = y" by auto
  with tk_runs_reach [OF _ demo_tk_reach [OF assms(1,2)], of N xs s debug] show ?thesis by blast
qed

lemma demo_tk_pthreads:
  "\<exists>s :: demo_tk. reach (tk_init True demo_atomic_lock (pthreads_mutex_ops True (ref_pthreads True)) ref_objs (pthreads_tsd ref_keys) (\<lambda>k. k) id)
      (tk_step (pthreads_mutex_ops True (ref_pthreads True)) ref_objs (pthreads_tsd ref_keys) (\<lambda>k. k) 2) s \<and>
    (tm_pc s 0, tm_pc s 1) = (SetReturned SUCCESS (Some 5), SetReturned SUCCESS (Some 6))"
  by (rule demo_tk_run [where xs = two_set])
    (simp add: pthreads_mutex_ops_def thread_internal_mutex_init_pt_def ref_pthreads_def,
     simp add: pthreads_tsd_def tsd_key_create_pt_def ref_keys_def, code_simp)

lemma demo_tk_argobots:
  "\<exists>s :: demo_tk. reach (tk_init False demo_atomic_lock (argobots_mutex_ops False ref_argobots) ref_objs (argobots_tsd ref_keys) (\<lambda>k. k) id)
      (tk_step (argobots_mutex_ops False ref_argobots) ref_objs (argobots_tsd ref_keys) (\<lambda>k. k) 2) s \<and>
    (tm_pc s 0, tm_pc s 1, items ref_objs s, map (tk_data (tm_key s)) (items ref_objs s)) =
      (SetReturned SUCCESS (Some 5), SetReturned SUCCESS (Some 6), [1, 2], [Some 5, Some 6])"
  by (rule demo_tk_run [where xs = two_set])
    (simp add: argobots_mutex_ops_def thread_internal_mutex_init_abt_def ref_argobots_def,
     simp add: argobots_tsd_def tsd_key_create_abt_def ref_keys_def, code_simp)

lemma demo_tk_qthreads:
  "\<exists>s :: demo_tk. reach (tk_init True demo_atomic_lock (qthreads_mutex_ops True ref_qthreads) ref_objs (qthreads_tsd ref_keys) (\<lambda>k. k) id)
      (tk_step (qthreads_mutex_ops True ref_qthreads) ref_objs (qthreads_tsd ref_keys) (\<lambda>k. k) 2) s \<and>
    (tm_pc s 0, tm_pc s 1, tk_data (tm_key s) 2, tk_user_destructor (tm_key s)) =
      (SetReturned SUCCESS (Some 5), ExitFinish 2, Some 6, True)"
  by (rule demo_tk_run [where xs = one_ends])
    (simp add: qthreads_mutex_ops_def thread_internal_mutex_init_qt_def ref_qthreads_def,
     simp add: qthreads_tsd_def tsd_key_create_qt_def ref_keys_def, code_simp)

lemma demo_keys:
  "some_keys ref_keys (\<lambda>k. k) (pthreads_tsd ref_keys)" "some_keys ref_keys (\<lambda>k. k) (argobots_tsd ref_keys)"
  "some_keys ref_keys (\<lambda>k. k) (qthreads_tsd ref_keys)"
  by (simp_all add: some_keys_def ref_keys_ok)

section \<open>Properties\<close>

text \<open>
  C23. On each backend, however the calls of the threads interleave: a thread whose
  \<open>tsd_tracked_key_set\<close> has returned \<open>SUCCESS\<close> gets the value it set, until it sets another or
  ends, and a thread that has set no value, or has ended, gets \<open>NULL\<close>.
\<close>

theorem tracked_key_set_get:
  assumes "obj_lib_ok J" "some_backend debug LP LA LQ rep B" "some_keys K vals T"
    and "reach (tk_init debug A B J T vals rep) (tk_step B J T vals N) s"
  shows "(tm_pc s t = SetReturned SUCCESS p \<longrightarrow> tsd_tracked_key_get T t (tm_key s) = (SUCCESS, p)) \<and>
    (tm_pc s t \<in> {TkIdle, TkEnded} \<longrightarrow> tsd_tracked_key_get T t (tm_key s) = (SUCCESS, None))"
proof -
  note r = reach_tk_inv [OF assms] and d = inv_valuesD [OF tk_invD(3) [OF reach_tk_inv(3) [OF assms]]]
  show ?thesis using d(1) [of t] d(3) [of t p] by (auto simp: tsd_tracked_key_get_def keys_okD(2) [OF r(2)])
qed

theorem tracked_key_set_get_witness:
  "\<exists>s :: demo_tk. tm_pc s 0 = SetReturned SUCCESS (Some 5) \<and> tm_pc s 1 = SetReturned SUCCESS (Some 6) \<and>
     tsd_tracked_key_get (pthreads_tsd ref_keys) 0 (tm_key s) = (SUCCESS, Some 5) \<and>
     tsd_tracked_key_get (pthreads_tsd ref_keys) 1 (tm_key s) = (SUCCESS, Some 6)"
proof -
  from demo_tk_pthreads obtain s :: demo_tk where
    r: "reach (tk_init True demo_atomic_lock (pthreads_mutex_ops True (ref_pthreads True)) ref_objs (pthreads_tsd ref_keys) (\<lambda>k. k) id)
      (tk_step (pthreads_mutex_ops True (ref_pthreads True)) ref_objs (pthreads_tsd ref_keys) (\<lambda>k. k) 2) s"
    and p: "tm_pc s 0 = SetReturned SUCCESS (Some 5)" "tm_pc s 1 = SetReturned SUCCESS (Some 6)" by auto
  from tracked_key_set_get [OF ref_objs_ok demo_backends(1) demo_keys(1) r] p show ?thesis by blast
qed

text \<open>
  C22. Destroying a tracked key leaks nothing and destroys nothing twice: at any time at which
  no thread is inside a call on the key, the destructor returns, every item in use has been
  released, and the user's destructor, if set, has been called once on the value of each, in
  the order in which the items were appended.
\<close>

theorem tracked_key_destruction:
  assumes "obj_lib_ok J" "some_backend debug LP LA LQ rep B" "some_keys K vals T"
    and "reach (tk_init debug A B J T vals rep) (tk_step B J T vals N) s" "\<forall>t. pc_left (tm_pc s t) = 0"
  shows "\<exists>key'. tsd_tracked_key_destructor B J T (tm_key s) = Ret key' \<and>
    tk_live key' = {} \<and> list_items J (tk_list key') = [] \<and>
    distinct (items J s) \<and> set (items J s) = tk_live (tm_key s) \<and>
    tk_destroyed key' = (if tk_user_destructor (tm_key s)
      then tk_destroyed (tm_key s) @ map (tk_data (tm_key s)) (items J s) else tk_destroyed (tm_key s))"
proof -
  note r = reach_tk_inv [OF assms(1-4)] and i = tk_invD [OF reach_tk_inv(3) [OF assms(1-4)]]
  have rest: "off_list (tm_pc s t) = None \<and> \<not> tk_locked (tm_pc s t)" for t
    using assms(5) [rule_format, of t] by (cases "tm_pc s t") auto
  then have free: "mx_owner (key_mutex rep s) = None" using i(5) by (cases "mx_owner (key_mutex rep s)") auto
  have live: "set (items J s) = tk_live (tm_key s)" using live_split [OF i(2)] rest by auto
  let ?k = "(tm_key s)\<lparr>tk_key := snd (tsd_key_delete T (tk_key (tm_key s)))\<rparr>"
  note e = destroy_items_effect [OF assms(1), of ?k "items J s"]
  have m: "tk_mutex (destroy_items J (items J s) ?k) = tk_mutex (tm_key s)" using e by simp
  from locks_plain(4) [OF r(1) i(4) free] m obtain x ev where
    "mca_threads_mutex_destructor B (tk_mutex (destroy_items J (items J s) ?k)) = Ret ((tk_mutex (tm_key s))\<lparr>mutex_m_lock := x\<rparr>, ev)"
    by auto
  then show ?thesis using e live inv_itemsD(1) [OF i(2)] by (simp add: tsd_tracked_key_destructor_def)
qed

theorem tracked_key_destruction_witness:
  "\<exists>(s :: demo_tk) key'. tk_data (tm_key s) 1 = Some 5 \<and>
     tsd_tracked_key_destructor (argobots_mutex_ops False ref_argobots) ref_objs (argobots_tsd ref_keys) (tm_key s) = Ret key' \<and>
     tk_live (tm_key s) = {1, 2} \<and> tk_live key' = {}"
proof -
  from demo_tk_argobots obtain s :: demo_tk where
    r: "reach (tk_init False demo_atomic_lock (argobots_mutex_ops False ref_argobots) ref_objs (argobots_tsd ref_keys) (\<lambda>k. k) id)
      (tk_step (argobots_mutex_ops False ref_argobots) ref_objs (argobots_tsd ref_keys) (\<lambda>k. k) 2) s"
    and p: "tm_pc s 0 = SetReturned SUCCESS (Some 5)" "tm_pc s 1 = SetReturned SUCCESS (Some 6)"
      "items ref_objs s = [1, 2]" "tk_data (tm_key s) 1 = Some 5" by auto
  have "pc_left (tm_pc s t) = 0" for t
    using p(1,2) tkn.reach_inv [OF r] by (cases "t < 2") (auto simp: less_2_cases_iff)
  from tracked_key_destruction [OF ref_objs_ok demo_backends(2) demo_keys(2) r allI [OF this]] p(3,4) show ?thesis by auto
qed

text \<open>
  C24. When a thread ends, the item it releases was its own: it is off the list, no thread
  that still runs refers to it, its value is handed to the user's destructor once if there
  is one, no other item is released, and what the other threads get is unchanged.
\<close>

theorem tracked_key_thread_exit:
  assumes "obj_lib_ok J" "some_backend debug LP LA LQ rep B" "some_keys K vals T"
    and "reach (tk_init debug A B J T vals rep) (tk_step B J T vals N) s" "tm_pc s t = ExitFinish a"
  shows "\<exists>s'. tk_exec B J T t s = Ret s' \<and> tm_pc s' t = TkEnded \<and>
    a \<in> tk_live (tm_key s) \<and> a \<notin> set (items J s) \<and> (\<forall>u. u \<noteq> t \<longrightarrow> \<not> claims vals s u a) \<and>
    tk_live (tm_key s') = tk_live (tm_key s) - {a} \<and>
    tk_destroyed (tm_key s') = (if tk_user_destructor (tm_key s)
      then tk_destroyed (tm_key s) @ [tk_data (tm_key s) a] else tk_destroyed (tm_key s)) \<and>
    (\<forall>u. u \<noteq> t \<longrightarrow> tsd_tracked_key_get T u (tm_key s') = tsd_tracked_key_get T u (tm_key s))"
proof -
  note r = reach_tk_inv [OF assms(1-4)] and i = tk_invD [OF reach_tk_inv(3) [OF assms(1-4)]]
  let ?s = "s\<lparr>tm_key := finish_item a (tm_key s), tm_pc := (tm_pc s)(t := TkEnded)\<rparr>"
  have ex: "tk_exec B J T t s = Ret ?s" using assms(5) by (simp add: exec_defs tgo_def)
  have c: "claims vals s t a" "a \<notin> set (items J s)"
    using assms(5) inv_itemsD(3) [OF i(2), of t a] by (auto simp: claims_def)
  from inv_itemsD(6) [OF i(2) c(1)] claims_live [OF i(2) c(1)] c(2) exec_others [OF r(2,3) ex] ex show ?thesis
    by (intro exI [of _ ?s]) auto
qed

theorem tracked_key_thread_exit_witness:
  "\<exists>s s' :: demo_tk. tm_pc s 1 = ExitFinish 2 \<and>
     tk_exec (qthreads_mutex_ops True ref_qthreads) ref_objs (qthreads_tsd ref_keys) 1 s = Ret s' \<and>
     tk_destroyed (tm_key s') = tk_destroyed (tm_key s) @ [Some 6]"
proof -
  from demo_tk_qthreads obtain s :: demo_tk where
    r: "reach (tk_init True demo_atomic_lock (qthreads_mutex_ops True ref_qthreads) ref_objs (qthreads_tsd ref_keys) (\<lambda>k. k) id)
      (tk_step (qthreads_mutex_ops True ref_qthreads) ref_objs (qthreads_tsd ref_keys) (\<lambda>k. k) 2) s"
    and p: "tm_pc s 1 = ExitFinish 2" "tk_data (tm_key s) 2 = Some 6" "tk_user_destructor (tm_key s)" by auto
  from tracked_key_thread_exit [OF ref_objs_ok demo_backends(3) demo_keys(3) r p(1)] p show ?thesis by auto
qed

text \<open>
  C29. No call on a tracked key is undefined, and all calls finish: from any reachable state,
  without further calls, every run has at most seven steps per thread, and some run ends
  with no thread inside a call, because whenever a thread is inside a call some thread can
  take a step.
\<close>

theorem tracked_key_calls_finish:
  assumes "obj_lib_ok J" "some_backend debug LP LA LQ rep B" "some_keys K vals T"
    and "reach (tk_init debug A B J T vals rep) (tk_step B J T vals N) s"
  shows "(\<forall>t. tk_exec B J T t s \<notin> {UB, AssertFail}) \<and>
    (\<forall>t. pc_left (tm_pc s t) \<noteq> 0 \<longrightarrow> (\<exists>s'. tk_move B J T N s s')) \<and>
    (\<forall>n s'. (tk_move B J T N ^^ n) s s' \<longrightarrow> n \<le> 7 * N) \<and>
    (\<exists>n s'. (tk_move B J T N ^^ n) s s' \<and> (\<forall>t. pc_left (tm_pc s' t) = 0))"
proof -
  note r = reach_tk_inv [OF assms]
  have all: "obj_lib_ok J \<and> locks_ok B rep \<and> keys_ok T vals \<and> tk_inv J vals rep s \<and> (\<forall>t\<ge>N. tm_pc s t = TkIdle)"
    using r assms(1) by blast
  have "tk_exec B J T t s = Block" if "pc_left (tm_pc s t) = 0" for t
    using that by (cases "tm_pc s t") (simp_all add: exec_defs)
  then have def: "tk_exec B J T t s \<notin> {UB, AssertFail}" for t
    using exec_defined [OF r(1,3), of t T] by (cases "pc_left (tm_pc s t) = 0") auto
  have run: "\<exists>s'. tk_move B J T N s s'" if "pc_left (tm_pc s t) \<noteq> 0" for t
    using some_thread_runs [OF r(1,3,4) that, of T] by (auto simp: tk_move_def)
  have bound: "n \<le> 7 * N" if "(tk_move B J T N ^^ n) s s'" for n s'
    using tks.bounded_runs [OF that all] tk_work_le [of N s] by simp
  from tks.settles [OF all] obtain n s' where s': "(tk_move B J T N ^^ n) s s'" "tk_inv J vals rep s'"
    "\<forall>t\<ge>N. tm_pc s' t = TkIdle" "\<not> (\<exists>s''. tk_move B J T N s' s'')" by blast
  have "pc_left (tm_pc s' t) = 0" for t
    using some_thread_runs [OF r(1) s'(2,3), of t T] s'(4) by (auto simp: tk_move_def)
  with def run bound s'(1) show ?thesis by blast
qed

theorem tracked_key_calls_finish_witness:
  "\<exists>(s :: demo_tk) n s'. tm_pc s 1 = ExitFinish 2 \<and> n \<le> 14 \<and>
     (tk_move (qthreads_mutex_ops True ref_qthreads) ref_objs (qthreads_tsd ref_keys) 2 ^^ n) s s' \<and>
     (\<forall>t. pc_left (tm_pc s' t) = 0)"
proof -
  from demo_tk_qthreads obtain s :: demo_tk where
    r: "reach (tk_init True demo_atomic_lock (qthreads_mutex_ops True ref_qthreads) ref_objs (qthreads_tsd ref_keys) (\<lambda>k. k) id)
      (tk_step (qthreads_mutex_ops True ref_qthreads) ref_objs (qthreads_tsd ref_keys) (\<lambda>k. k) 2) s"
    and p: "tm_pc s 1 = ExitFinish 2" by auto
  from tracked_key_calls_finish [OF ref_objs_ok demo_backends(3) demo_keys(3) r] p show ?thesis by fastforce
qed

end
