(* ===== verification/Threads.thy ===== *)
theory Threads
  imports Complex_Main Backend_Spec
begin

text \<open>
  Starting and joining threads (\<open>impl/base/create_join.c\<close>), and yielding
  (\<open>threads_*_threads.h\<close>, \<open>threads_pthreads_yield.c\<close>, \<open>threads_argobots.h\<close>).
\<close>

section \<open>Threads\<close>

text \<open>
  \<open>thread_t\<close>; a function or argument is named by a number, and \<open>(pthread_t) -1\<close> is the word
  with all bits set.
\<close>

record thread_t =
  t_run :: "nat option"
  t_arg :: "nat option"
  t_handle :: i64

text \<open>
  The POSIX functions, over a state \<open>'s\<close> of the system. \<open>pthread_create\<close> is given the
  function to run and stores a handle; on failure what it stores is unspecified.
\<close>

record 's posix =
  pthread_create :: "nat option \<Rightarrow> 's \<Rightarrow> int \<times> i64 \<times> 's"
  pthread_join :: "i64 \<Rightarrow> 's \<Rightarrow> (int \<times> nat option \<times> 's) outcome"
  pthread_self :: "'s \<Rightarrow> i64"

definition thread_construct :: "thread_t \<Rightarrow> thread_t" where
  "thread_construct t = t\<lparr>t_run := None, t_handle := - 1\<rparr>"

definition thread_start :: "bool \<Rightarrow> 's posix \<Rightarrow> thread_t \<Rightarrow> 's \<Rightarrow> rc \<times> thread_t \<times> 's" where
  "thread_start debug P t s =
     (if debug \<and> (t_run t = None \<or> - 1 \<noteq> t_handle t) then (ERR_BAD_PARAM, t, s)
      else let (r, h, s) = pthread_create P (t_run t) s
           in (if r = 0 then SUCCESS else ERR_IN_ERRNO, t\<lparr>t_handle := h\<rparr>, s))"

definition thread_join :: "'s posix \<Rightarrow> thread_t \<Rightarrow> 's \<Rightarrow> (rc \<times> nat option \<times> thread_t \<times> 's) outcome" where
  "thread_join P t s =
     obind (pthread_join P (t_handle t) s) (\<lambda>(r, v, s).
       Ret (if r = 0 then SUCCESS else ERR_IN_ERRNO, v, t\<lparr>t_handle := - 1\<rparr>, s))"

definition thread_self_compare :: "'s posix \<Rightarrow> thread_t \<Rightarrow> 's \<Rightarrow> bool" where
  "thread_self_compare P t s \<longleftrightarrow> pthread_self P s = t_handle t"

text \<open>
  \<open>thread_get_self\<close>: the argument is the object \<open>OBJ_NEW\<close> has allocated and constructed, or
  nothing, and the code does not check.
\<close>

definition thread_get_self :: "'s posix \<Rightarrow> thread_t option \<Rightarrow> 's \<Rightarrow> thread_t outcome" where
  "thread_get_self P new s =
     (case new of None \<Rightarrow> UB | Some t \<Rightarrow> Ret (t\<lparr>t_handle := pthread_self P s\<rparr>))"

text \<open>A handle that \<open>pthread_create\<close> returns is not the invalid one.\<close>

definition posix_ok :: "'s posix \<Rightarrow> bool" where
  "posix_ok P \<longleftrightarrow> (\<forall>f s s' h. pthread_create P f s = (0, h, s') \<longrightarrow> h \<noteq> - 1)"

definition startable :: "thread_t \<Rightarrow> bool" where
  "startable t \<longleftrightarrow> t_run t \<noteq> None \<and> t_handle t = - 1"

text \<open>
  C38. The life of a thread object in a debug build. It can be started only between its
  construction, with a function set, or its last join, and its next start; a second start
  is refused and creates nothing; after a successful start a join makes it startable again,
  with the same function.
\<close>

theorem thread_lifecycle:
  assumes "posix_ok P"
  shows "(thread_start True P (thread_construct t) s = (ERR_BAD_PARAM, thread_construct t, s)) \<and>
    (\<not> startable t \<longrightarrow> thread_start True P t s = (ERR_BAD_PARAM, t, s)) \<and>
    (\<forall>t' s'. thread_start True P t s = (SUCCESS, t', s') \<longrightarrow>
       startable t \<and> \<not> startable t' \<and> thread_start True P t' s' = (ERR_BAD_PARAM, t', s') \<and>
       (\<forall>r v t'' s''. thread_join P t' s' = Ret (r, v, t'', s'') \<longrightarrow> startable t'' \<and> t_run t'' = t_run t))"
proof (intro conjI allI impI)
  fix t' s' assume st: "thread_start True P t s = (SUCCESS, t', s')"
  then obtain h where h: "pthread_create P (t_run t) s = (0, h, s')" "t' = t\<lparr>t_handle := h\<rparr>"
    and run: "t_run t \<noteq> None" "t_handle t = - 1"
    by (auto simp: thread_start_def split: if_splits prod.splits)
  with assms have "h \<noteq> - 1" by (auto simp: posix_ok_def)
  with h run show "startable t" "\<not> startable t'" "thread_start True P t' s' = (ERR_BAD_PARAM, t', s')"
    by (auto simp: startable_def thread_start_def)
  show "startable t''" "t_run t'' = t_run t" if "thread_join P t' s' = Ret (r, v, t'', s'')" for r v t'' s''
    using that h(2) run by (auto simp: thread_join_def startable_def)
qed (auto simp: thread_start_def thread_construct_def startable_def)

definition demo_posix :: "nat posix" where
  "demo_posix = \<lparr>pthread_create = (\<lambda>f s. (0, 5, s + 1)), pthread_join = (\<lambda>h s. Ret (0, None, s)), pthread_self = (\<lambda>s. 0)\<rparr>"

theorem thread_lifecycle_witness:
  "thread_start True demo_posix \<lparr>t_run = Some 1, t_arg = None, t_handle = 3\<rparr> 0
     = (ERR_BAD_PARAM, \<lparr>t_run = Some 1, t_arg = None, t_handle = 3\<rparr>, 0)"
proof -
  have "posix_ok demo_posix" by (simp add: posix_ok_def demo_posix_def)
  from thread_lifecycle [OF this, of "\<lparr>t_run = Some 1, t_arg = None, t_handle = 3\<rparr>" 0] show ?thesis
    by (simp add: startable_def)
qed

section \<open>Yielding\<close>

text \<open>\<open>thread_yield\<close> of the backends.\<close>

definition thread_yield_abt :: "event list" where
  "thread_yield_abt = [Yield]"

definition thread_yield_qt :: "event list" where
  "thread_yield_qt = [Yield]"

text \<open>
  The pthreads backend yields by \<open>sched_yield\<close> or by sleeping. The time to sleep is kept in
  nanoseconds and as a \<open>timespec\<close>; the conversions go through \<open>double\<close>. The model computes
  on reals and rounds after every operation with a function \<open>rnd\<close>; of IEEE 754 only the
  bound on its relative error, its monotonicity and its exactness on integers up to
  \<open>2 ^ 53\<close> are used.
\<close>

datatype yield_strategy = PTHREADS_YIELD_SCHED_YIELD | PTHREADS_YIELD_NANOSLEEP

datatype yield_call = SchedYield | Nanosleep int int | NoYield

record yield_state =
  yield_nsleep_nanosecs :: i64
  yield_nsleep_sec :: int
  yield_nsleep_nsec :: int
  yield_strategy :: yield_strategy
  threads_pthreads_yield_fn :: yield_strategy

definition yield_initial :: yield_state where
  "yield_initial = \<lparr>yield_nsleep_nanosecs = 0, yield_nsleep_sec = 0, yield_nsleep_nsec = 1,
     yield_strategy = PTHREADS_YIELD_SCHED_YIELD, threads_pthreads_yield_fn = PTHREADS_YIELD_SCHED_YIELD\<rparr>"

definition to_nanosecs :: "(real \<Rightarrow> real) \<Rightarrow> int \<Rightarrow> int \<Rightarrow> i64" where
  "to_nanosecs rnd sec nsec = word_of_int \<lfloor>rnd (rnd (rnd (real_of_int sec) * 1000000000) + rnd (real_of_int nsec))\<rfloor>"

definition nsleep_sec :: "(real \<Rightarrow> real) \<Rightarrow> i64 \<Rightarrow> int" where
  "nsleep_sec rnd n = \<lfloor>rnd (rnd (real (unat n)) / 1000000000)\<rfloor>"

definition nsleep_nsec :: "(real \<Rightarrow> real) \<Rightarrow> i64 \<Rightarrow> int \<Rightarrow> int" where
  "nsleep_nsec rnd n sec = sint (n - word_of_int \<lfloor>rnd (rnd (real_of_int sec) * 1000000000)\<rfloor>)"

text \<open>
  \<open>threads_pthreads_yield_init\<close>; registering a variable may replace its value by the one the
  user has configured.
\<close>

definition threads_pthreads_yield_init ::
  "(real \<Rightarrow> real) \<Rightarrow> yield_strategy option \<Rightarrow> i64 option \<Rightarrow> yield_state \<Rightarrow> rc \<times> yield_state" where
  "threads_pthreads_yield_init rnd user_strategy user_nanosecs s =
     (let s = s\<lparr>yield_strategy := (case user_strategy of None \<Rightarrow> yield_strategy s | Some y \<Rightarrow> y)\<rparr>;
          s = (case yield_strategy s of
                 PTHREADS_YIELD_NANOSLEEP \<Rightarrow> s\<lparr>threads_pthreads_yield_fn := PTHREADS_YIELD_NANOSLEEP\<rparr>
               | _ \<Rightarrow> s);
          s = s\<lparr>yield_nsleep_nanosecs := to_nanosecs rnd (yield_nsleep_sec s) (yield_nsleep_nsec s)\<rparr>;
          s = s\<lparr>yield_nsleep_nanosecs := (case user_nanosecs of None \<Rightarrow> yield_nsleep_nanosecs s | Some n \<Rightarrow> n)\<rparr>;
          s = s\<lparr>yield_nsleep_sec := nsleep_sec rnd (yield_nsleep_nanosecs s)\<rparr>;
          s = s\<lparr>yield_nsleep_nsec := nsleep_nsec rnd (yield_nsleep_nanosecs s) (yield_nsleep_sec s)\<rparr>
      in (SUCCESS, s))"

text \<open>The entry points of the components and of the framework.\<close>

definition threads_pthreads_register ::
  "(real \<Rightarrow> real) \<Rightarrow> yield_strategy option \<Rightarrow> i64 option \<Rightarrow> yield_state \<Rightarrow> rc \<times> yield_state" where
  "threads_pthreads_register = threads_pthreads_yield_init"

definition threads_pthreads_open :: rc where
  "threads_pthreads_open = SUCCESS"

definition threads_qthreads_open :: rc where
  "threads_qthreads_open = SUCCESS"

text \<open>
  The entry point of the Argobots component: the function it calls and the value it returns
  are not in the repository.
\<close>

definition opal_threads_argobots_open :: "(unit \<Rightarrow> 's \<Rightarrow> 's) \<Rightarrow> int \<Rightarrow> 's \<Rightarrow> int \<times> 's" where
  "opal_threads_argobots_open opal_threads_argobots_ensure_init OPAL_SUCCESS s =
     (OPAL_SUCCESS, opal_threads_argobots_ensure_init () s)"

definition mca_threads_base_register :: rc where
  "mca_threads_base_register = SUCCESS"

definition thread_pthreads_yield_nanosleep :: "yield_state \<Rightarrow> yield_call" where
  "thread_pthreads_yield_nanosleep s = Nanosleep (yield_nsleep_sec s) (yield_nsleep_nsec s)"

text \<open>Without \<open>HAVE_SCHED_H\<close> the default strategy does nothing.\<close>

definition thread_pthreads_yield_sched_yield :: "bool \<Rightarrow> yield_call" where
  "thread_pthreads_yield_sched_yield have_sched_h = (if have_sched_h then SchedYield else NoYield)"

definition thread_yield_pt :: "bool \<Rightarrow> yield_state \<Rightarrow> yield_call" where
  "thread_yield_pt have_sched_h s =
     (case threads_pthreads_yield_fn s of
        PTHREADS_YIELD_SCHED_YIELD \<Rightarrow> thread_pthreads_yield_sched_yield have_sched_h
      | PTHREADS_YIELD_NANOSLEEP \<Rightarrow> thread_pthreads_yield_nanosleep s)"

definition rounding_ok :: "(real \<Rightarrow> real) \<Rightarrow> bool" where
  "rounding_ok rnd \<longleftrightarrow> mono rnd \<and> (\<forall>i :: int. \<bar>i\<bar> \<le> 2 ^ 53 \<longrightarrow> rnd (real_of_int i) = real_of_int i) \<and>
     (\<forall>x. 1 / 2 ^ 1022 \<le> \<bar>x\<bar> \<longrightarrow> \<bar>rnd x - x\<bar> \<le> \<bar>x\<bar> / 2 ^ 53)"

lemma rounding_int: "rounding_ok rnd \<Longrightarrow> \<bar>i\<bar> \<le> 2 ^ 53 \<Longrightarrow> rnd (real_of_int i) = real_of_int i"
  by (simp add: rounding_ok_def)

text \<open>The rounded quotient does not reach the next integer.\<close>

lemma rounded_quotient:
  assumes ok: "rounding_ok rnd" and n: "n < 2 ^ 53"
  shows "\<lfloor>rnd (real n / 1000000000)\<rfloor> = int (n div 1000000000)"
proof -
  let ?q = "n div 1000000000" and ?x = "real n / 1000000000"
  have "?q * 1000000000 \<le> n" by (rule div_times_less_eq_dividend)
  then have "real (?q * 1000000000) \<le> real n" by (simp only: of_nat_le_iff)
  then have q: "real ?q \<le> ?x" by (simp add: field_simps)
  have "int ?q \<le> 2 ^ 53" using n by (simp add: zdiv_int)
  then have "rnd (real_of_int (int ?q)) = real_of_int (int ?q)" by (intro rounding_int [OF ok]) simp
  moreover have "rnd (real ?q) \<le> rnd ?x" using ok q monoD unfolding rounding_ok_def by blast
  ultimately have low: "real ?q \<le> rnd ?x" by simp
  have "n mod 1000000000 < 1000000000" by simp
  with div_mult_mod_eq [of n 1000000000] have "n < ?q * 1000000000 + 1000000000"
    by (metis add_less_cancel_left)
  then have "real (n + 1) \<le> real (?q * 1000000000 + 1000000000)" by (simp only: of_nat_le_iff)
  then have x: "?x \<le> real ?q + 1 - 1 / 1000000000" by (simp add: field_simps)
  have high: "rnd ?x < real ?q + 1"
  proof (cases "n = 0")
    case True
    with rounding_int [OF ok, of 0] show ?thesis by simp
  next
    case False
    have "(1 :: real) / 2 ^ 1022 \<le> 1 / 2 ^ 30" by (intro divide_left_mono power_increasing) simp_all
    also have "\<dots> \<le> ?x" using False by (simp add: field_simps)
    finally have "1 / 2 ^ 1022 \<le> \<bar>?x\<bar>" by simp
    with ok have "\<bar>rnd ?x - ?x\<bar> \<le> \<bar>?x\<bar> / 2 ^ 53" unfolding rounding_ok_def by blast
    moreover have "\<bar>?x\<bar> / 2 ^ 53 < 1 / 1000000000"
    proof -
      have "real n < real (2 ^ 53)" using n by (simp only: of_nat_less_iff)
      then show ?thesis by (simp add: field_simps)
    qed
    ultimately show ?thesis using x by linarith
  qed
  show ?thesis using low high by (intro floor_unique) simp_all
qed

lemma nsleep_exact:
  assumes ok: "rounding_ok rnd" and m: "m = unat n" "m < 2 ^ 53"
  shows "nsleep_sec rnd n = int (m div 1000000000)"
    "nsleep_nsec rnd n (nsleep_sec rnd n) = int (m mod 1000000000)"
proof -
  let ?q = "m div 1000000000"
  have n: "n = word_of_int (int m)" by (simp add: m(1))
  have r: "rnd (real m) = real m" using rounding_int [OF ok, of "int m"] m(2) by simp
  show s: "nsleep_sec rnd n = int ?q"
    using rounded_quotient [OF ok m(2)] unfolding nsleep_sec_def m(1) [symmetric] r .
  have le: "?q * 1000000000 \<le> m" by (rule div_times_less_eq_dividend)
  have "m < 9007199254740992" using m(2) by simp
  with le have "?q * 1000000000 < 9007199254740992" "?q < 9007199254740992" by linarith+
  then have "int (?q * 1000000000) < 9007199254740992" "int ?q < 9007199254740992" by linarith+
  then have "rnd (rnd (real_of_int (int ?q)) * 1000000000) = real_of_int (int (?q * 1000000000))"
    using rounding_int [OF ok, of "int ?q"] rounding_int [OF ok, of "int (?q * 1000000000)"] by simp
  then have f: "\<lfloor>rnd (rnd (real_of_int (int ?q)) * 1000000000)\<rfloor> = int (?q * 1000000000)" by (simp only: floor_of_int)
  have d: "int m - int (?q * 1000000000) = int (m mod 1000000000)"
    using div_mult_mod_eq [of m 1000000000] by linarith
  have "n - word_of_int (int (?q * 1000000000)) = word_of_int (int m - int (?q * 1000000000))"
    unfolding n by (simp only: of_int_diff)
  then have "nsleep_nsec rnd n (int ?q) = sint (word_of_int (int (m mod 1000000000)) :: i64)"
    unfolding nsleep_nsec_def f d by simp
  also have "\<dots> = int (m mod 1000000000)"
  proof (rule sint_of_fits)
    have "m mod 1000000000 < 1000000000" by simp
    then show "fits TYPE(64) (int (m mod 1000000000))" unfolding fits_def by simp
  qed
  finally show "nsleep_nsec rnd n (nsleep_sec rnd n) = int (m mod 1000000000)" by (simp only: s)
qed

text \<open>
  C39. After the initialisation of the yield strategy the time to sleep is the configured
  number of nanoseconds, split into whole seconds and a rest below one second, although the
  code converts through floating point; this holds for every number below \<open>2 ^ 53\<close>. When no
  strategy is configured the backend goes on yielding by \<open>sched_yield\<close>, where there is one.
\<close>

theorem yield_time_split:
  assumes "rounding_ok rnd" "unat n < 2 ^ 53" "threads_pthreads_yield_init rnd y (Some n) s = (r, s')"
  shows "yield_nsleep_sec s' * 1000000000 + yield_nsleep_nsec s' = int (unat n) \<and>
    0 \<le> yield_nsleep_nsec s' \<and> yield_nsleep_nsec s' < 1000000000 \<and> r = SUCCESS \<and>
    (y = Some PTHREADS_YIELD_NANOSLEEP \<longrightarrow>
       thread_yield_pt h s' = Nanosleep (int (unat n div 1000000000)) (int (unat n mod 1000000000))) \<and>
    (y = None \<and> s = yield_initial \<longrightarrow> thread_yield_pt h s' = (if h then SchedYield else NoYield))"
proof -
  note e = nsleep_exact [OF assms(1) refl assms(2)]
  have s': "yield_nsleep_sec s' = int (unat n div 1000000000)" "yield_nsleep_nsec s' = int (unat n mod 1000000000)" "r = SUCCESS"
    using assms(3) e by (auto simp: threads_pthreads_yield_init_def Let_def split: yield_strategy.splits)
  have "int (unat n div 1000000000) * 1000000000 + int (unat n mod 1000000000) = int (unat n)"
    using div_mult_mod_eq [of "unat n" 1000000000] by linarith
  moreover have "threads_pthreads_yield_fn s' = PTHREADS_YIELD_NANOSLEEP" if "y = Some PTHREADS_YIELD_NANOSLEEP"
    using assms(3) that by (auto simp: threads_pthreads_yield_init_def Let_def)
  moreover have "threads_pthreads_yield_fn s' = PTHREADS_YIELD_SCHED_YIELD" if "y = None" "s = yield_initial"
    using assms(3) that by (auto simp: threads_pthreads_yield_init_def Let_def yield_initial_def)
  ultimately show ?thesis using s' by (auto simp: thread_yield_pt_def thread_pthreads_yield_nanosleep_def
      thread_pthreads_yield_sched_yield_def)
qed

theorem yield_time_split_witness:
  "\<exists>r s'. threads_pthreads_yield_init (\<lambda>x. x) (Some PTHREADS_YIELD_NANOSLEEP) (Some 2500000000) yield_initial = (r, s') \<and>
     thread_yield_pt True s' = Nanosleep 2 500000000"
proof -
  obtain r s' where s: "threads_pthreads_yield_init (\<lambda>x. x) (Some PTHREADS_YIELD_NANOSLEEP) (Some 2500000000) yield_initial = (r, s')"
    by fastforce
  have "rounding_ok (\<lambda>x. x)" by (simp add: rounding_ok_def mono_def)
  from yield_time_split [OF this _ s] s show ?thesis by simp
qed

end
