(* ===== verification/Self_Key.thy ===== *)
theory Self_Key
  imports Sync_Spec
begin

text \<open>
  \<open>self_key_ensure_init\<close> of \<open>impl/qthreads/threads_qthreads_module.c\<close>: the key of the current
  thread is created on first use, with the flag tested before and after taking a lock. Any
  number of threads run it; a step is one access to the flag, the lock or the key.
\<close>

section \<open>The machine\<close>

text \<open>
  Lines 18, 20, 22, 24, 26 and 28 of the source, and the end. The lock is OPAL's spin lock:
  taken when free, released by its holder. The \<open>n\<close>-th call of \<open>qthread_key_create\<close> returns a
  code and, unless it fails to, a key, which it writes to \<open>thread_self_key\<close>; the code calls it
  for its effect and does not look at the result.
\<close>

datatype key_pc = K18 | K20 | K22 | K24 | K26 | K28 | KDone

record 'k key_state =
  key_lock :: amutex
  thread_self_key_init :: bool
  thread_self_key :: "'k option"
  key_creations :: nat
  key_pc :: "tid \<Rightarrow> key_pc"

definition kgoto :: "tid \<Rightarrow> key_pc \<Rightarrow> 'k key_state \<Rightarrow> 'k key_state" where
  "kgoto t p s = s\<lparr>key_pc := (key_pc s)(t := p)\<rparr>"

definition self_key_step :: "(nat \<Rightarrow> int \<times> 'k option) \<Rightarrow> tid \<Rightarrow> 'k key_state \<Rightarrow> 'k key_state outcome" where
  "self_key_step qthread_key_create t s =
     (case key_pc s t of
        K18 \<Rightarrow> Ret (kgoto t (if \<not> thread_self_key_init s then K20 else KDone) s)
      | K20 \<Rightarrow> obind (amutex_lock t (key_lock s)) (\<lambda>m. Ret (kgoto t K22 (s\<lparr>key_lock := m\<rparr>)))
      | K22 \<Rightarrow> Ret (kgoto t (if \<not> thread_self_key_init s then K24 else K28) s)
      | K24 \<Rightarrow> Ret (kgoto t K26 (s\<lparr>thread_self_key :=
                                     (case qthread_key_create (key_creations s) of
                                        (_, None) \<Rightarrow> thread_self_key s | (_, Some k) \<Rightarrow> Some k),
                                  key_creations := Suc (key_creations s)\<rparr>))
      | K26 \<Rightarrow> Ret (kgoto t K28 (s\<lparr>thread_self_key_init := True\<rparr>))
      | K28 \<Rightarrow> obind (amutex_unlock t (key_lock s)) (\<lambda>m. Ret (kgoto t KDone (s\<lparr>key_lock := m\<rparr>)))
      | KDone \<Rightarrow> Block)"

text \<open>A thread whose call has returned may call again.\<close>

inductive key_step :: "(nat \<Rightarrow> int \<times> 'k option) \<Rightarrow> 'k key_state \<Rightarrow> 'k key_state \<Rightarrow> bool" for create where
  key_run: "self_key_step create t s = Ret s' \<Longrightarrow> key_step create s s'"
| key_call: "key_pc s t = KDone \<Longrightarrow> key_step create s (kgoto t K18 s)"

definition key_init :: "'k key_state \<Rightarrow> bool" where
  "key_init s \<longleftrightarrow> key_lock s = amutex_init False \<and> \<not> thread_self_key_init s \<and> thread_self_key s = None \<and>
     key_creations s = 0 \<and> key_pc s = (\<lambda>_. K18)"

section \<open>The invariant\<close>

definition in_section :: "key_pc \<Rightarrow> bool" where
  "in_section p \<longleftrightarrow> p \<in> {K22, K24, K26, K28}"

definition key_inv :: "(nat \<Rightarrow> int \<times> 'k option) \<Rightarrow> 'k key_state \<Rightarrow> bool" where
  "key_inv create s \<longleftrightarrow> plain (key_lock s) \<and>
     (\<forall>t. in_section (key_pc s t) \<longleftrightarrow> mx_owner (key_lock s) = Some t) \<and>
     (\<forall>t. key_pc s t \<in> {K24, K26} \<longrightarrow> \<not> thread_self_key_init s) \<and>
     (\<forall>t. key_pc s t \<in> {K28, KDone} \<longrightarrow> thread_self_key_init s) \<and>
     (thread_self_key_init s \<longrightarrow> key_creations s = 1) \<and>
     (\<not> thread_self_key_init s \<longrightarrow> key_creations s = (if \<exists>t. key_pc s t = K26 then 1 else 0)) \<and>
     thread_self_key s = (if key_creations s = 0 then None else snd (create 0))"

lemma key_invD:
  assumes "key_inv create s"
  shows "plain (key_lock s)" "in_section (key_pc s t) \<longleftrightarrow> mx_owner (key_lock s) = Some t"
    "key_pc s t \<in> {K24, K26} \<Longrightarrow> \<not> thread_self_key_init s"
    "key_pc s t \<in> {K28, KDone} \<Longrightarrow> thread_self_key_init s"
    "thread_self_key_init s \<Longrightarrow> key_creations s = 1"
    "\<not> thread_self_key_init s \<Longrightarrow> key_creations s = (if \<exists>t. key_pc s t = K26 then 1 else 0)"
    "thread_self_key s = (if key_creations s = 0 then None else snd (create 0))"
    "in_section (key_pc s t) \<Longrightarrow> in_section (key_pc s u) \<Longrightarrow> t = u"
  using assms unfolding key_inv_def by (blast, blast, blast, blast, blast, blast, blast, metis option.inject)

lemma kgoto_fields [simp]:
  "key_lock (kgoto t p s) = key_lock s" "thread_self_key_init (kgoto t p s) = thread_self_key_init s"
  "thread_self_key (kgoto t p s) = thread_self_key s" "key_creations (kgoto t p s) = key_creations s"
  "key_pc (kgoto t p s) = (key_pc s)(t := p)"
  by (simp_all add: kgoto_def)

lemma key_inv_run:
  assumes inv: "key_inv create s" and ex: "self_key_step create t s = Ret s'"
  shows "key_inv create s'"
proof -
  note d = key_invD [OF inv]
  have only: "in_section (key_pc s t) \<Longrightarrow> u \<noteq> t \<Longrightarrow> \<not> in_section (key_pc s u)" for u using d(8) by blast
  have sec: "key_pc s u \<in> {K22, K24, K26, K28} \<Longrightarrow> in_section (key_pc s u)" for u by (simp add: in_section_def)
  show ?thesis
  proof (cases "key_pc s t")
    case K18
    then have s': "s' = kgoto t (if \<not> thread_self_key_init s then K20 else KDone) s" using ex by (simp add: self_key_step_def)
    have "mx_owner (key_lock s) \<noteq> Some t" using K18 d(2) [of t] by (simp add: in_section_def)
    with K18 inv show ?thesis unfolding key_inv_def s' by (auto simp: in_section_def)
  next
    case K20
    with ex d(1) have o: "mx_owner (key_lock s) = None"
      and s': "s' = kgoto t K22 (s\<lparr>key_lock := (key_lock s)\<lparr>mx_owner := Some t, mx_depth := Suc 0\<rparr>\<rparr>)"
      by (auto simp: self_key_step_def amutex_lock_plain split: if_splits)
    have out: "\<not> in_section (key_pc s u)" for u using d(2) [of u] o by simp
    then show ?thesis using K20 inv unfolding key_inv_def s' by (auto simp: in_section_def)
  next
    case K22
    then have s': "s' = kgoto t (if \<not> thread_self_key_init s then K24 else K28) s" using ex by (simp add: self_key_step_def)
    have "key_pc s u \<noteq> K26" for u using only [of u] K22 by (cases "u = t") (auto simp: in_section_def)
    with K22 only show ?thesis using inv unfolding key_inv_def s' by (auto simp: in_section_def)
  next
    case K24
    have n: "\<not> thread_self_key_init s" using d(3) [of t] K24 by simp
    have o: "key_pc s u \<noteq> K26" for u using only [of u] K24 by (cases "u = t") (auto simp: in_section_def)
    with d(6) [OF n] have c: "key_creations s = 0" by simp
    then have "thread_self_key s = None" using d(7) by simp
    with c K24 have s': "s' = kgoto t K26 (s\<lparr>thread_self_key := snd (create 0), key_creations := 1\<rparr>)"
      using ex by (simp add: self_key_step_def split: prod.splits option.splits)
    show ?thesis using K24 inv only n o c unfolding key_inv_def s' by (auto simp: in_section_def)
  next
    case K26
    then have s': "s' = kgoto t K28 (s\<lparr>thread_self_key_init := True\<rparr>)" using ex by (simp add: self_key_step_def)
    have n: "\<not> thread_self_key_init s" using d(3) [of t] K26 by simp
    have c: "key_creations s = 1" using d(6) [OF n] K26 by auto
    have o: "key_pc s u \<notin> {K24, K26}" if "u \<noteq> t" for u using only [of u] K26 that by (auto simp: in_section_def)
    have "thread_self_key s = snd (create 0)" using d(7) c by simp
    with K26 c o d(1,2,4) show ?thesis unfolding key_inv_def s' by (auto simp: in_section_def)
  next
    case K28
    with ex d(1) have s': "s' = kgoto t KDone (s\<lparr>key_lock := (key_lock s)\<lparr>mx_owner := None, mx_depth := 0\<rparr>\<rparr>)"
      by (auto simp: self_key_step_def amutex_unlock_plain split: if_splits)
    from K28 only d(4) [of t] show ?thesis using inv unfolding key_inv_def s' by (auto simp: in_section_def)
  qed (use ex in \<open>simp add: self_key_step_def\<close>)
qed

lemma key_inv_call:
  assumes inv: "key_inv create s" and p: "key_pc s t = KDone"
  shows "key_inv create (kgoto t K18 s)"
proof -
  note d = key_invD [OF inv]
  have i: "thread_self_key_init s" using d(4) [of t] p by simp
  have o: "mx_owner (key_lock s) \<noteq> Some t" using d(2) [of t] p by (simp add: in_section_def)
  show ?thesis
    unfolding key_inv_def using d(1,2,3,4,5,7) i o by (auto simp: in_section_def)
qed

lemma key_inv_step: "key_inv create s \<Longrightarrow> key_step create s s' \<Longrightarrow> key_inv create s'"
  by (erule key_step.cases) (auto intro: key_inv_run key_inv_call)

lemma key_inv_init: "key_init s \<Longrightarrow> key_inv create s"
  by (simp add: key_init_def key_inv_def in_section_def)

interpretation sk: inv_system key_init "key_step create" "key_inv create" for create
  by unfold_locales (auto intro: key_inv_step key_inv_init)

text \<open>As long as a thread is inside the call some thread can take a step.\<close>

lemma self_key_live:
  assumes "reach key_init (key_step create) s" "key_pc s t \<noteq> KDone"
  shows "self_key_step create t s \<noteq> UB \<and> (\<exists>u s'. self_key_step create u s = Ret s')"
proof -
  note d = key_invD [OF sk.reach_inv [OF assms(1)]]
  have safe: "self_key_step create u s \<noteq> UB" for u
    using d(1) d(2) [of u] by (cases "key_pc s u")
      (auto simp: self_key_step_def obind_eq_UB amutex_lock_plain amutex_unlock_plain in_section_def split: if_splits)
  have go: "\<exists>s'. self_key_step create u s = Ret s'" if "in_section (key_pc s u)" for u
    using that d(1) d(2) [of u] by (cases "key_pc s u")
      (auto simp: self_key_step_def amutex_unlock_plain in_section_def)
  have "\<exists>u s'. self_key_step create u s = Ret s'"
  proof (cases "mx_owner (key_lock s)")
    case None
    have "\<exists>s'. self_key_step create t s = Ret s'"
      using None assms(2) d(1) d(2) [of t] by (cases "key_pc s t")
        (auto simp: self_key_step_def amutex_lock_plain in_section_def)
    then show ?thesis by blast
  next
    case (Some u)
    with go [of u] d(2) [of u] show ?thesis by auto
  qed
  with safe show ?thesis by blast
qed

section \<open>Properties\<close>

text \<open>
  C34. However many threads call \<open>self_key_ensure_init\<close>, \<open>qthread_key_create\<close> is called at most
  once, and a thread whose call has returned finds the flag set and in \<open>thread_self_key\<close> what
  that one call has written: the key, or nothing if the creation failed, which is then never
  tried again. A call never gets stuck or misuses the lock: as long as a thread is inside
  the call, some thread can take a step.
\<close>

theorem self_key_created_once:
  assumes "reach key_init (key_step create) s"
  shows "key_creations s \<le> 1 \<and>
    (if key_pc s t = KDone then thread_self_key_init s \<and> thread_self_key s = snd (create 0) \<and> key_creations s = 1
     else self_key_step create t s \<noteq> UB \<and> (\<exists>u s'. self_key_step create u s = Ret s'))"
  using key_invD(4) [OF sk.reach_inv [OF assms], of t] key_invD(5-7) [OF sk.reach_inv [OF assms]]
    self_key_live [OF assms, of t]
  by (cases "thread_self_key_init s") auto

definition key_start :: "nat key_state" where
  "key_start = \<lparr>key_lock = amutex_init False, thread_self_key_init = False, thread_self_key = None,
     key_creations = 0, key_pc = (\<lambda>_. K18)\<rparr>"

lemma key_start_reach: "reach key_init (key_step create) key_start"
  by (rule reach.reach_init) (simp add: key_init_def key_start_def)

text \<open>Creation succeeds, or fails and writes nothing.\<close>

definition demo_create :: "bool \<Rightarrow> nat \<Rightarrow> int \<times> nat option" where
  "demo_create works n = (if works then (0, Some n) else (12, None))"

theorem self_key_created_once_witness:
  "\<forall>works. \<exists>s :: nat key_state. key_pc s 0 = KDone \<and> thread_self_key_init s \<and>
     thread_self_key s = (if works then Some 0 else None) \<and> key_creations s = 1"
proof
  fix works
  let ?c = "demo_create works"
  let ?run = "\<lambda>s. case s of Ret s \<Rightarrow> self_key_step ?c 0 s | _ \<Rightarrow> s"
  have step: "reach key_init (key_step ?c) s'"
    if "reach key_init (key_step ?c) s" "self_key_step ?c 0 s = Ret s'" for s s' :: "nat key_state"
    by (rule reach.reach_step [OF that(1) key_run [OF that(2)]])
  have "\<exists>s. (?run ^^ 6) (Ret key_start) = Ret s \<and> key_pc s 0 = KDone"
    by (simp add: numeral_eq_Suc self_key_step_def key_start_def kgoto_def amutex_lock_plain amutex_unlock_plain)
  moreover have "(?run ^^ n) (Ret key_start) = Ret s \<Longrightarrow> reach key_init (key_step ?c) s" for n s
    by (induction n arbitrary: s) (auto intro: key_start_reach step split: outcome.splits)
  ultimately obtain s where "reach key_init (key_step ?c) s" "key_pc s 0 = KDone" by blast
  with self_key_created_once [of ?c s 0] show "\<exists>s :: nat key_state. key_pc s 0 = KDone \<and> thread_self_key_init s \<and>
     thread_self_key s = (if works then Some 0 else None) \<and> key_creations s = 1" by (auto simp: demo_create_def)
qed

end
