(* ===== verification/Spec2Isabelle.thy ===== *)
theory Spec2Isabelle
  imports Thread_Usage Wait_Backend Wait_Alone Monitor_Backend Tracked_Keys Threads Self_Key
begin

text \<open>
  \<^bold>\<open>libult\<close>, a portable threading layer in C over one of three thread libraries: POSIX
  threads, Argobots or Qthreads. The paths below are relative to \<open>src/src/\<close>.

  \<^bold>\<open>The program.\<close> A flag says whether the process uses threads; integer operations are
  atomic when it does and plain C when it does not (\<open>thread_usage.h\<close>). Each backend
  (\<open>impl/pthreads\<close>, \<open>impl/argobots\<close>, \<open>impl/qthreads\<close>) defines the functions
  \<open>thread_internal_mutex_*\<close> and \<open>thread_internal_cond_*\<close>, thread-specific data and
  yielding; the portable mutex (\<open>mutex.h\<close>, \<open>impl/base/mutex.c\<close>) is a thin layer over them.
  On these stand the counting condition (\<open>condition.h\<close>), the monitor macros (\<open>threads.h\<close>),
  tracked keys (\<open>tsd.h\<close>, \<open>impl/base/tsd.c\<close>), threads (\<open>impl/base/create_join.c\<close>) and the core
  of the library, the wait list (\<open>wait_sync.h\<close>, \<open>impl/base/wait_sync.c\<close>): a thread that waits
  for operations links its object into a ring; the thread at the head, and a configured
  number of others, call \<open>progress()\<close>, the rest sleep on the condition of their object; an
  update that brings the count of an object to zero signals its thread; a thread that leaves
  the head of the ring wakes the next one.

  \<^bold>\<open>Modelling.\<close> A call gives an \<open>outcome\<close>: it returns, it waits, an assertion fails, or it
  is undefined (\<open>Ult_Prelude\<close>). Structs are records, \<open>int32_t\<close> is \<open>32 word\<close> with the
  overflow of signed arithmetic undefined unless the operation is atomic. Code outside the
  repository is a parameter: the thread libraries, the atomic primitives, \<open>progress()\<close>, the
  clock, OPAL's lists and allocator. What they document is a hypothesis, one predicate per
  library (\<open>atomic_lib_ok\<close>, \<open>pthread_mutex_ok\<close>, \<open>pthread_cond_ok\<close>, \<open>abt_mutex_ok\<close>,
  \<open>abt_cond_ok\<close>, \<open>qthread_mutex_ok\<close>), and each is shown to hold of a reference library
  (\<open>ref_atomics\<close>, \<open>ref_pthreads\<close>, \<open>ref_argobots\<close>, \<open>ref_qthreads\<close>), on which the witnesses run.
  Functions of a library that report failure may fail in the model, and the code's reaction is
  part of it: it asserts, reports, or goes on as if nothing had happened.

  \<^bold>\<open>Theories.\<close>

  \<^item> \<open>Thread_Usage\<close>: \<open>thread_usage.h\<close>. Every function the macros define; the locale
    \<open>atomic_pair\<close> is the contract of a pair of functions and is interpreted for each of the
    twelve. Both modes compute the same where the plain mode is defined.

  \<^item> \<open>Sync_Spec\<close>: the abstract mutex and condition variable, the promise of a backend. A
    recursive mutex can be nested up to a limit of the library, \<open>mx_limit\<close>, beyond which POSIX
    returns \<open>EAGAIN\<close>.

  \<^item> \<open>Backend_Spec\<close>: the functions of a backend as records, and the locales \<open>mutex_backend\<close>
    and \<open>cond_backend\<close> that say they implement \<open>Sync_Spec\<close>. \<open>Pthreads\<close>, \<open>Argobots\<close>,
    \<open>Qthreads\<close>: every function of \<open>threads_*_mutex.h\<close>, in debug and release builds, and
    the interpretations of the two locales. \<open>Qthreads_Cond\<close>: the condition variables that the
    Qthreads backend builds itself, a linked queue of waiters on the stacks of the waiting
    threads, implement a FIFO and never point into a frame that is gone.

  \<^item> \<open>Mutex\<close>: \<open>mutex.h\<close> and \<open>impl/base/mutex.c\<close> over a backend: constructors, the operations
    with and without threads, the atomic variants, scoped locks, condition variables.

  \<^item> \<open>Wait_List\<close>: the data of \<open>wait_sync.h\<close> and the two list operations of
    \<open>ompi_sync_wait_mt\<close>, which refine a queue (locale \<open>pending_queue\<close>). \<open>Wait_Sync\<close>: the
    macros, updates, both global wake-ups and the single-threaded wait, each run alone.

  \<^item> \<open>Wait_Machine\<close>: the same code run by any number of threads, each at a line of the
    source, one access to shared state per step, over the primitives of any backend; the
    constructor names are the line numbers. \<open>Wait_Inv\<close>, \<open>Wait_Ring\<close>, \<open>Wait_Safety\<close>: for every
    caller, who holds which lock, the ring, the promotion of the head, mutual exclusion and
    freedom from deadlock. \<open>Wait_Exact\<close>: for callers that report each operation at most once
    and no error (\<open>exact_client\<close>), the count is what has not been reported, no completion is
    lost, nothing is undefined and a wait that returns is complete; and, for callers that
    also report errors (\<open>error_client\<close>), a run in which two failing operations of an object
    lead to the use of a destroyed lock. \<open>Wait_Settle\<close>: without further calls the machine comes to
    rest, for every caller, and then, for the callers of \<open>Wait_Exact\<close>, no wait is open whose
    operations have all been reported.

  \<^item> \<open>Wait_Alone\<close>: a thread of the machine that runs alone through an update, a release or a
    global wake-up computes the functions of \<open>Wait_Sync\<close>: the two models of these lines agree.

  \<^item> \<open>Wait_Backend\<close>: the machine over the functions of each backend and the portable mutex is
    simulated by the machine over \<open>Sync_Spec\<close> (locales \<open>prim_backend\<close> and \<open>wait_backend\<close>, the
    second a sublocale of the first, interpreted for the three backends), so the safety and
    liveness results hold of the composed code.

  \<^item> \<open>Condition\<close>: \<open>condition.h\<close> and \<open>impl/*/threads_*_condition.c\<close>, with the
    calls on the mutex and any interference between unlock and lock. \<open>Monitor\<close>:
    \<open>ACQUIRE_THREAD\<close>, \<open>RELEASE_THREAD\<close> and \<open>WAKEUP_THREAD\<close> of \<open>threads.h\<close> as a machine of
    threads. \<open>WAKEUP_THREAD\<close> takes no lock. For callers that hold the mutex around it, or do
    not use it (\<open>mon_step\<close>): no lost wake-up, no overflow, a waiting thread gets in, and, without
    it, exclusion. For callers that do not hold the mutex (\<open>mon_step_bare\<close>): a run in which the
    wake-up is lost. \<open>Monitor_Backend\<close>: the same machine over
    \<open>THREAD_LOCK\<close>, \<open>THREAD_UNLOCK\<close>, \<open>mutex_lock\<close> and \<open>mutex_unlock\<close> of \<open>mutex.h\<close> (locale
    \<open>monitor_locks\<close>, of which every \<open>mutex_backend\<close> is an instance) is simulated by it.

  \<^item> \<open>Tsd\<close>: the keys of the three backends (locale \<open>tsd_backend\<close>) and the functions of the
    tracked keys. \<open>Tracked_Keys\<close>: the tracked keys used by any number of threads at once, step
    by step: no two threads touch one item, a value that was set is read back, a key can be
    destroyed without leak, an ending thread releases its own item only, and all calls end.

  \<^item> \<open>Threads\<close>: starting and joining threads, yielding, the entry points of the components.
    \<open>Self_Key\<close>: the double-checked initialisation in
    \<open>impl/qthreads/threads_qthreads_module.c\<close>, also when the creation of the key fails.

  The state machines share the locale \<open>inv_system\<close> of \<open>Ult_Prelude\<close>: a property of the
  initial states that every step keeps holds of every reachable state; \<open>settling\<close> is the
  locale of machines whose moves use up a measure. \<open>some_backend\<close> of \<open>Mutex\<close> says that a
  record of mutex functions is that of one of the three backends over a library that does
  what it documents, and \<open>some_keys\<close> of \<open>Tracked_Keys\<close> the same of keys.

  \<^bold>\<open>Loops and bounds.\<close> The loops whose end depends on the data or on others are partial
  functions in the option monad: \<open>st_loop\<close>, \<open>wakeup_loop_st\<close>, \<open>wakeup_loop_mt\<close>,
  \<open>broadcast_loop\<close>, \<open>wait_loop\<close>, \<open>timed_loop\<close>; for each it is proved when it ends. The bound of
  26 moves per thread in \<open>Wait_Settle\<close> is the number of lines from the start of a wait to its
  end, counting five for the round a signal sends a sleeping thread back to; a global wake-up
  adds twelve for each object of the ring, of which there is at most one per thread: the update,
  its signal and the step to the next object. The bound of seven
  steps per thread in \<open>Tracked_Keys\<close> is the number of steps of \<open>tsd_tracked_key_set\<close>.

  \<^bold>\<open>What the model takes for granted.\<close> Accesses to shared memory are sequentially consistent,
  so memory barriers do nothing, and the list operations of the wait list are one step, as
  they run under \<open>wait_sync_lock\<close>. A round of the waiting loop of Qthreads is one step: between
  its lock and its unlock only the flag is read. A waiting thread's call of \<open>progress()\<close> does
  nothing itself: the updates it makes are calls of other threads of the machine. In
  \<open>Wait_Machine\<close> each object is waited on once and released by the thread that waited, and
  \<open>using_threads()\<close> is true throughout, as it is in \<open>Monitor\<close>. \<open>SYNC_WAIT\<close> is the start of a
  call of the machine, or \<open>sync_wait_st\<close> when there are no threads. When a thread ends, the
  library clears its value of a key and calls the destructor on it. A tracked key is
  destroyed when no thread is inside a call on it, and the pointer to the user's destructor
  is read and written atomically. Locking a recursive mutex beyond its limit is undefined where
  the library does not document it, that is, for Argobots and Qthreads. The theorems
  about the Qthreads backend take a library whose spin locks are initialised without failure,
  as the backend reports success in any case. The output of a call whose assertion then
  fails is not recorded, as the outcome is the failed assertion alone.

  \<^bold>\<open>Not modelled.\<close> The alias macros of \<open>thread_usage.h\<close> (lines 128 to 214), which only rename
  functions, and its choice of a keyword for thread-local storage; \<open>POST_OBJECT\<close> and
  \<open>ACQUIRE_OBJECT\<close>, memory barriers; debug output; \<open>thread_set_main\<close>, which is empty, and
  \<open>thread_kill\<close>, which has no definition; the class and framework macros of OPAL and the
  registration of MCA variables, third-party code; the type names and static initialisers
  that only rename the library's; the build files, the formatting script and the test program.
\<close>

end
